(* ===== verification/Prelude.thy ===== *)
theory Prelude
  imports Main "HOL-Library.Word"
begin

unbundle bit_operations_syntax

text \<open>
  The vocabulary every other theory shares: the C types of the program, the result of a
  call that may stop the process, the conversions the code makes between \<open>int\<close> and
  \<open>size_t\<close>, the collections of lemmas the component proofs are run with, and the
  generic facts about lists and bits.
\<close>

section \<open>Machine types\<close>

text \<open>
  The build is the 64-bit Linux one: \<open>uint8_t\<close> is an 8-bit word, \<open>uint\<close> a 32-bit
  word and \<open>size_t\<close> a 64-bit word.  Where a \<open>size_t\<close> only ever holds the length of
  something in memory it is kept as a \<open>nat\<close>; the places where the code converts such
  a length to \<open>int\<close>, or compares an \<open>int\<close> with a length, use \<open>c_int\<close> and
  \<open>c_size\<close>, which write the conversion out.
\<close>

type_synonym byte = "8 word"
type_synonym uint = "32 word"
type_synonym u64 = "64 word"

definition c_int :: "nat \<Rightarrow> int" where
  "c_int n = (let k = n mod 2 ^ 32 in if k < 2 ^ 31 then int k else int k - 2 ^ 32)"

definition c_size :: "int \<Rightarrow> nat" where
  "c_size i = nat (i mod 2 ^ 64)"

section \<open>Results\<close>

text \<open>
  A call either returns or stops the process.  The program's own \<open>assert\<close> macro is not
  disabled by \<open>NDEBUG\<close>, so a failed assertion calls \<open>on_assert\<close>, which aborts; the
  next two constructors are behaviours the C standard leaves undefined.  \<open>Out_of_fuel\<close> is
  not a behaviour of the program: it marks a loop that did not end within the number of
  iterations its model was given, so a call that is shown to return \<open>Ok\<close> does end.
\<close>

datatype stop = Assertion_failed | Undefined_behaviour | Null_dereference | Out_of_fuel

type_synonym 'a res = "stop + 'a"

abbreviation Ok :: "'a \<Rightarrow> 'a res" where "Ok \<equiv> Inr"
abbreviation Stop :: "stop \<Rightarrow> 'a res" where "Stop \<equiv> Inl"

definition bind_res :: "'a res \<Rightarrow> ('a \<Rightarrow> 'b res) \<Rightarrow> 'b res" where
  "bind_res m f = (case m of Inl e \<Rightarrow> Inl e | Inr x \<Rightarrow> f x)"

text \<open>\<open>assert(b)\<close> followed by the rest of the function.\<close>

definition c_assert :: "bool \<Rightarrow> 'a res \<Rightarrow> 'a res" where
  "c_assert b k = (if b then k else Stop Assertion_failed)"

section \<open>Collections\<close>

named_theorems c_simps \<open>conversions between int and size_t on the ranges the code uses\<close>
named_theorems op_defs \<open>unfolding of the operations of a pipe\<close>
named_theorems word_flags \<open>evaluation of the event masks\<close>

section \<open>Results: rules\<close>

lemma bind_res_Ok [simp]: "bind_res (Ok x) f = f x"
  by (simp add: bind_res_def)

lemma bind_res_Stop [simp]: "bind_res (Stop e) f = Stop e"
  by (simp add: bind_res_def)

lemma bind_res_eq_Ok: "bind_res m f = Ok y \<longleftrightarrow> (\<exists>x. m = Ok x \<and> f x = Ok y)"
  by (cases m) auto

lemma bind_res_eq_Stop:
  "bind_res m f = Stop e \<longleftrightarrow> m = Stop e \<or> (\<exists>x. m = Ok x \<and> f x = Stop e)"
  by (cases m) auto

lemma bind_res_cong [fundef_cong]:
  "m = m' \<Longrightarrow> (\<And>x. m' = Ok x \<Longrightarrow> f x = f' x) \<Longrightarrow> bind_res m f = bind_res m' f'"
  by (cases m') auto

lemma c_assert_True [simp]: "b \<Longrightarrow> c_assert b k = k"
  by (simp add: c_assert_def)

lemma c_assert_False [simp]: "\<not> b \<Longrightarrow> c_assert b k = Stop Assertion_failed"
  by (simp add: c_assert_def)

lemma c_assert_eq_Ok: "c_assert b k = Ok x \<longleftrightarrow> b \<and> k = Ok x"
  by (simp add: c_assert_def)

section \<open>Conversions\<close>

lemma c_int_small [c_simps]: "n < 2 ^ 31 \<Longrightarrow> c_int n = int n"
  by (simp add: c_int_def)

lemma c_size_nonneg [c_simps]: "0 \<le> i \<Longrightarrow> i < 2 ^ 64 \<Longrightarrow> c_size i = nat i"
  by (simp add: c_size_def)

lemma c_size_minus_one [c_simps]: "c_size (-1) = 2 ^ 64 - 1"
  by (simp add: c_size_def)

section \<open>Lists\<close>

lemma take_take_append: "n \<le> length xs \<Longrightarrow> take n xs @ drop n xs = xs"
  by simp

lemma append_eq_drop: "xs @ ys = zs \<Longrightarrow> ys = drop (length xs) zs"
  by auto

lemma all_below_Suc: "(\<forall>i < Suc n. P i) \<longleftrightarrow> P 0 \<and> (\<forall>i < n. P (Suc i))"
  by (metis Suc_less_eq gr0_implies_Suc less_Suc_eq_0_disj zero_less_Suc)

section \<open>Bits\<close>

text \<open>
  The test \<open>val & m\<close> for a mask \<open>m\<close> of \<open>k\<close> one bits starting at bit \<open>j\<close>
  looks at the \<open>k\<close> binary digits above the \<open>j\<close>-th.
\<close>

lemma and_push_mask_eq_0_iff:
  fixes w :: "'a::len word"
  assumes "j + k \<le> LENGTH('a)"
  shows "w AND push_bit j (mask k) = 0 \<longleftrightarrow> unat w div 2 ^ j mod 2 ^ k = 0"
proof -
  have "w AND push_bit j (mask k) = 0 \<longleftrightarrow> take_bit k (drop_bit j w) = 0"
    using assms by (auto simp: bit_eq_iff bit_simps; metis add.commute add_diff_cancel_right' 
        le_add2 le_add_diff_inverse2 less_diff_conv order_less_le_trans)
  also have "\<dots> \<longleftrightarrow> unat (take_bit k (drop_bit j w)) = 0"
    by (simp add: unat_eq_zero)
  also have "unat (take_bit k (drop_bit j w)) = take_bit k (drop_bit j (unat w))"
    by (rule bit_eqI) (use assms in \<open>auto simp: bit_simps intro: bit_imp_le_length\<close>)
  also have "\<dots> = unat w div 2 ^ j mod 2 ^ k"
    by (simp add: take_bit_eq_mod drop_bit_eq_div)
  finally show ?thesis .
qed

end
