(* ===== verification/Buffer.thy ===== *)
theory Buffer
  imports Prelude
begin

text \<open>
  \<open>io/src/io_buffer.c\<close> and \<open>io_buffer.h\<close>: a block of \<open>capacity\<close> bytes of which
  \<open>size\<close> bytes from \<open>head\<close> on are in use.  The \<open>head\<close> pointer is kept as its offset
  from \<open>data\<close>; a pointer to a buffer that may be NULL is an \<open>io_buffer option\<close>, and
  \<open>free_io_buffer\<close> is the pointer going out of use, since every buffer of the program has
  one owner.  Allocation is taken to succeed.

  \<open>wf_buf\<close> is the invariant the header file states in its comments.  The lemmas say what
  each operation does to \<open>buf_bytes\<close>, the bytes in use.
\<close>

record io_buffer =
  capacity :: nat
  buf_head :: nat
  buf_size :: nat
  buf_data :: "byte list"

text \<open>\<open>data = None\<close> is a NULL argument; \<open>memcpy\<close> reads \<open>size\<close> bytes of \<open>data\<close>.\<close>

definition alloc_io_buffer :: "nat \<Rightarrow> byte list option \<Rightarrow> nat \<Rightarrow> io_buffer res" where
  "alloc_io_buffer cap data n =
     c_assert (data = None \<or> n \<le> cap)
       (case data of
          Some d \<Rightarrow>
            (if n \<noteq> 0
             then if n \<le> length d
               then Ok \<lparr>capacity = cap, buf_head = 0, buf_size = n,
                        buf_data = take n d @ replicate (cap - n) 0\<rparr>
               else Stop Undefined_behaviour
             else Ok \<lparr>capacity = cap, buf_head = 0, buf_size = 0, buf_data = replicate cap 0\<rparr>)
        | None \<Rightarrow> Ok \<lparr>capacity = cap, buf_head = 0, buf_size = 0, buf_data = replicate cap 0\<rparr>)"

definition reset_io_buffer :: "io_buffer \<Rightarrow> io_buffer" where
  "reset_io_buffer b = b\<lparr>buf_head := 0, buf_size := 0\<rparr>"

text \<open>The two assignments \<open>head += n; size -= n\<close> by which every user drops bytes it is done with.\<close>

definition buf_consume :: "nat \<Rightarrow> io_buffer \<Rightarrow> io_buffer" where
  "buf_consume n b = b\<lparr>buf_head := buf_head b + n, buf_size := buf_size b - n\<rparr>"

text \<open>The invariant of \<open>io_buffer.h\<close>, and the bytes in use.\<close>

definition wf_buf :: "io_buffer \<Rightarrow> bool" where
  "wf_buf b \<longleftrightarrow> length (buf_data b) = capacity b \<and> buf_head b + buf_size b \<le> capacity b"

definition buf_bytes :: "io_buffer \<Rightarrow> byte list" where
  "buf_bytes b = take (buf_size b) (drop (buf_head b) (buf_data b))"

text \<open>The bytes of a buffer that a pipe or a stream may be holding back.\<close>

definition pending_bytes :: "io_buffer option \<Rightarrow> byte list" where
  "pending_bytes b = (case b of None \<Rightarrow> [] | Some b \<Rightarrow> buf_bytes b)"

section \<open>Lemmas\<close>

lemma pending_bytes_simps [simp]:
  "pending_bytes None = []" "pending_bytes (Some b) = buf_bytes b"
  by (simp_all add: pending_bytes_def)

lemma length_buf_bytes [simp]: "wf_buf b \<Longrightarrow> length (buf_bytes b) = buf_size b"
  by (auto simp: wf_buf_def buf_bytes_def min_def)

lemma alloc_io_buffer_None:
  "alloc_io_buffer cap None n =
   Ok \<lparr>capacity = cap, buf_head = 0, buf_size = 0, buf_data = replicate cap 0\<rparr>"
  by (simp add: alloc_io_buffer_def)

lemma alloc_io_buffer_Some:
  assumes "n \<le> cap" and "n \<le> length d"
  obtains b where "alloc_io_buffer cap (Some d) n = Ok b" "wf_buf b" "capacity b = cap"
    "buf_head b = 0" "buf_size b = n" "buf_bytes b = take n d"
  using assms that by (cases "n = 0") (simp_all add: alloc_io_buffer_def wf_buf_def buf_bytes_def)

lemma wf_buf_fresh [simp]:
  "wf_buf \<lparr>capacity = cap, buf_head = 0, buf_size = 0, buf_data = replicate cap 0\<rparr>"
  by (simp add: wf_buf_def)

lemma wf_buf_consume [simp]: "wf_buf b \<Longrightarrow> n \<le> buf_size b \<Longrightarrow> wf_buf (buf_consume n b)"
  by (simp add: wf_buf_def buf_consume_def)

lemma buf_bytes_consume [simp]:
  "n \<le> buf_size b \<Longrightarrow> buf_bytes (buf_consume n b) = drop n (buf_bytes b)"
  by (simp add: buf_bytes_def buf_consume_def drop_take add.commute)

lemma buf_consume_sel [simp]:
  "capacity (buf_consume n b) = capacity b"
  "buf_size (buf_consume n b) = buf_size b - n"
  by (simp_all add: buf_consume_def)

lemma reset_io_buffer_props [simp]:
  "wf_buf b \<Longrightarrow> wf_buf (reset_io_buffer b)"
  "buf_bytes (reset_io_buffer b) = []"
  "buf_head (reset_io_buffer b) = 0"
  "capacity (reset_io_buffer b) = capacity b"
  by (simp_all add: wf_buf_def reset_io_buffer_def buf_bytes_def)

lemma buf_bytes_le: "length (buf_bytes b) \<le> buf_size b"
  by (simp add: buf_bytes_def)

lemma buf_bytes_consume_le: "length (buf_bytes (buf_consume n b)) \<le> length (buf_bytes b)"
  by (auto simp: buf_bytes_def buf_consume_def min_def)

end
