(* ===== verification/Pipe.thy ===== *)
theory Pipe
  imports Buffer
begin

unbundle bit_operations_syntax

text \<open>
  The pipe interface of \<open>io/inc/libp/io_pipe.h\<close> and the helpers of \<open>io/src/pipe_misc.h\<close>.

  The six state bits of an \<open>io_pipe\<close> are a record of booleans, its five function pointers
  and the event entry a record of functions over the pipe's own state \<open>'p\<close> and the world
  \<open>'w\<close> (event loop and operating system) that all pipes share.  A callback is a tail call
  in every pipe, so the event entry returns the mask it passes to \<open>on_activity\<close>, or \<open>None\<close>
  when it does not call it.

  The locale \<open>pipe_contract\<close> states what the io bridge relies on in a pipe, in terms of
  two histories: the bytes a pipe has accepted for its peer and those it has delivered to
  its user.  The tcp, atx and dgm pipes interpret it in their own theories.
\<close>

section \<open>State bits and events\<close>

record pipe_flags =
  ready :: bool
  broken :: bool
  readable :: bool
  fin_rcvd :: bool
  writable :: bool
  fin_sent :: bool

text \<open>The state after \<open>heap_zalloc\<close>.\<close>

definition zero_flags :: pipe_flags where
  "zero_flags = \<lparr>ready = False, broken = False, readable = False, fin_rcvd = False,
                 writable = False, fin_sent = False\<rparr>"

definition IO_EV_ready :: uint where "IO_EV_ready = 0x01"
definition IO_EV_broken :: uint where "IO_EV_broken = 0x02"
definition IO_EV_readable :: uint where "IO_EV_readable = 0x04"
definition IO_EV_writable :: uint where "IO_EV_writable = 0x08"
definition IO_EV_fin_sent :: uint where "IO_EV_fin_sent = 0x10"

definition SK_EV_readable :: uint where "SK_EV_readable = 0x01"
definition SK_EV_writable :: uint where "SK_EV_writable = 0x02"
definition SK_EV_error :: uint where "SK_EV_error = 0x04"

text \<open>The test \<open>evs & flag\<close>.\<close>

definition has :: "uint \<Rightarrow> uint \<Rightarrow> bool" where
  "has evs flag \<longleftrightarrow> evs AND flag \<noteq> 0"

text \<open>
  \<open>get_pipe_state\<close>.  The fields are signed one-bit fields, so a set bit reads as \<open>-1\<close>.
\<close>

definition bit_field :: "bool \<Rightarrow> uint" where
  "bit_field b = (if b then -1 else 0)"

definition get_pipe_state :: "pipe_flags \<Rightarrow> uint" where
  "get_pipe_state p =
     (push_bit 0 (bit_field (ready p)) AND 0x01) OR
     (push_bit 1 (bit_field (broken p)) AND 0x02) OR
     (push_bit 2 (bit_field (readable p)) AND 0x04) OR
     (push_bit 4 (bit_field (writable p)) AND 0x08) OR
     (push_bit 8 (bit_field (fin_sent p)) AND 0x10) OR
     (push_bit 16 (bit_field (fin_rcvd p)) AND 0x20)"

definition clone_pipe_state :: "pipe_flags \<Rightarrow> pipe_flags \<Rightarrow> pipe_flags" where
  "clone_pipe_state dst src =
     dst\<lparr>ready := ready src, broken := broken src, readable := readable src,
         writable := writable src, fin_sent := fin_sent src, fin_rcvd := fin_rcvd src\<rparr>"

definition tag_pipe_as_broken :: "pipe_flags \<Rightarrow> pipe_flags" where
  "tag_pipe_as_broken p = p\<lparr>broken := True, readable := False, writable := False\<rparr>"

section \<open>The interface\<close>

text \<open>
  \<open>pipe_hook\<close> is the owner's assignment to \<open>on_activity\<close> and \<open>on_context\<close>.
  \<open>recv\<close> is given the size of the caller's buffer and returns, beside its return code, the
  bytes it wrote there.
\<close>

record ('p, 'w) io_pipe =
  pipe_flags :: "'p \<Rightarrow> pipe_flags"
  pipe_hook :: "'p \<Rightarrow> 'p"
  pipe_init :: "'p \<Rightarrow> 'w \<Rightarrow> ('p \<times> 'w) res"
  pipe_recv :: "'p \<Rightarrow> nat \<Rightarrow> 'w \<Rightarrow> (int \<times> byte list \<times> 'p \<times> 'w) res"
  pipe_send :: "'p \<Rightarrow> byte list \<Rightarrow> 'w \<Rightarrow> (int \<times> 'p \<times> 'w) res"
  pipe_send_fin :: "'p \<Rightarrow> 'w \<Rightarrow> (int \<times> 'p \<times> 'w) res"
  pipe_discard :: "'p \<Rightarrow> 'w \<Rightarrow> 'w res"
  pipe_event :: "'p \<Rightarrow> uint \<Rightarrow> 'w \<Rightarrow> (uint option \<times> 'p \<times> 'w) res"

section \<open>Lemmas on masks and state bits\<close>

lemmas event_defs =
  IO_EV_ready_def IO_EV_broken_def IO_EV_readable_def IO_EV_writable_def IO_EV_fin_sent_def
  SK_EV_readable_def SK_EV_writable_def SK_EV_error_def

lemma get_pipe_state_zero: "get_pipe_state zero_flags = 0"
  by (simp add: get_pipe_state_def zero_flags_def bit_field_def)

lemma zero_flags_sel [simp]:
  "\<not> ready zero_flags" "\<not> broken zero_flags" "\<not> readable zero_flags" "\<not> fin_rcvd zero_flags"
  "\<not> writable zero_flags" "\<not> fin_sent zero_flags"
  by (simp_all add: zero_flags_def)

lemma has_zero [simp]: "\<not> has 0 f"
  by (simp add: has_def)

lemma has_or [simp]: "has (a OR b) f \<longleftrightarrow> has a f \<or> has b f"
  by (auto simp: has_def bit.conj_disj_distrib2 or_eq_0_iff)

lemma clone_pipe_state_eq [simp]: "clone_pipe_state dst src = src"
  by (cases dst; cases src) (simp add: clone_pipe_state_def)

lemma tag_pipe_as_broken_sel [simp]:
  "broken (tag_pipe_as_broken p)"
  "\<not> readable (tag_pipe_as_broken p)"
  "\<not> writable (tag_pipe_as_broken p)"
  "ready (tag_pipe_as_broken p) = ready p"
  "fin_rcvd (tag_pipe_as_broken p) = fin_rcvd p"
  "fin_sent (tag_pipe_as_broken p) = fin_sent p"
  by (simp_all add: tag_pipe_as_broken_def)


lemma has_event [word_flags]:
  "has IO_EV_readable IO_EV_readable" "\<not> has IO_EV_readable IO_EV_writable"
  "\<not> has IO_EV_readable IO_EV_broken" "has IO_EV_writable IO_EV_writable"
  "\<not> has IO_EV_writable IO_EV_readable" "\<not> has IO_EV_writable IO_EV_broken"
  "\<not> has IO_EV_writable IO_EV_ready" "\<not> has IO_EV_readable IO_EV_ready"
  "\<not> has IO_EV_broken IO_EV_ready" "has IO_EV_ready IO_EV_ready"
  "has IO_EV_broken IO_EV_broken" "\<not> has IO_EV_broken IO_EV_readable"
  "\<not> has IO_EV_broken IO_EV_writable" "\<not> has IO_EV_ready IO_EV_broken"
  "\<not> has IO_EV_ready IO_EV_readable" "\<not> has IO_EV_ready IO_EV_writable"
  by (simp_all add: has_def event_defs)

lemma has_sk_event [word_flags]:
  "has SK_EV_readable SK_EV_readable" "\<not> has SK_EV_readable SK_EV_writable"
  "\<not> has SK_EV_readable SK_EV_error" "has SK_EV_writable SK_EV_writable"
  "\<not> has SK_EV_writable SK_EV_readable" "\<not> has SK_EV_writable SK_EV_error"
  "has SK_EV_error SK_EV_error" "\<not> has SK_EV_error SK_EV_readable"
  "\<not> has SK_EV_error SK_EV_writable"
  by (simp_all add: has_def event_defs)

lemma has_clear_writable [word_flags]:
  "\<not> has (ev AND NOT IO_EV_writable) IO_EV_writable"
  "has (ev AND NOT IO_EV_writable) IO_EV_readable \<longleftrightarrow> has ev IO_EV_readable"
  "has (ev AND NOT IO_EV_writable) IO_EV_broken \<longleftrightarrow> has ev IO_EV_broken"
  "has (ev AND NOT IO_EV_writable) IO_EV_ready \<longleftrightarrow> has ev IO_EV_ready"
  by (simp_all add: has_def event_defs and.assoc)

section \<open>The contract of a pipe\<close>

text \<open>The consistency of the state bits, and what the code keeps of them on a broken pipe.\<close>

definition flags_ok :: "pipe_flags \<Rightarrow> bool" where
  "flags_ok f \<longleftrightarrow> \<not> broken f \<and> (readable f \<longrightarrow> ready f \<and> \<not> fin_rcvd f) \<and>
     (writable f \<longrightarrow> ready f \<and> \<not> fin_sent f)"

definition broken_ok :: "pipe_flags \<Rightarrow> bool" where
  "broken_ok f \<longleftrightarrow> (broken f \<longrightarrow> \<not> readable f \<and> \<not> writable f)"

text \<open>What \<open>recv\<close> into a buffer of \<open>n\<close> bytes may report.\<close>

definition recv_report :: "nat \<Rightarrow> int \<Rightarrow> byte list \<Rightarrow> pipe_flags \<Rightarrow> pipe_flags \<Rightarrow> bool" where
  "recv_report n r bs f f' \<longleftrightarrow>
     broken_ok f' \<and>
     ((0 < r \<and> r = int (length bs) \<and> length bs \<le> n \<and> \<not> broken f' \<and> fin_rcvd f' = fin_rcvd f) \<or>
      (r = 0 \<and> bs = [] \<and> \<not> broken f' \<and> fin_rcvd f' \<and> \<not> readable f') \<or>
      (r < 0 \<and> bs = [] \<and> fin_rcvd f' = fin_rcvd f))"

text \<open>What \<open>send\<close> of \<open>n\<close> bytes may report.\<close>

definition send_report :: "nat \<Rightarrow> int \<Rightarrow> pipe_flags \<Rightarrow> bool" where
  "send_report n r f' \<longleftrightarrow>
     broken_ok f' \<and> -1 \<le> r \<and> r \<le> int n \<and> (r < int n \<longrightarrow> \<not> writable f') \<and> (0 \<le> r \<longrightarrow> \<not> broken f')"

text \<open>The state bits of the direction an operation does not touch stay as they are.\<close>

definition same_tx :: "pipe_flags \<Rightarrow> pipe_flags \<Rightarrow> bool" where
  "same_tx f f' \<longleftrightarrow> ready f' = ready f \<and> writable f' = writable f \<and> (fin_sent f \<longrightarrow> fin_sent f')"

definition same_rx :: "pipe_flags \<Rightarrow> pipe_flags \<Rightarrow> bool" where
  "same_rx f f' \<longleftrightarrow> ready f' = ready f \<and> readable f' = readable f \<and> fin_rcvd f' = fin_rcvd f"

text \<open>
  What an event may do to the state bits, given the mask \<open>up\<close> handed to \<open>on_activity\<close>: a
  bit that is raised is announced, except \<open>fin_sent\<close>, which no pipe ever announces.
\<close>

definition up_has :: "uint option \<Rightarrow> uint \<Rightarrow> bool" where
  "up_has up e \<longleftrightarrow> (case up of None \<Rightarrow> False | Some io \<Rightarrow> has io e)"

definition event_report :: "uint option \<Rightarrow> pipe_flags \<Rightarrow> pipe_flags \<Rightarrow> bool" where
  "event_report up f f' \<longleftrightarrow>
     broken_ok f' \<and>
     (if broken f' then up_has up IO_EV_broken \<and> \<not> up_has up IO_EV_writable
      else \<not> up_has up IO_EV_broken \<and> fin_rcvd f' = fin_rcvd f \<and> (fin_sent f \<longrightarrow> fin_sent f') \<and>
        (ready f' \<longleftrightarrow> ready f \<or> up_has up IO_EV_ready) \<and>
        (readable f' \<longleftrightarrow> readable f \<or> up_has up IO_EV_readable) \<and>
        (writable f' \<longleftrightarrow> writable f \<or> up_has up IO_EV_writable))"

lemma up_has_simps [simp]:
  "\<not> up_has None e" "up_has (Some io) e \<longleftrightarrow> has io e"
  by (simp_all add: up_has_def)

text \<open>
  The parameters beside the operations: \<open>inv\<close> the pipe's invariant; \<open>sent\<close> and
  \<open>rcvd\<close> the two histories; \<open>input\<close> the whole stream of the peer, of which \<open>rcvd\<close>
  is a prefix; \<open>fin_asked\<close> whether \<open>send_fin\<close> was called; \<open>ep\<close> the
  endpoint a pipe owns and \<open>agree\<close> when two worlds look the same from an endpoint;
  \<open>ev_ok\<close> which event masks may be delivered; \<open>work\<close> a bound on the input still to come;
  \<open>rmin\<close> the shortest buffer \<open>recv\<close> may be given and \<open>lim\<close> the longest.

  A law either keeps the invariant or breaks the pipe; the histories are exact in both cases.
  The invariant of a pipe excludes \<open>broken\<close>: once a pipe is broken nothing is promised.
\<close>

locale pipe_contract =
  fixes api :: "('p, 'w) io_pipe"
    and inv :: "'p \<Rightarrow> 'w \<Rightarrow> bool"
    and sent :: "'p \<Rightarrow> 'w \<Rightarrow> byte list"
    and rcvd :: "'p \<Rightarrow> 'w \<Rightarrow> byte list"
    and input :: "'p \<Rightarrow> 'w \<Rightarrow> byte list"
    and fin_asked :: "'p \<Rightarrow> bool"
    and ep :: "'p \<Rightarrow> 'e"
    and agree :: "'e \<Rightarrow> 'w \<Rightarrow> 'w \<Rightarrow> bool"
    and ev_ok :: "'p \<Rightarrow> uint \<Rightarrow> bool"
    and work :: "'p \<Rightarrow> 'w \<Rightarrow> nat"
    and rmin :: nat
    and lim :: nat
  assumes flags: "inv p w \<Longrightarrow> flags_ok (pipe_flags api p)"
    and fin_asked_not_writable: "inv p w \<Longrightarrow> fin_asked p \<Longrightarrow> \<not> writable (pipe_flags api p)"
    and fin_sent_asked: "inv p w \<Longrightarrow> fin_sent (pipe_flags api p) \<Longrightarrow> fin_asked p"
    and lim_small: "lim < 2 ^ 31"
    and rmin_pos: "0 < rmin"
    and rcvd_input: "inv p w \<Longrightarrow> \<exists>rest. input p w = rcvd p w @ rest"
    and agree_refl: "agree e w w"
    and agree_trans: "agree e w1 w2 \<Longrightarrow> agree e w2 w3 \<Longrightarrow> agree e w1 w3"
    and own: "inv p w \<Longrightarrow> agree (ep p) w w' \<Longrightarrow>
      inv p w' \<and> sent p w' = sent p w \<and> rcvd p w' = rcvd p w \<and> input p w' = input p w \<and>
      work p w' = work p w"
    and recv_law: "inv p w \<Longrightarrow> readable (pipe_flags api p) \<Longrightarrow> rmin \<le> n \<Longrightarrow> n \<le> lim \<Longrightarrow>
      \<exists>r bs p' w'. pipe_recv api p n w = Ok (r, bs, p', w') \<and>
        recv_report n r bs (pipe_flags api p) (pipe_flags api p') \<and>
        rcvd p' w' = rcvd p w @ bs \<and> sent p' w' = sent p w \<and> input p' w' = input p w \<and>
        ep p' = ep p \<and> fin_asked p' = fin_asked p \<and> (\<forall>e. e \<noteq> ep p \<longrightarrow> agree e w w') \<and>
        work p' w' + length bs < work p w \<and>
        (broken (pipe_flags api p') \<or>
         inv p' w' \<and> same_tx (pipe_flags api p) (pipe_flags api p'))"
    and send_law: "inv p w \<Longrightarrow> writable (pipe_flags api p) \<Longrightarrow> 0 < length bs \<Longrightarrow> length bs \<le> lim \<Longrightarrow>
      \<exists>r p' w'. pipe_send api p bs w = Ok (r, p', w') \<and>
        send_report (length bs) r (pipe_flags api p') \<and>
        sent p' w' = sent p w @ take (nat r) bs \<and> rcvd p' w' = rcvd p w \<and> input p' w' = input p w \<and>
        ep p' = ep p \<and> fin_asked p' = fin_asked p \<and> (\<forall>e. e \<noteq> ep p \<longrightarrow> agree e w w') \<and>
        work p' w' \<le> work p w \<and>
        (broken (pipe_flags api p') \<or>
         inv p' w' \<and> same_rx (pipe_flags api p) (pipe_flags api p'))"
    and send_fin_law: "inv p w \<Longrightarrow> \<not> fin_asked p \<Longrightarrow> ready (pipe_flags api p) \<Longrightarrow>
      \<exists>r p' w'. pipe_send_fin api p w = Ok (r, p', w') \<and>
        sent p' w' = sent p w \<and> rcvd p' w' = rcvd p w \<and> input p' w' = input p w \<and>
        ep p' = ep p \<and> (\<forall>e. e \<noteq> ep p \<longrightarrow> agree e w w') \<and>
        work p' w' \<le> work p w \<and> broken_ok (pipe_flags api p') \<and>
        (r < 0 \<and> broken (pipe_flags api p') \<or>
         0 \<le> r \<and> fin_asked p' \<and> inv p' w' \<and> same_rx (pipe_flags api p) (pipe_flags api p'))"
    and event_law: "inv p w \<Longrightarrow> ev_ok p ev \<Longrightarrow>
      \<exists>up p' w'. pipe_event api p ev w = Ok (up, p', w') \<and>
        event_report up (pipe_flags api p) (pipe_flags api p') \<and>
        sent p' w' = sent p w \<and> rcvd p' w' = rcvd p w \<and> input p' w' = input p w \<and>
        ep p' = ep p \<and> fin_asked p' = fin_asked p \<and> (\<forall>e. e \<noteq> ep p \<longrightarrow> agree e w w') \<and>
        work p' w' \<le> Suc (work p w) \<and>
        (broken (pipe_flags api p') \<or> inv p' w')"

text \<open>A pipe whose \<open>send\<close> takes everything or nothing.\<close>

locale atomic_pipe = pipe_contract +
  assumes atomic: "inv p w \<Longrightarrow> writable (pipe_flags api p) \<Longrightarrow> 0 < length bs \<Longrightarrow> length bs \<le> lim \<Longrightarrow>
      pipe_send api p bs w = Ok (r, p', w') \<Longrightarrow> r = -1 \<or> r = int (length bs)"

end
