(* ===== verification/Socket.thy ===== *)
theory Socket
  imports Pipe
begin

text \<open>
  The socket layer of \<open>sys/inc.linux/libp/socket.h\<close>, over a model of the calls it makes into
  the C library.

  What the operating system will do with a socket is data of the model: \<open>rx_script\<close> lists what
  successive \<open>recvfrom\<close> calls find, \<open>tx_script\<close> how much successive \<open>sendto\<close> calls take,
  \<open>shut_script\<close> and \<open>so_script\<close> the outcomes of \<open>shutdown\<close> and of reading
  \<open>SO_ERROR\<close>.  A theorem that holds for every script holds for every behaviour of the peer
  and the network.  A drained script answers \<open>EAGAIN\<close>, an end of file stays.  \<open>rx_log\<close>
  and \<open>tx_log\<close> record the bytes that have crossed the socket.

  The \<open>sk_\<close> functions are the inline functions of the header; \<open>sk_recv\<close> and
  \<open>sk_send\<close> repeat a call that was interrupted.
\<close>

section \<open>The operating system's side\<close>

datatype recv_reply = Rx_data byte "byte list" | Rx_eof | Rx_error int
datatype send_reply = Tx_accept nat | Tx_error int

record sock =
  rx_script :: "recv_reply list"
  tx_script :: "send_reply list"
  shut_script :: "int list"
  so_script :: "int list"
  rx_log :: "byte list"
  tx_log :: "byte list"
  fin_out :: bool
  sk_open :: bool

text \<open>The values of \<open>errno.h\<close>.\<close>

definition EINTR :: int where "EINTR = 4"
definition EAGAIN :: int where "EAGAIN = 11"
definition EWOULDBLOCK :: int where "EWOULDBLOCK = 11"
definition ENOMEM :: int where "ENOMEM = 12"
definition ETIMEDOUT :: int where "ETIMEDOUT = 110"
definition ECONNREFUSED :: int where "ECONNREFUSED = 111"
definition EINPROGRESS :: int where "EINPROGRESS = 115"

text \<open>
  One \<open>recvfrom\<close> into \<open>n\<close> bytes: the result as the \<open>int\<close> it is assigned to, the bytes
  written, \<open>errno\<close> after the call and the socket.  One \<open>sendto\<close> likewise.
\<close>

fun sys_recvfrom :: "nat \<Rightarrow> recv_reply list \<Rightarrow> int \<Rightarrow> int \<times> byte list \<times> int \<times> recv_reply list" where
  "sys_recvfrom n [] errno = (-1, [], EAGAIN, [])"
| "sys_recvfrom n (Rx_error e # s) errno = (-1, [], e, s)"
| "sys_recvfrom n (Rx_eof # s) errno = (0, [], errno, Rx_eof # s)"
| "sys_recvfrom n (Rx_data b bs # s) errno =
     (c_int (length (take n (b # bs))), take n (b # bs), errno,
      (case drop n (b # bs) of [] \<Rightarrow> s | b' # bs' \<Rightarrow> Rx_data b' bs' # s))"

fun sys_sendto :: "nat \<Rightarrow> send_reply list \<Rightarrow> int \<Rightarrow> int \<times> int \<times> send_reply list" where
  "sys_sendto n [] errno = (-1, EAGAIN, [])"
| "sys_sendto n (Tx_error e # s) errno = (-1, e, s)"
| "sys_sendto n (Tx_accept k # s) errno = (c_int (min k n), errno, s)"

text \<open>The bytes and answers left in a script: what \<open>recvfrom\<close> can still produce.\<close>

fun reply_size :: "recv_reply \<Rightarrow> nat" where
  "reply_size (Rx_data b bs) = Suc (length bs)"
| "reply_size Rx_eof = 1"
| "reply_size (Rx_error e) = 1"

definition script_size :: "recv_reply list \<Rightarrow> nat" where
  "script_size s = sum_list (map reply_size s)"

lemma script_size_simps [simp]:
  "script_size [] = 0"
  "script_size (x # s) = reply_size x + script_size s"
  by (simp_all add: script_size_def)

text \<open>The stream a script stands for: the bytes up to the end of file.\<close>

fun script_bytes :: "recv_reply list \<Rightarrow> byte list" where
  "script_bytes [] = []"
| "script_bytes (Rx_data b bs # s) = b # bs @ script_bytes s"
| "script_bytes (Rx_eof # s) = []"
| "script_bytes (Rx_error e # s) = script_bytes s"

lemma drop_script_size:
  "script_size (case drop n bs of [] \<Rightarrow> s | b' # bs' \<Rightarrow> Rx_data b' bs' # s) =
   length bs - n + script_size s"
  by (cases "drop n bs") (auto dest: arg_cong [where f = length])

lemma drop_script_bytes:
  "script_bytes (case drop n bs of [] \<Rightarrow> s | b' # bs' \<Rightarrow> Rx_data b' bs' # s) =
   drop n bs @ script_bytes s"
  by (cases "drop n bs") auto

section \<open>The wrappers\<close>

text \<open>The loops \<open>do r = recvfrom(...) while (r < 0 && errno == EINTR)\<close> and its twin.\<close>

function (sequential) recv_retry :: "nat \<Rightarrow> recv_reply list \<Rightarrow> int \<Rightarrow> int \<times> byte list \<times> int \<times> recv_reply list" where
  "recv_retry n s errno =
     (case sys_recvfrom n s errno of (r, bs, errno', s') \<Rightarrow>
      if r < 0 \<and> errno' = EINTR then recv_retry n s' errno' else (r, bs, errno', s'))"
  by pat_completeness auto

lemma recv_retry_decreases:
  assumes "sys_recvfrom n s errno = (r, bs, errno', s')" and "r < 0" and "errno' = EINTR"
  shows "script_size s' < script_size s"
proof (cases s)
  case (Cons a t)
  show ?thesis
  proof (cases a)
    case (Rx_data b cs)
    with assms Cons have "n \<noteq> 0" by (cases "n = 0") (auto simp: c_int_small)
    with assms Cons Rx_data show ?thesis
      using drop_script_size [where n = n and bs = "b # cs" and s = t] by auto
  qed (use assms Cons in auto)
qed (use assms in \<open>simp add: EINTR_def EAGAIN_def\<close>)

termination recv_retry
  by (relation "measure (\<lambda>(n, s, errno). script_size s)") (auto dest: recv_retry_decreases [OF sym])

declare recv_retry.simps [simp del]

function (sequential) send_retry :: "nat \<Rightarrow> send_reply list \<Rightarrow> int \<Rightarrow> int \<times> int \<times> send_reply list" where
  "send_retry n s errno =
     (case sys_sendto n s errno of (r, errno', s') \<Rightarrow>
      if r < 0 \<and> errno' = EINTR then send_retry n s' errno' else (r, errno', s'))"
  by pat_completeness auto

lemma send_retry_decreases:
  assumes "sys_sendto n s errno = (r, errno', s')" and "r < 0" and "errno' = EINTR"
  shows "length s' < length s"
proof (cases s)
  case (Cons a t)
  then show ?thesis using assms by (cases a) auto
qed (use assms in \<open>simp add: EINTR_def EAGAIN_def\<close>)

termination send_retry
  by (relation "measure (\<lambda>(n, s, errno). length s)") (auto dest: send_retry_decreases [OF sym])

declare send_retry.simps [simp del]

text \<open>
  The world of the pipes: the event loop's state, the sockets by descriptor and the global
  \<open>errno\<close>.
\<close>

record 'e world =
  w_evl :: 'e
  w_sock :: "int \<Rightarrow> sock"
  w_errno :: int

definition sk_recv :: "int \<Rightarrow> nat \<Rightarrow> 'e world \<Rightarrow> int \<times> byte list \<times> 'e world" where
  "sk_recv sk n w =
     (let s = w_sock w sk; (r, bs, e, script) = recv_retry n (rx_script s) (w_errno w) in
      (r, bs, w\<lparr>w_sock := (w_sock w)(sk := s\<lparr>rx_script := script, rx_log := rx_log s @ bs\<rparr>),
                w_errno := e\<rparr>))"

definition sk_send :: "int \<Rightarrow> byte list \<Rightarrow> 'e world \<Rightarrow> int \<times> 'e world" where
  "sk_send sk bs w =
     (let s = w_sock w sk; (r, e, script) = send_retry (length bs) (tx_script s) (w_errno w) in
      (r, w\<lparr>w_sock := (w_sock w)(sk := s\<lparr>tx_script := script, tx_log := tx_log s @ take (nat r) bs\<rparr>),
            w_errno := e\<rparr>))"

text \<open>\<open>shutdown(sk, SHUT_WR)\<close>: an entry 0 of the script is success, any other an \<open>errno\<close>.\<close>

definition sk_shutdown :: "int \<Rightarrow> 'e world \<Rightarrow> int \<times> 'e world" where
  "sk_shutdown sk w =
     (let s = w_sock w sk in
      case shut_script s of
        [] \<Rightarrow> (0, w\<lparr>w_sock := (w_sock w)(sk := s\<lparr>fin_out := True\<rparr>)\<rparr>)
      | e # es \<Rightarrow>
          if e = 0 then (0, w\<lparr>w_sock := (w_sock w)(sk := s\<lparr>shut_script := es, fin_out := True\<rparr>)\<rparr>)
          else (-1, w\<lparr>w_sock := (w_sock w)(sk := s\<lparr>shut_script := es\<rparr>), w_errno := e\<rparr>))"

text \<open>\<open>sk_error\<close>: the value of \<open>SO_ERROR\<close>, or -1 when \<open>getsockopt\<close> fails.\<close>

definition sk_error :: "int \<Rightarrow> 'e world \<Rightarrow> int \<times> 'e world" where
  "sk_error sk w =
     (let s = w_sock w sk in
      case so_script s of
        [] \<Rightarrow> (0, w)
      | e # es \<Rightarrow> (e, w\<lparr>w_sock := (w_sock w)(sk := s\<lparr>so_script := es\<rparr>)\<rparr>))"

definition sk_close :: "int \<Rightarrow> 'e world \<Rightarrow> 'e world" where
  "sk_close sk w = w\<lparr>w_sock := (w_sock w)(sk := (w_sock w sk)\<lparr>sk_open := False\<rparr>)\<rparr>"

definition sk_errno :: "'e world \<Rightarrow> int" where
  "sk_errno w = w_errno w"

definition sk_conn_fatal :: "int \<Rightarrow> bool" where
  "sk_conn_fatal err \<longleftrightarrow> err \<noteq> EINTR \<and> err \<noteq> EINPROGRESS"

definition sk_recv_fatal :: "int \<Rightarrow> bool" where
  "sk_recv_fatal err \<longleftrightarrow> err \<noteq> EINTR \<and> err \<noteq> EAGAIN \<and> err \<noteq> ENOMEM \<and> err \<noteq> EWOULDBLOCK"

definition sk_send_fatal :: "int \<Rightarrow> bool" where
  "sk_send_fatal err \<longleftrightarrow> err \<noteq> EINTR \<and> err \<noteq> EAGAIN \<and> err \<noteq> ENOMEM \<and> err \<noteq> EWOULDBLOCK"

definition sk_conn_refused :: "int \<Rightarrow> bool" where
  "sk_conn_refused err \<longleftrightarrow> err = ECONNREFUSED"

definition sk_conn_timeout :: "int \<Rightarrow> bool" where
  "sk_conn_timeout err \<longleftrightarrow> err = ETIMEDOUT"

section \<open>Lemmas\<close>

text \<open>What a receive may do: a fact about the loop, by induction on its calls.\<close>

lemma recv_retry_report:
  assumes "recv_retry n s errno = (r, bs, errno', s')" and "0 < n" and "n < 2 ^ 31"
  shows "(0 < r \<and> r = int (length bs) \<and> length bs \<le> n \<and>
      script_size s' + length bs \<le> script_size s) \<or>
    (r = 0 \<and> bs = [] \<and> script_size s' \<le> script_size s) \<or>
    (r = -1 \<and> bs = [] \<and> errno' \<noteq> EINTR \<and> script_size s' \<le> script_size s)"
  using assms
proof (induction n s errno rule: recv_retry.induct)
  case (1 n s errno)
  obtain r1 bs1 e1 s1 where call: "sys_recvfrom n s errno = (r1, bs1, e1, s1)"
    by (cases "sys_recvfrom n s errno") auto
  show ?case
  proof (cases "r1 < 0 \<and> e1 = EINTR")
    case True
    with call "1.prems"(1) have "recv_retry n s1 e1 = (r, bs, errno', s')"
      by (subst (asm) recv_retry.simps) simp
    moreover have "script_size s1 < script_size s"
      using recv_retry_decreases [OF call] True by simp
    ultimately show ?thesis
      using "1.IH" [OF call [symmetric] refl refl True] "1.prems"(2,3) by fastforce
  next
    case False
    with call "1.prems"(1) have "sys_recvfrom n s errno = (r, bs, errno', s')"
      by (subst (asm) recv_retry.simps) auto
    then show ?thesis
    proof (cases s)
      case (Cons a t)
      then show ?thesis
      proof (cases a)
        case (Rx_data b cs)
        have "min (length (b # cs)) n < 2 ^ 31" using "1.prems"(3) by simp
        with \<open>sys_recvfrom n s errno = (r, bs, errno', s')\<close> Cons Rx_data "1.prems"(2) show ?thesis
          using drop_script_size [where n = n and bs = "b # cs" and s = t] by (auto simp: c_int_small)
      qed (use \<open>sys_recvfrom n s errno = (r, bs, errno', s')\<close> False call in auto)
    qed (use \<open>sys_recvfrom n s errno = (r, bs, errno', s')\<close> False call in \<open>auto simp: EINTR_def EAGAIN_def\<close>)
  qed
qed

lemma recv_error_empty:
  "sys_recvfrom n s errno = (r, bs, errno', s') \<Longrightarrow> r < 0 \<and> errno' = EINTR \<Longrightarrow> n < 2 ^ 31 \<Longrightarrow> bs = []"
  by (cases "(n, s, errno)" rule: sys_recvfrom.cases) (auto simp: c_int_small)

lemma recv_retry_bytes:
  assumes "recv_retry n s errno = (r, bs, errno', s')"
    and "n < 2 ^ 31"
  shows "script_bytes s = bs @ script_bytes s'"
  using assms
proof (induction n s errno rule: recv_retry.induct)
  case (1 n s errno)
  obtain r1 bs1 e1 s1 where call: "sys_recvfrom n s errno = (r1, bs1, e1, s1)"
    by (cases "sys_recvfrom n s errno") auto
  then have step: "script_bytes s = bs1 @ script_bytes s1"
    by (cases "(n, s, errno)" rule: sys_recvfrom.cases)
       (auto simp: drop_script_bytes simp del: take.simps drop.simps)
  show ?case
  proof (cases "r1 < 0 \<and> e1 = EINTR")
    case True
    have "bs1 = []" using call True recv_error_empty "1.prems"(2) by blast
    moreover have "recv_retry n s1 e1 = (r, bs, errno', s')"
      using call True "1.prems"(1) by (subst (asm) recv_retry.simps) simp
    ultimately show ?thesis using "1.IH" [OF call [symmetric] refl refl True] "1.prems"(2) step by simp
  next
    case False
    with call "1.prems"(1) have "bs = bs1 \<and> s' = s1"
      by (subst (asm) recv_retry.simps) auto
    with step show ?thesis by simp
  qed
qed

lemma send_retry_report:
  assumes "send_retry n s errno = (r, errno', s')" and "n < 2 ^ 31"
  shows "(0 \<le> r \<and> r \<le> int n) \<or> (r = -1 \<and> errno' \<noteq> EINTR)"
  using assms
proof (induction n s errno rule: send_retry.induct)
  case (1 n s errno)
  obtain r1 e1 s1 where call: "sys_sendto n s errno = (r1, e1, s1)"
    by (cases "sys_sendto n s errno") auto
  show ?case
  proof (cases "r1 < 0 \<and> e1 = EINTR")
    case True
    with call "1.prems"(1) have "send_retry n s1 e1 = (r, errno', s')"
      by (subst (asm) send_retry.simps) simp
    then show ?thesis
      using "1.IH" [OF call [symmetric] refl True] "1.prems"(2) by simp
  next
    case False
    with call "1.prems"(1) have "sys_sendto n s errno = (r, errno', s')"
      by (subst (asm) send_retry.simps) auto
    with False call "1.prems"(2) show ?thesis
      by (cases "(n, s, errno)" rule: sys_sendto.cases)
         (auto simp: EINTR_def EAGAIN_def c_int_small min_def split: if_splits)
  qed
qed

end
