(* ===== verification/Startup.thy ===== *)
theory Startup
  imports Socket "HOL-Library.Sublist"
begin

unbundle bit_operations_syntax

text \<open>
  What the two programs do before their main loops: reading the arguments, and the calls into the
  operating system that accept one connection and open another (\<open>tcp-relay.c\<close>, \<open>tcp-proxy.c\<close>), with
  the wrappers of \<open>sys/inc.linux/libp/socket.h\<close>, \<open>sys/inc/libp/socket_utils.h\<close> and
  \<open>sys/src/socket_utils.c\<close> that they use.

  The operating system is a function from the history of calls to the answer to the last one, so a
  statement about all such functions is one about all behaviours of it.  \<open>inet_addr\<close> of the C
  library is a parameter; byte order is that of a little-endian machine.
\<close>

section \<open>Addresses\<close>

record sockaddr_in =
  sin_family :: "16 word"
  sin_port :: "16 word"
  sin_addr :: "32 word"

definition htons :: "16 word \<Rightarrow> 16 word" where
  "htons x = push_bit 8 x OR drop_bit 8 x"

definition htonl :: "32 word \<Rightarrow> 32 word" where
  "htonl x = push_bit 24 x OR push_bit 8 (x AND 0xFF00) OR (drop_bit 8 x AND 0xFF00) OR drop_bit 24 x"

definition AF_INET :: int where "AF_INET = 2"
definition SOCK_STREAM :: int where "SOCK_STREAM = 1"
definition SOL_SOCKET :: int where "SOL_SOCKET = 1"
definition SO_REUSEADDR :: int where "SO_REUSEADDR = 2"
definition IPPROTO_TCP :: int where "IPPROTO_TCP = 6"
definition TCP_NODELAY :: int where "TCP_NODELAY = 1"
definition O_NONBLOCK :: int where "O_NONBLOCK = 2048"
definition SIGPIPE :: int where "SIGPIPE = 13"

definition sockaddr_in_init :: sockaddr_in where
  "sockaddr_in_init = \<lparr>sin_family = word_of_int AF_INET, sin_port = 0, sin_addr = 0\<rparr>"

text \<open>\<open>%u\<close> of \<open>printf\<close>, and \<open>snprintf\<close> into a buffer that holds \<open>old\<close>.\<close>

fun dec :: "nat \<Rightarrow> string" where
  "dec n = (if n < 10 then [char_of (48 + n)] else dec (n div 10) @ [char_of (48 + n mod 10)])"

declare dec.simps [simp del]

definition snprintf :: "string \<Rightarrow> nat \<Rightarrow> string \<Rightarrow> string" where
  "snprintf old n text = (if n = 0 then old else take (n - 1) text)"

definition sa_to_str :: "sockaddr_in \<Rightarrow> string \<Rightarrow> nat \<Rightarrow> string" where
  "sa_to_str sa buf n =
     (let addr = htonl (sin_addr sa);
          port = htons (sin_port sa)
      in snprintf buf n
           (dec (unat (drop_bit 24 addr AND 0xFF)) @ ''.'' @ dec (unat (drop_bit 16 addr AND 0xFF)) @ ''.'' @
            dec (unat (drop_bit 8 addr AND 0xFF)) @ ''.'' @ dec (unat (drop_bit 0 addr AND 0xFF)) @ '':'' @
            dec (unat port)))"

section \<open>The operating system\<close>

datatype syscall =
    Sys_socket int int int
  | Sys_setsockopt int int int int
  | Sys_bind int sockaddr_in nat
  | Sys_listen int int
  | Sys_accept int nat
  | Sys_connect int sockaddr_in nat
  | Sys_getsockname int nat
  | Sys_getpeername int nat
  | Sys_fcntl_getfl int
  | Sys_fcntl_setfl int int
  | Sys_signal_ignore int
  | Sys_ioctlsocket int int int

datatype trace_event = Call syscall | Print string

record os_reply =
  rp_ret :: int
  rp_errno :: int
  rp_addr :: sockaddr_in

type_synonym os = "trace_event list \<Rightarrow> os_reply"

record startup =
  su_log :: "trace_event list"
  su_errno :: int

definition sys_call :: "os \<Rightarrow> syscall \<Rightarrow> startup \<Rightarrow> int \<times> sockaddr_in \<times> startup" where
  "sys_call os c s =
     (let log = su_log s @ [Call c]; r = os log in
      (rp_ret r, rp_addr r, \<lparr>su_log = log, su_errno = (if rp_ret r < 0 then rp_errno r else su_errno s)\<rparr>))"

definition su_print :: "string \<Rightarrow> startup \<Rightarrow> startup" where
  "su_print text s = s\<lparr>su_log := su_log s @ [Print text]\<rparr>"

text \<open>A call that returns a number, and one that also fills in an address when it succeeds.\<close>

definition call_ret :: "os \<Rightarrow> syscall \<Rightarrow> startup \<Rightarrow> int \<times> startup" where
  "call_ret os c s = (case sys_call os c s of (r, _, s) \<Rightarrow> (r, s))"

definition call_addr :: "os \<Rightarrow> syscall \<Rightarrow> sockaddr_in \<Rightarrow> startup \<Rightarrow> int \<times> sockaddr_in \<times> startup" where
  "call_addr os c sa s = (case sys_call os c s of (r, a, s) \<Rightarrow> (r, if r < 0 then sa else a, s))"

section \<open>The wrappers\<close>

definition sk_init :: int where "sk_init = 0"

definition sk_create :: "os \<Rightarrow> int \<Rightarrow> int \<Rightarrow> int \<Rightarrow> startup \<Rightarrow> int \<times> startup" where
  "sk_create os family kind protocol = call_ret os (Sys_socket family kind protocol)"

definition sk_bind :: "os \<Rightarrow> int \<Rightarrow> sockaddr_in \<Rightarrow> nat \<Rightarrow> startup \<Rightarrow> int \<times> startup" where
  "sk_bind os sk addr alen = call_ret os (Sys_bind sk addr alen)"

definition sk_connect :: "os \<Rightarrow> int \<Rightarrow> sockaddr_in \<Rightarrow> nat \<Rightarrow> startup \<Rightarrow> int \<times> startup" where
  "sk_connect os sk addr alen = call_ret os (Sys_connect sk addr alen)"

definition sk_listen :: "os \<Rightarrow> int \<Rightarrow> int \<Rightarrow> startup \<Rightarrow> int \<times> startup" where
  "sk_listen os sk backlog = call_ret os (Sys_listen sk backlog)"

definition sk_accept :: "os \<Rightarrow> int \<Rightarrow> sockaddr_in \<Rightarrow> nat \<Rightarrow> startup \<Rightarrow> int \<times> sockaddr_in \<times> startup" where
  "sk_accept os sk addr alen = call_addr os (Sys_accept sk alen) addr"

definition sk_getsockname :: "os \<Rightarrow> int \<Rightarrow> sockaddr_in \<Rightarrow> nat \<Rightarrow> startup \<Rightarrow> int \<times> sockaddr_in \<times> startup" where
  "sk_getsockname os sk addr alen = call_addr os (Sys_getsockname sk alen) addr"

definition sk_getpeername :: "os \<Rightarrow> int \<Rightarrow> sockaddr_in \<Rightarrow> nat \<Rightarrow> startup \<Rightarrow> int \<times> sockaddr_in \<times> startup" where
  "sk_getpeername os sk addr alen = call_addr os (Sys_getpeername sk alen) addr"

definition sk_setsockopt :: "os \<Rightarrow> int \<Rightarrow> int \<Rightarrow> int \<Rightarrow> int \<Rightarrow> startup \<Rightarrow> int \<times> startup" where
  "sk_setsockopt os sk level opt val = call_ret os (Sys_setsockopt sk level opt val)"

definition sk_unblock :: "os \<Rightarrow> int \<Rightarrow> startup \<Rightarrow> int \<times> startup" where
  "sk_unblock os sk s =
     (let (r, s) = call_ret os (Sys_fcntl_getfl sk) s in
      if r < 0 then (r, s) else call_ret os (Sys_fcntl_setfl sk (r OR O_NONBLOCK)) s)"

text \<open>\<open>sizeof(sockaddr_in)\<close>.\<close>

definition sa_size :: nat where "sa_size = 16"

definition sk_bind_ip4 :: "os \<Rightarrow> int \<Rightarrow> sockaddr_in \<Rightarrow> startup \<Rightarrow> int \<times> startup" where
  "sk_bind_ip4 os sk addr = sk_bind os sk addr sa_size"

definition sk_connect_ip4 :: "os \<Rightarrow> int \<Rightarrow> sockaddr_in \<Rightarrow> startup \<Rightarrow> int \<times> startup" where
  "sk_connect_ip4 os sk addr = sk_connect os sk addr sa_size"

definition sk_accept_ip4 :: "os \<Rightarrow> int \<Rightarrow> sockaddr_in \<Rightarrow> startup \<Rightarrow> int \<times> sockaddr_in \<times> startup" where
  "sk_accept_ip4 os sk addr = sk_accept os sk addr sa_size"

definition sk_getsockname_ip4 :: "os \<Rightarrow> int \<Rightarrow> sockaddr_in \<Rightarrow> startup \<Rightarrow> int \<times> sockaddr_in \<times> startup" where
  "sk_getsockname_ip4 os sk addr = sk_getsockname os sk addr sa_size"

definition sk_getpeername_ip4 :: "os \<Rightarrow> int \<Rightarrow> sockaddr_in \<Rightarrow> startup \<Rightarrow> int \<times> sockaddr_in \<times> startup" where
  "sk_getpeername_ip4 os sk addr = call_addr os (Sys_getpeername sk sa_size) addr"

definition sk_no_delay :: "os \<Rightarrow> int \<Rightarrow> startup \<Rightarrow> int \<times> startup" where
  "sk_no_delay os sk = sk_setsockopt os sk IPPROTO_TCP TCP_NODELAY 1"

section \<open>The arguments\<close>

text \<open>\<open>atoi\<close>; a value that does not fit an \<open>int\<close> is undefined behaviour.\<close>

definition is_space :: "char \<Rightarrow> bool" where
  "is_space c \<longleftrightarrow> (of_char c :: nat) = 32 \<or> 9 \<le> (of_char c :: nat) \<and> (of_char c :: nat) \<le> 13"

definition is_digit :: "char \<Rightarrow> bool" where
  "is_digit c \<longleftrightarrow> 48 \<le> (of_char c :: nat) \<and> (of_char c :: nat) \<le> 57"

fun digits_val :: "nat \<Rightarrow> string \<Rightarrow> nat" where
  "digits_val acc [] = acc"
| "digits_val acc (c # cs) = (if is_digit c then digits_val (10 * acc + (of_char c - 48)) cs else acc)"

definition atoi :: "string \<Rightarrow> int res" where
  "atoi str =
     (let s = dropWhile is_space str;
          neg = (s \<noteq> [] \<and> hd s = CHR ''-'');
          s = (if s \<noteq> [] \<and> (hd s = CHR ''-'' \<or> hd s = CHR ''+'') then tl s else s);
          v = (if neg then - int (digits_val 0 s) else int (digits_val 0 s))
      in if - (2 ^ 31) \<le> v \<and> v < 2 ^ 31 then Ok v else Stop Undefined_behaviour)"

text \<open>The loop over the arguments of \<open>tcp-proxy\<close>; \<open>None\<close> is \<open>goto syntax\<close>.\<close>

record proxy_conf =
  pc_client :: bool
  pxy_port :: "16 word"
  srv_addr :: string
  srv_port :: "16 word"

definition proxy_defaults :: proxy_conf where
  "proxy_defaults = \<lparr>pc_client = True, pxy_port = 55555, srv_addr = ''127.0.0.1'', srv_port = 22\<rparr>"

fun proxy_args :: "string list \<Rightarrow> proxy_conf \<Rightarrow> proxy_conf option res" where
  "proxy_args [] conf = Ok (Some conf)"
| "proxy_args [x] conf = Ok None"
| "proxy_args (x # y # args) conf =
     (if x = ''-c'' then
        bind_res (atoi y) (\<lambda>v. proxy_args args (conf\<lparr>pc_client := True, pxy_port := word_of_int v\<rparr>))
      else if x = ''-s'' then
        bind_res (atoi y) (\<lambda>v. proxy_args args (conf\<lparr>pc_client := False, pxy_port := word_of_int v\<rparr>))
      else
        bind_res (atoi y) (\<lambda>v. proxy_args args (conf\<lparr>srv_addr := x, srv_port := word_of_int v\<rparr>)))"

section \<open>From the arguments to the two sockets\<close>

datatype outcome = Exit_with int | Connected int int

text \<open>\<open>setsockopt < 0 || bind < 0 || listen < 0\<close>\<close>

definition listen_fails :: "os \<Rightarrow> int \<Rightarrow> sockaddr_in \<Rightarrow> startup \<Rightarrow> bool \<times> startup" where
  "listen_fails os sk sa s =
     (let (r, s) = sk_setsockopt os sk SOL_SOCKET SO_REUSEADDR 1 s in
      if r < 0 then (True, s)
      else let (r, s) = sk_bind_ip4 os sk sa s in
      if r < 0 then (True, s)
      else let (r, s) = sk_listen os sk 8 s in (r < 0, s))"

text \<open>\<open>connect < 0 && sk_conn_fatal(errno)\<close>\<close>

definition connect_fails :: "os \<Rightarrow> int \<Rightarrow> sockaddr_in \<Rightarrow> startup \<Rightarrow> bool \<times> startup" where
  "connect_fails os sk sa s =
     (let (r, s) = sk_connect_ip4 os sk sa s in (r < 0 \<and> sk_conn_fatal (su_errno s), s))"

text \<open>
  The two \<open>main\<close> functions contain the same code but for the port, the banner and the exit codes,
  which start with \<open>e\<close>: first they accept one connection, then they open another.  The address
  that \<open>accept\<close> filled in is used again for the outgoing connection, so its family is that of the
  client's address.
\<close>

definition serve_one ::
  "os \<Rightarrow> int \<Rightarrow> 16 word \<Rightarrow> (string \<Rightarrow> string list) \<Rightarrow> startup \<Rightarrow> (int + int \<times> sockaddr_in) \<times> startup" where
  "serve_one os e port banner s =
     (let (sk, s) = sk_create os AF_INET SOCK_STREAM 0 s in
      if sk < 0 then (Inl e, s)
      else let sa = sockaddr_in_init\<lparr>sin_port := htons port\<rparr>;
          (fails, s) = listen_fails os sk sa s in
      if fails then (Inl (e + 1), s)
      else let s = fold su_print (banner (sa_to_str sa [] 128)) s;
          (c2p, sa, s) = sk_accept_ip4 os sk sa s in
      if c2p < 0 then (Inl (e + 2), s)
      else let s = su_print ''accepted\<newline>'' s;
          (_, s) = sk_unblock os c2p s in
      (Inr (c2p, sa), s))"

definition dial_banner :: "string \<Rightarrow> string" where
  "dial_banner addr = ''connecting to '' @ addr @ '' ...\<newline>''"

definition dial_out :: "os \<Rightarrow> int \<Rightarrow> int \<Rightarrow> 32 word \<Rightarrow> 16 word \<Rightarrow> sockaddr_in \<Rightarrow> startup \<Rightarrow> outcome \<times> startup" where
  "dial_out os e c2p ip port sa s =
     (let sa = sa\<lparr>sin_addr := ip, sin_port := htons port\<rparr>;
          (p2s, s) = sk_create os AF_INET SOCK_STREAM 0 s in
      if p2s < 0 then (Exit_with e, s)
      else let (r, s) = sk_unblock os p2s s in
      if r < 0 then (Exit_with (e + 1), s)
      else let s = su_print (dial_banner (sa_to_str sa [] 128)) s;
          (fails, s) = connect_fails os p2s sa s in
      if fails then (Exit_with (e + 2), s) else (Connected c2p p2s, s))"

definition relay_banner :: "string \<Rightarrow> string list" where
  "relay_banner addr = [''listening on '' @ addr @ '' ...\<newline>'']"

definition relay_startup ::
  "(string \<Rightarrow> 32 word) \<Rightarrow> os \<Rightarrow> string list \<Rightarrow> startup \<Rightarrow> (outcome \<times> startup) res" where
  "relay_startup inet_addr os args s =
     (if sk_init < 0 then Ok (Exit_with 1, s)
      else case serve_one os 2 55555 relay_banner s of
        (Inl code, s) \<Rightarrow> Ok (Exit_with code, s)
      | (Inr (c2p, sa), s) \<Rightarrow>
          let ip = inet_addr (if args \<noteq> [] then hd args else ''127.0.0.1'') in
          bind_res (if 1 < length args then atoi (args ! 1) else Ok 22)
            (\<lambda>port. Ok (dial_out os 5 c2p ip (word_of_int port) sa s)))"

definition proxy_banner :: "proxy_conf \<Rightarrow> string \<Rightarrow> string list" where
  "proxy_banner conf addr =
     [''listening on '' @ addr @ '' as '' @ (if pc_client conf then ''client'' else ''server'') @ '' ...\<newline>'',
      ''forwarding to '' @ srv_addr conf @ '':'' @ dec (unat (srv_port conf)) @ ''\<newline>'']"

definition proxy_syntax :: "string \<Rightarrow> string" where
  "proxy_syntax prog = ''Syntax: '' @ prog @ '' [-c <pxy_port>] [-s <pxy_port>] [<srv_addr> [<srv_port]]\<newline>''"

definition proxy_startup ::
  "(string \<Rightarrow> 32 word) \<Rightarrow> os \<Rightarrow> string \<Rightarrow> string list \<Rightarrow> startup \<Rightarrow> (bool \<times> outcome \<times> startup) res" where
  "proxy_startup inet_addr os prog args s =
     bind_res (proxy_args args proxy_defaults) (\<lambda>conf. case conf of
       None \<Rightarrow> Ok (True, Exit_with 1, su_print (proxy_syntax prog) s)
     | Some conf \<Rightarrow>
         let (_, s) = call_ret os (Sys_signal_ignore SIGPIPE) s in
         (case serve_one os 1 (pxy_port conf) (proxy_banner conf) s of
           (Inl code, s) \<Rightarrow> Ok (pc_client conf, Exit_with code, s)
         | (Inr (c2p, sa), s) \<Rightarrow>
             Ok (pc_client conf, dial_out os 4 c2p (inet_addr (srv_addr conf)) (srv_port conf) sa s)))"

section \<open>Printed addresses\<close>

lemma digit_chars [simp]: "n < 10 \<Longrightarrow> is_digit (char_of (48 + n :: nat))" "n < 10 \<Longrightarrow> of_char (char_of (48 + n :: nat)) - 48 = n"
  by (simp_all add: is_digit_def)

text \<open>Reading a number back, with what follows it.\<close>

lemma digits_val_dec: "digits_val a (dec n @ rest) = digits_val (a * 10 ^ length (dec n) + n) rest"
proof (induction n arbitrary: rest rule: dec.induct)
  case (1 n)
  show ?case
  proof (cases "n < 10")
    case True
    then show ?thesis by (subst (1 2) dec.simps) (simp add: mult.commute)
  next
    case False
    then have "dec n = dec (n div 10) @ [char_of (48 + n mod 10)]" by (subst dec.simps) simp
    moreover have "10 * (n div 10) + n mod 10 = n" by simp
    ultimately show ?thesis using 1 [OF False, of "char_of (48 + n mod 10) # rest"] by (simp add: algebra_simps)
  qed
qed

lemma dec_digits: "list_all is_digit (dec n)"
proof (induction n rule: dec.induct)
  case (1 n)
  then show ?case by (subst dec.simps) simp
qed

lemma dec_length: "n < 10 ^ k \<Longrightarrow> 0 < k \<Longrightarrow> length (dec n) \<le> k"
proof (induction k arbitrary: n)
  case (Suc k)
  show ?case
  proof (cases "n < 10")
    case False
    then have "k \<noteq> 0" using Suc.prems by (cases k) auto
    moreover have "n div 10 < 10 ^ k" using Suc.prems by (simp add: less_mult_imp_div_less mult.commute)
    ultimately show ?thesis using Suc.IH [of "n div 10"] False by (subst dec.simps) simp
  qed (subst dec.simps, simp)
qed simp

lemma dec_cancel:
  assumes "dec m @ c # x = dec n @ c # y" "\<not> is_digit c"
  shows "m = n \<and> x = y"
proof -
  have *: "takeWhile is_digit (dec k @ c # z) = dec k" "dropWhile is_digit (dec k @ c # z) = c # z" for k z
    using dec_digits [of k] assms(2) by (simp_all add: list_all_iff takeWhile_append2 dropWhile_append2)
  have "dec m = dec n" using arg_cong [OF assms(1), of "takeWhile is_digit"] unfolding * .
  moreover have "x = y" using arg_cong [OF assms(1), of "dropWhile is_digit"] unfolding * by simp
  moreover have "digits_val 0 (dec m) = m" "digits_val 0 (dec n) = n"
    using digits_val_dec [of 0 m "[]"] digits_val_dec [of 0 n "[]"] by simp_all
  ultimately show ?thesis by metis
qed

text \<open>The text an address is printed as.\<close>

definition addr_text :: "sockaddr_in \<Rightarrow> string" where
  "addr_text sa =
     (let a = htonl (sin_addr sa) in
      dec (unat a div 2 ^ 24) @ ''.'' @ dec (unat a div 2 ^ 16 mod 256) @ ''.'' @ dec (unat a div 2 ^ 8 mod 256) @ ''.'' @
      dec (unat a mod 256) @ '':'' @ dec (unat (htons (sin_port sa))))"

lemma octet: "unat (drop_bit k (a :: 32 word) AND 0xFF) = unat a div 2 ^ k mod 256"
proof -
  have "unat (drop_bit k a AND 0xFF) = unat (take_bit 8 (drop_bit k a))"
    by (simp add: take_bit_eq_mask mask_eq_exp_minus_1)
  also have "\<dots> = take_bit 8 (drop_bit k (unat a))"
    by (rule bit_eqI) (auto simp: bit_simps intro: bit_imp_le_length)
  finally show ?thesis by (simp add: take_bit_eq_mod drop_bit_eq_div)
qed

lemma addr_text: "sa_to_str sa buf n = snprintf buf n (addr_text sa)"
proof -
  have "unat (htonl (sin_addr sa)) div 16777216 mod 256 = unat (htonl (sin_addr sa)) div 16777216"
    using unsigned_less [of "htonl (sin_addr sa)", where 'a = nat] by simp
  then show ?thesis using octet [of 0 "htonl (sin_addr sa)"] by (simp add: sa_to_str_def addr_text_def octet Let_def)
qed

lemma addr_text_length: "length (addr_text sa) \<le> 21"
proof -
  define a where "a = unat (htonl (sin_addr sa))"
  have "a div 2 ^ 24 < 256"
    using unsigned_less [of "htonl (sin_addr sa)", where 'a = nat] by (simp add: a_def)
  then have "length (dec (a div 2 ^ 24)) \<le> 3" by (intro dec_length) simp_all
  moreover have "length (dec (k mod 256)) \<le> 3" for k
    using mod_less_divisor [of 256 k] by (intro dec_length) simp_all
  moreover have "unat (htons (sin_port sa)) < 10 ^ 5"
    using unsigned_less [of "htons (sin_port sa)", where 'a = nat] by simp
  then have "length (dec (unat (htons (sin_port sa)))) \<le> 5" by (rule dec_length) simp
  ultimately have "length (dec (a div 2 ^ 24)) + length (dec (a div 2 ^ 16 mod 256)) + length (dec (a div 2 ^ 8 mod 256)) +
      length (dec (a mod 256)) + length (dec (unat (htons (sin_port sa)))) \<le> 3 + 3 + 3 + 3 + 5"
    by (intro add_le_mono)
  then show ?thesis unfolding addr_text_def Let_def a_def [symmetric] by simp
qed

lemma htons_involution: "htons (htons x) = x"
  by (rule bit_word_eqI) (auto simp: htons_def bit_simps)

text \<open>Byte \<open>k\<close> of the one is byte \<open>3 - k\<close> of the other.\<close>

lemma bit_htonl:
  "bit (htonl x) n \<longleftrightarrow> n < 32 \<and>
     (if n < 8 then bit x (n + 24) else if n < 16 then bit x (n + 8) else if n < 24 then bit x (n - 8) else bit x (n - 24))"
proof -
  have ff00: "(0xFF00 :: 32 word) = push_bit 8 (mask 8)" by (simp add: mask_eq_exp_minus_1 push_bit_eq_mult)
  have x: "bit x k \<Longrightarrow> k < 32" for k using bit_imp_le_length [of x k] by simp
  show ?thesis
    unfolding htonl_def ff00 bit_or_iff bit_and_iff bit_push_bit_iff bit_drop_bit_eq bit_mask_iff
    by (auto simp: add.commute dest: x)
qed

lemma htonl_involution: "htonl (htonl x) = x"
proof (rule bit_word_eqI)
  fix n assume "n < LENGTH(32)"
  then have "n < 32" by simp
  then consider "n < 8" | "8 \<le> n" "n < 16" | "16 \<le> n" "n < 24" | "24 \<le> n" "n < 32" by linarith
  then show "bit (htonl (htonl x)) n = bit x n"
    unfolding bit_htonl [of "htonl x"] unfolding bit_htonl [of x] by cases auto
qed

lemma bytes_of: "n = n mod 256 + 256 * (n div 2 ^ 8 mod 256) + 2 ^ 16 * (n div 2 ^ 16 mod 256) + 2 ^ 24 * (n div 2 ^ 24)" for n :: nat
proof -
  define x y z where "x = n div 256" and "y = x div 256" and "z = y div 256"
  define p q r where "p = n mod 256" and "q = x mod 256" and "r = y mod 256"
  have "n = p + 256 * x" "x = q + 256 * y" "y = r + 256 * z"
    by (simp_all add: x_def y_def z_def p_def q_def r_def)
  then have "n = p + 256 * q + 2 ^ 16 * r + 2 ^ 24 * z" by simp
  moreover have "n div 2 ^ 8 = x" "n div 2 ^ 16 = y" "n div 2 ^ 24 = z"
    by (simp_all add: x_def y_def z_def div_mult2_eq [symmetric])
  ultimately show ?thesis by (simp add: p_def q_def r_def)
qed

lemma addr_text_inject:
  assumes "addr_text sa = addr_text sa'"
  shows "sin_addr sa = sin_addr sa' \<and> sin_port sa = sin_port sa'"
proof -
  define a b where "a = unat (htonl (sin_addr sa))" and "b = unat (htonl (sin_addr sa'))"
  have sep: "\<not> is_digit CHR ''.''" "\<not> is_digit CHR '':''" by (simp_all add: is_digit_def)
  have *: "dec (a div 2 ^ 24) @ CHR ''.'' # dec (a div 2 ^ 16 mod 256) @ CHR ''.'' # dec (a div 2 ^ 8 mod 256) @ CHR ''.'' #
      dec (a mod 256) @ CHR '':'' # dec (unat (htons (sin_port sa))) =
    dec (b div 2 ^ 24) @ CHR ''.'' # dec (b div 2 ^ 16 mod 256) @ CHR ''.'' # dec (b div 2 ^ 8 mod 256) @ CHR ''.'' #
      dec (b mod 256) @ CHR '':'' # dec (unat (htons (sin_port sa')))"
    using assms by (simp add: addr_text_def Let_def a_def b_def)
  note 1 = dec_cancel [OF * sep(1)]
  note 2 = dec_cancel [OF 1 [THEN conjunct2] sep(1)]
  note 3 = dec_cancel [OF 2 [THEN conjunct2] sep(1)]
  note 4 = dec_cancel [OF 3 [THEN conjunct2] sep(2)]
  have "digits_val 0 (dec n) = n" for n using digits_val_dec [of 0 n "[]"] by simp
  with 4 have "htons (sin_port sa) = htons (sin_port sa')" by (metis unsigned_word_eqI)
  moreover have "a = b" using 1 2 3 4 bytes_of [of a] bytes_of [of b] by simp
  then have "htonl (sin_addr sa) = htonl (sin_addr sa')" by (simp add: a_def b_def unsigned_word_eqI)
  ultimately show ?thesis by (metis htons_involution htonl_involution)
qed

text \<open>
  C27. Printed addresses.  In a buffer of 22 bytes or more, as both programs have, the text of an
  address is complete and says which address and port it is; in a smaller one it is cut, and never
  longer than the buffer.
\<close>

theorem sa_to_str_faithful:
  assumes "0 < n"
  shows "length (sa_to_str sa buf n) < n \<and>
    (22 \<le> n \<longrightarrow> 22 \<le> m \<longrightarrow>
      (sa_to_str sa buf n = sa_to_str sa' buf' m \<longleftrightarrow> sin_addr sa = sin_addr sa' \<and> sin_port sa = sin_port sa'))"
proof -
  have "sa_to_str sa buf n = take (n - 1) (addr_text sa)" using assms by (simp add: addr_text snprintf_def)
  then have "length (sa_to_str sa buf n) < n" using assms by simp
  moreover have "sin_addr sa = sin_addr sa' \<and> sin_port sa = sin_port sa'"
    if "22 \<le> n" "22 \<le> m" "sa_to_str sa buf n = sa_to_str sa' buf' m"
  proof (rule addr_text_inject)
    show "addr_text sa = addr_text sa'"
      using that addr_text_length [of sa] addr_text_length [of sa'] by (simp add: addr_text snprintf_def)
  qed
  moreover have "sa_to_str sa buf n = sa_to_str sa' buf' m"
    if "22 \<le> n" "22 \<le> m" "sin_addr sa = sin_addr sa' \<and> sin_port sa = sin_port sa'"
  proof -
    have "addr_text sa = addr_text sa'" using that by (simp add: addr_text_def)
    then show ?thesis
      using that addr_text_length [of sa] addr_text_length [of sa'] by (simp add: addr_text snprintf_def)
  qed
  ultimately show ?thesis by blast
qed

theorem sa_to_str_faithful_witness:
  "sa_to_str \<lparr>sin_family = 2, sin_port = htons 22, sin_addr = 0x0100007F\<rparr> [] 128 \<noteq>
   sa_to_str \<lparr>sin_family = 2, sin_port = htons 23, sin_addr = 0x0100007F\<rparr> [] 128"
  using sa_to_str_faithful [of 128 "\<lparr>sin_family = 2, sin_port = htons 22, sin_addr = 0x0100007F\<rparr>" "[]" 128
    "\<lparr>sin_family = 2, sin_port = htons 23, sin_addr = 0x0100007F\<rparr>" "[]"]
  by (simp add: htons_def push_bit_eq_mult drop_bit_eq_div)

section \<open>The arguments of the proxy\<close>

lemma atoi_dec: "n < 2 ^ 31 \<Longrightarrow> atoi (dec n) = Ok (int n)"
proof -
  assume n: "n < 2 ^ 31"
  obtain c cs where c: "dec n = c # cs" by (cases "dec n") (use dec.simps [of n] in \<open>auto split: if_splits\<close>)
  then have "is_digit c" using dec_digits [of n] by simp
  then have "\<not> is_space c" "c \<noteq> CHR ''-''" "c \<noteq> CHR ''+''" by (auto simp: is_digit_def is_space_def)
  then show ?thesis using n digits_val_dec [of 0 n "[]"] c by (simp add: atoi_def Let_def)
qed

text \<open>The arguments come in pairs.\<close>

fun arg_pairs :: "'a list \<Rightarrow> ('a \<times> 'a) list" where
  "arg_pairs (x # y # args) = (x, y) # arg_pairs args"
| "arg_pairs args = []"

abbreviation is_mode :: "string \<times> string \<Rightarrow> bool" where "is_mode a \<equiv> fst a = ''-c'' \<or> fst a = ''-s''"

definition arg_port :: "string \<Rightarrow> 16 word" where
  "arg_port str = (case atoi str of Inr v \<Rightarrow> word_of_int v | Inl e \<Rightarrow> 0)"

definition last_or :: "'b \<Rightarrow> ('a \<Rightarrow> 'b) \<Rightarrow> 'a list \<Rightarrow> 'b" where
  "last_or d f xs = (if xs = [] then d else f (last xs))"

lemma last_or_simps [simp]: "last_or d f [] = d" "last_or d f (x # xs) = last_or (f x) f xs"
  by (simp_all add: last_or_def)



section \<open>The order of the calls\<close>

fun calls :: "trace_event list \<Rightarrow> syscall list" where
  "calls [] = []"
| "calls (Call c # log) = c # calls log"
| "calls (Print text # log) = calls log"

lemma calls_append [simp]: "calls (xs @ ys) = calls xs @ calls ys"
  by (induction xs rule: calls.induct) auto

lemma su_print_sel [simp]:
  "calls (su_log (su_print text s)) = calls (su_log s)" "su_errno (su_print text s) = su_errno s"
  by (simp_all add: su_print_def)

lemma fold_su_print [simp]: "calls (su_log (fold su_print texts s)) = calls (su_log s)"
  by (induction texts arbitrary: s) auto

text \<open>The state after a call, the answer to the last call, and a last call that failed.\<close>

definition after :: "os \<Rightarrow> syscall \<Rightarrow> startup \<Rightarrow> startup" where "after os c s = snd (call_ret os c s)"

definition answer :: "os \<Rightarrow> startup \<Rightarrow> int" where "answer os s = rp_ret (os (su_log s))"

definition failed :: "os \<Rightarrow> startup \<Rightarrow> bool" where
  "failed os s \<longleftrightarrow> answer os s < 0 \<and> (\<exists>log c. su_log s = log @ [Call c])"

lemma call_after: "call_ret os c s = (answer os (after os c s), after os c s)"
  by (simp add: after_def answer_def call_ret_def sys_call_def Let_def)

lemma call_addr_after: "\<exists>a. call_addr os c sa s = (answer os (after os c s), a, after os c s)"
  by (simp add: after_def answer_def call_ret_def call_addr_def sys_call_def Let_def)

lemma after_sel [simp]:
  "calls (su_log (after os c s)) = calls (su_log s) @ [c]"
  "failed os (after os c s) \<longleftrightarrow> answer os (after os c s) < 0"
  by (auto simp: after_def call_ret_def sys_call_def Let_def failed_def)

definition unblock_calls :: "int \<Rightarrow> int \<Rightarrow> syscall list" where
  "unblock_calls sk flags = Sys_fcntl_getfl sk # (if flags < 0 then [] else [Sys_fcntl_setfl sk (flags OR O_NONBLOCK)])"

definition serve_calls :: "16 word \<Rightarrow> int \<Rightarrow> int \<Rightarrow> int \<Rightarrow> syscall list" where
  "serve_calls port sk c2p flags =
     [Sys_socket AF_INET SOCK_STREAM 0, Sys_setsockopt sk SOL_SOCKET SO_REUSEADDR 1,
      Sys_bind sk (sockaddr_in_init\<lparr>sin_port := htons port\<rparr>) sa_size, Sys_listen sk 8, Sys_accept sk sa_size] @
     unblock_calls c2p flags"

definition dial_calls :: "int \<Rightarrow> int \<Rightarrow> sockaddr_in \<Rightarrow> syscall list" where
  "dial_calls p2s flags sa =
     Sys_socket AF_INET SOCK_STREAM 0 # unblock_calls p2s flags @ [Sys_connect p2s sa sa_size]"

lemma unblock_after:
  obtains r s' flags where "sk_unblock os sk s = (r, s')" "calls (su_log s') = calls (su_log s) @ unblock_calls sk flags"
    "r < 0 \<Longrightarrow> failed os s'" "0 \<le> r \<Longrightarrow> 0 \<le> flags"
  by (cases "answer os (after os (Sys_fcntl_getfl sk) s) < 0")
    (auto simp: sk_unblock_def call_after unblock_calls_def Let_def intro!: that)

text \<open>Which step of the start failed, counted from the first \<open>socket\<close>, when the last of the calls was refused.\<close>

definition failing_step :: "syscall list \<Rightarrow> int" where
  "failing_step cs =
     (case last cs of
        Sys_socket _ _ _ \<Rightarrow> if length cs = 1 then 0 else 3
      | Sys_setsockopt _ _ _ _ \<Rightarrow> 1 | Sys_bind _ _ _ \<Rightarrow> 1 | Sys_listen _ _ \<Rightarrow> 1
      | Sys_accept _ _ \<Rightarrow> 2
      | Sys_fcntl_getfl _ \<Rightarrow> 4 | Sys_fcntl_setfl _ _ \<Rightarrow> 4
      | Sys_connect _ _ _ \<Rightarrow> 5
      | _ \<Rightarrow> 6)"

text \<open>
  How a start may end, when the calls before it were \<open>cs0\<close>: after the first call of the list that
  is refused, with the code of that step, or after all of them with two sockets.
\<close>

definition startup_outcome ::
  "os \<Rightarrow> int \<Rightarrow> 16 word \<Rightarrow> 32 word \<Rightarrow> 16 word \<Rightarrow> syscall list \<Rightarrow> outcome \<Rightarrow> startup \<Rightarrow> bool" where
  "startup_outcome os e listen ip port cs0 out s \<longleftrightarrow>
     (\<exists>sk c2p flags p2s flags' sa.
        sin_addr sa = ip \<and> sin_port sa = htons port \<and>
        (case out of
           Exit_with code \<Rightarrow>
             (\<exists>cs. cs \<noteq> [] \<and> calls (su_log s) = cs0 @ cs \<and> failed os s \<and> code = e + failing_step cs \<and>
                prefix cs (serve_calls listen sk c2p flags @ dial_calls p2s flags' sa))
         | Connected c p \<Rightarrow>
             c = c2p \<and> p = p2s \<and> 0 \<le> sk \<and> 0 \<le> c2p \<and> 0 \<le> p2s \<and> 0 \<le> flags' \<and>
             calls (su_log s) = cs0 @ serve_calls listen sk c2p flags @ dial_calls p2s flags' sa \<and>
             (0 \<le> answer os s \<or> su_errno s \<in> {EINTR, EINPROGRESS})))"

lemma listen_after:
  obtains f s' k where "listen_fails os sk sa s = (f, s')" "0 < k" "k \<le> 3" "f \<Longrightarrow> failed os s'" "\<not> f \<Longrightarrow> k = 3"
    "calls (su_log s') = calls (su_log s) @ take k
       [Sys_setsockopt sk SOL_SOCKET SO_REUSEADDR 1, Sys_bind sk sa sa_size, Sys_listen sk 8]"
proof -
  let ?s1 = "after os (Sys_setsockopt sk SOL_SOCKET SO_REUSEADDR 1) s"
  let ?s2 = "after os (Sys_bind sk sa sa_size) ?s1"
  let ?s3 = "after os (Sys_listen sk 8) ?s2"
  note defs = listen_fails_def sk_setsockopt_def sk_bind_ip4_def sk_bind_def sk_listen_def call_after Let_def
  consider "answer os ?s1 < 0" | "0 \<le> answer os ?s1" "answer os ?s2 < 0" | "0 \<le> answer os ?s1" "0 \<le> answer os ?s2"
    by linarith
  then show thesis
  proof cases
    case 1 then show thesis by (intro that [of True ?s1 1]) (simp_all add: defs)
  next
    case 2 then show thesis by (intro that [of True ?s2 2]) (simp_all add: defs numeral_2_eq_2)
  next
    case 3 then show thesis by (intro that [of "answer os ?s3 < 0" ?s3 3]) (simp_all add: defs numeral_3_eq_3)
  qed
qed

lemma failing_step_simps [simp]:
  "failing_step [Sys_socket a b c] = 0" "failing_step (cs @ [Sys_accept sk n]) = 2"
  "cs \<noteq> [] \<Longrightarrow> failing_step (cs @ [Sys_socket a b c]) = 3" "failing_step (cs @ [Sys_connect sk sa n]) = 5"
  by (simp_all add: failing_step_def)

lemma serve_one_order:
  assumes "serve_one os e port banner s = (r, s')"
  obtains (refused) code cs sk c2p flags where "r = Inl code" "cs \<noteq> []" "calls (su_log s') = calls (su_log s) @ cs"
      "failed os s'" "code = e + failing_step cs" "prefix cs (serve_calls port sk c2p flags)"
  | (accepted) sk c2p flags sa where "r = Inr (c2p, sa)" "0 \<le> sk" "0 \<le> c2p"
      "calls (su_log s') = calls (su_log s) @ serve_calls port sk c2p flags"
proof -
  let ?s1 = "after os (Sys_socket AF_INET SOCK_STREAM 0) s"
  let ?sa = "sockaddr_in_init\<lparr>sin_port := htons port\<rparr>"
  define sk where "sk = answer os ?s1"
  let ?L = "[Sys_setsockopt sk SOL_SOCKET SO_REUSEADDR 1, Sys_bind sk ?sa sa_size, Sys_listen sk 8]"
  note socket = serve_one_def sk_create_def call_after sk_def [symmetric]
  have serve: "serve_calls port sk c2p flags = Sys_socket AF_INET SOCK_STREAM 0 # ?L @ Sys_accept sk sa_size # unblock_calls c2p flags" for c2p flags
    by (simp add: serve_calls_def)
  show thesis
  proof (cases "sk < 0")
    case True
    then have "r = Inl e" "s' = ?s1" using assms by (simp_all add: socket)
    then show thesis
      by (intro refused [of e "[Sys_socket AF_INET SOCK_STREAM 0]" sk 0 0])
        (use True in \<open>simp_all add: serve_calls_def sk_def\<close>)
  next
    case sk: False
    obtain f s2 k where l: "listen_fails os sk ?sa ?s1 = (f, s2)" "0 < k" "k \<le> 3" "f \<Longrightarrow> failed os s2" "\<not> f \<Longrightarrow> k = 3"
      "calls (su_log s2) = calls (su_log ?s1) @ take k ?L"
      by (rule listen_after) (rule that)
    show thesis
    proof (cases f)
      case True
      then have "r = Inl (e + 1)" "s' = s2" using assms sk l(1) by (simp_all add: socket)
      moreover have "k = 1 \<or> k = 2 \<or> k = 3" using l(2,3) by linarith
      then have "failing_step (Sys_socket AF_INET SOCK_STREAM 0 # take k ?L) = 1"
        "prefix (Sys_socket AF_INET SOCK_STREAM 0 # take k ?L) (serve_calls port sk 0 0)"
        by (auto simp: failing_step_def serve numeral_2_eq_2 numeral_3_eq_3)
      ultimately show thesis
        using l(4,6) True by (intro refused [of "e + 1" "Sys_socket AF_INET SOCK_STREAM 0 # take k ?L" sk 0 0]) simp_all
    next
      case False
      define s3 where "s3 = fold su_print (banner (sa_to_str ?sa [] 128)) s2"
      have s3: "calls (su_log s3) = calls (su_log s) @ Sys_socket AF_INET SOCK_STREAM 0 # ?L"
        using l(5,6) False by (simp add: s3_def)
      let ?s4 = "after os (Sys_accept sk sa_size) s3"
      define c2p where "c2p = answer os ?s4"
      obtain a where a: "call_addr os (Sys_accept sk sa_size) ?sa s3 = (c2p, a, ?s4)"
        using call_addr_after [of os "Sys_accept sk sa_size" ?sa s3] by (auto simp: c2p_def)
      note accept = socket l(1) s3_def [symmetric] sk_accept_ip4_def sk_accept_def a
      show thesis
      proof (cases "c2p < 0")
        case True
        then have "r = Inl (e + 2)" "s' = ?s4" using assms sk False by (simp_all add: accept)
        then show thesis
          by (intro refused [of "e + 2" "(Sys_socket AF_INET SOCK_STREAM 0 # ?L) @ [Sys_accept sk sa_size]" sk 0 0])
            (use True s3 in \<open>simp_all add: serve c2p_def failing_step_def\<close>)
      next
        case pos: False
        obtain x s5 flags where u: "sk_unblock os c2p (su_print ''accepted\<newline>'' ?s4) = (x, s5)"
          "calls (su_log s5) = calls (su_log (su_print ''accepted\<newline>'' ?s4)) @ unblock_calls c2p flags"
          by (rule unblock_after) (rule that)
        have "r = Inr (c2p, a)" "s' = s5" using assms sk False pos by (simp_all add: accept u(1))
        then show thesis
          by (intro accepted [of c2p a sk flags]) (use u(2) s3 sk pos in \<open>simp_all add: serve\<close>)
      qed
    qed
  qed
qed

lemma dial_out_order:
  assumes "dial_out os e c2p ip port sa s = (out, s')"
  obtains (refused) code cs p2s flags sa' where "out = Exit_with code" "cs \<noteq> []" "calls (su_log s') = calls (su_log s) @ cs"
      "failed os s'" "\<And>xs. xs \<noteq> [] \<Longrightarrow> code = e - 3 + failing_step (xs @ cs)" "prefix cs (dial_calls p2s flags sa')"
      "sin_addr sa' = ip" "sin_port sa' = htons port"
  | (connected) p2s flags sa' where "out = Connected c2p p2s" "0 \<le> p2s" "0 \<le> flags"
      "calls (su_log s') = calls (su_log s) @ dial_calls p2s flags sa'" "sin_addr sa' = ip" "sin_port sa' = htons port"
      "0 \<le> answer os s' \<or> su_errno s' \<in> {EINTR, EINPROGRESS}"
proof -
  let ?sa = "sa\<lparr>sin_addr := ip, sin_port := htons port\<rparr>"
  let ?s1 = "after os (Sys_socket AF_INET SOCK_STREAM 0) s"
  define p2s where "p2s = answer os ?s1"
  note socket = dial_out_def sk_create_def call_after p2s_def [symmetric]
  show thesis
  proof (cases "p2s < 0")
    case True
    then have "out = Exit_with e" "s' = ?s1" using assms by (simp_all add: socket)
    then show thesis
      by (intro refused [of e "[Sys_socket AF_INET SOCK_STREAM 0]" p2s 0 ?sa])
        (use True in \<open>simp_all add: dial_calls_def p2s_def\<close>)
  next
    case pos: False
    obtain r s2 flags where u: "sk_unblock os p2s ?s1 = (r, s2)" "calls (su_log s2) = calls (su_log ?s1) @ unblock_calls p2s flags"
      "r < 0 \<Longrightarrow> failed os s2" "0 \<le> r \<Longrightarrow> 0 \<le> flags"
      by (rule unblock_after) (rule that)
    show thesis
    proof (cases "r < 0")
      case True
      then have "out = Exit_with (e + 1)" "s' = s2" using assms pos u(1) by (simp_all add: socket)
      moreover have "failing_step (xs @ Sys_socket AF_INET SOCK_STREAM 0 # unblock_calls p2s flags) = 4" for xs
        by (simp add: failing_step_def unblock_calls_def)
      ultimately show thesis
        using True u(2,3)
        by (intro refused [of "e + 1" "Sys_socket AF_INET SOCK_STREAM 0 # unblock_calls p2s flags" p2s flags ?sa])
          (simp_all add: dial_calls_def)
    next
      case False
      define s3 where "s3 = su_print (dial_banner (sa_to_str ?sa [] 128)) s2"
      have s3: "calls (su_log s3) = calls (su_log s) @ Sys_socket AF_INET SOCK_STREAM 0 # unblock_calls p2s flags"
        using u(2) by (simp add: s3_def)
      let ?s4 = "after os (Sys_connect p2s ?sa sa_size) s3"
      have out: "out = (if answer os ?s4 < 0 \<and> sk_conn_fatal (su_errno ?s4) then Exit_with (e + 2) else Connected c2p p2s)" "s' = ?s4"
        using assms pos False u(1)
        by (auto simp: socket s3_def [symmetric] connect_fails_def sk_connect_ip4_def sk_connect_def Let_def split: if_splits)
      show thesis
      proof (cases "answer os ?s4 < 0 \<and> sk_conn_fatal (su_errno ?s4)")
        case True
        have "failing_step (xs @ dial_calls p2s flags ?sa) = 5" for xs by (simp add: failing_step_def dial_calls_def)
        with True out show thesis
          by (intro refused [of "e + 2" "dial_calls p2s flags ?sa" p2s flags ?sa]) (simp_all add: s3 dial_calls_def)
      next
        case ok: False
        with out have "out = Connected c2p p2s" "s' = ?s4" by simp_all
        then show thesis
          by (intro connected [of p2s flags ?sa])
            (use ok pos False u(4) s3 in \<open>auto simp: dial_calls_def sk_conn_fatal_def\<close>)
      qed
    qed
  qed
qed

text \<open>Both halves.\<close>

lemma startup_halves:
  assumes "serve_one os e listen banner s = (r, s1)"
  shows "case r of Inl code \<Rightarrow> startup_outcome os e listen ip port (calls (su_log s)) (Exit_with code) s1
    | Inr (c2p, sa) \<Rightarrow> \<forall>out s2. dial_out os (e + 3) c2p ip port sa s1 = (out, s2) \<longrightarrow>
        startup_outcome os e listen ip port (calls (su_log s)) out s2"
  using assms
proof (cases rule: serve_one_order)
  case (refused code cs sk c2p flags)
  let ?sa = "sockaddr_in_init\<lparr>sin_addr := ip, sin_port := htons port\<rparr>"
  have "prefix cs (serve_calls listen sk c2p flags @ dial_calls 0 0 ?sa)"
    using refused(6) by (auto simp: prefix_def)
  moreover have "sin_addr ?sa = ip" "sin_port ?sa = htons port" by simp_all
  ultimately have "startup_outcome os e listen ip port (calls (su_log s)) (Exit_with code) s1"
    unfolding startup_outcome_def outcome.case using refused(2-5) by blast
  then show ?thesis using refused(1) by simp
next
  case (accepted sk c2p flags sa)
  have "startup_outcome os e listen ip port (calls (su_log s)) out s2" if "dial_out os (e + 3) c2p ip port sa s1 = (out, s2)" for out s2
    using that
  proof (cases rule: dial_out_order)
    case (refused code cs p2s flags' sa')
    let ?cs = "serve_calls listen sk c2p flags @ cs"
    have "?cs \<noteq> []" "calls (su_log s2) = calls (su_log s) @ ?cs" "failed os s2" "code = e + failing_step ?cs"
      "prefix ?cs (serve_calls listen sk c2p flags @ dial_calls p2s flags' sa')"
      using refused(2-4,6) refused(5) [of "serve_calls listen sk c2p flags"] accepted(4) by (simp_all add: serve_calls_def)
    then show ?thesis unfolding startup_outcome_def refused(1) outcome.case using refused(7,8) by blast
  next
    case (connected p2s flags' sa')
    then show ?thesis
      using accepted(2-4) unfolding startup_outcome_def connected(1) outcome.case
      by (intro exI [of _ sk] exI [of _ c2p] exI [of _ flags] exI [of _ p2s] exI [of _ flags'] exI [of _ sa']) simp
  qed
  then show ?thesis using accepted(1) by simp
qed

definition relay_port :: "string list \<Rightarrow> 16 word" where
  "relay_port args = (if 1 < length args then arg_port (args ! 1) else 22)"

definition relay_ip :: "(string \<Rightarrow> 32 word) \<Rightarrow> string list \<Rightarrow> 32 word" where
  "relay_ip inet_addr args = inet_addr (if args \<noteq> [] then hd args else ''127.0.0.1'')"

lemma relay_startup_run:
  assumes "1 < length args \<Longrightarrow> \<exists>v. atoi (args ! 1) = Ok v"
  obtains out s' where "relay_startup inet_addr os args s = Ok (out, s')"
    "startup_outcome os 2 55555 (relay_ip inet_addr args) (relay_port args) (calls (su_log s)) out s'"
proof -
  obtain r s1 where serve: "serve_one os 2 55555 relay_banner s = (r, s1)" by fastforce
  obtain v where v: "(if 1 < length args then atoi (args ! 1) else Ok 22) = Ok v" using assms by (cases "1 < length args") auto
  then have port: "word_of_int v = relay_port args" by (auto simp: relay_port_def arg_port_def split: if_splits)
  note halves = startup_halves [OF serve, of "relay_ip inet_addr args" "relay_port args"]
  note start = relay_startup_def sk_init_def serve v port relay_ip_def [symmetric]
  show thesis
  proof (cases r)
    case (Inl code)
    with halves show thesis by (intro that) (simp_all add: start del: One_nat_def)
  next
    case (Inr x)
    obtain c2p sa where x: "x = (c2p, sa)" by (cases x)
    obtain out s2 where "dial_out os 5 c2p (relay_ip inet_addr args) (relay_port args) sa s1 = (out, s2)" by fastforce
    with halves Inr x show thesis by (intro that) (simp_all add: start del: One_nat_def)
  qed
qed

lemma proxy_startup_run:
  assumes "proxy_args args proxy_defaults = Ok (Some conf)"
  obtains out s' where "proxy_startup inet_addr os prog args s = Ok (pc_client conf, out, s')"
    "startup_outcome os 1 (pxy_port conf) (inet_addr (srv_addr conf)) (srv_port conf)
       (calls (su_log s) @ [Sys_signal_ignore SIGPIPE]) out s'"
proof -
  let ?s0 = "after os (Sys_signal_ignore SIGPIPE) s"
  obtain r s1 where serve: "serve_one os 1 (pxy_port conf) (proxy_banner conf) ?s0 = (r, s1)" by fastforce
  note halves = startup_halves [OF serve, of "inet_addr (srv_addr conf)" "srv_port conf"]
  note start = proxy_startup_def assms call_after serve
  show thesis
  proof (cases r)
    case (Inl code)
    with halves show thesis by (intro that) (simp_all add: start)
  next
    case (Inr x)
    obtain c2p sa where x: "x = (c2p, sa)" by (cases x)
    obtain out s2 where "dial_out os 4 c2p (inet_addr (srv_addr conf)) (srv_port conf) sa s1 = (out, s2)" by fastforce
    with halves Inr x show thesis by (intro that) (simp_all add: start)
  qed
qed


text \<open>An operating system that gives three descriptors and a connection in progress.\<close>

definition example_os :: os where
  "example_os log =
     \<lparr>rp_ret = (case last log of
          Call (Sys_socket _ _ _) \<Rightarrow> if length (calls log) \<le> 2 then 5 else 4
        | Call (Sys_accept _ _) \<Rightarrow> 3
        | Call (Sys_connect _ _ _) \<Rightarrow> -1
        | _ \<Rightarrow> 0),
      rp_errno = EINPROGRESS, rp_addr = sockaddr_in_init\<rparr>"

lemma example_os_answers:
  "answer example_os (after os (Sys_socket f t p) s) = (if length (calls (su_log s)) \<le> 1 then 5 else 4)"
  "answer example_os (after os (Sys_accept sk n) s) = 3"
  "answer example_os (after os (Sys_connect sk sa n) s) = -1"
  "answer example_os (after os (Sys_setsockopt sk l t v) s) = 0" "answer example_os (after os (Sys_bind sk sa n) s) = 0"
  "answer example_os (after os (Sys_listen sk k) s) = 0" "answer example_os (after os (Sys_fcntl_getfl sk) s) = 0"
  "answer example_os (after os (Sys_fcntl_setfl sk v) s) = 0"
  "su_errno (after example_os (Sys_connect sk sa n) s) = EINPROGRESS"
  by (simp_all add: answer_def after_def call_ret_def sys_call_def Let_def example_os_def)

lemma call_addr_example: "call_addr example_os (Sys_accept sk n) sa s =
    (3, sockaddr_in_init, after example_os (Sys_accept sk n) s)"
  by (simp add: after_def call_ret_def call_addr_def sys_call_def Let_def example_os_def)

lemma example_serve:
  assumes "length (calls (su_log s)) \<le> 1"
  obtains s' where "serve_one example_os e port banner s = (Inr (3, sockaddr_in_init), s')" "4 \<le> length (calls (su_log s'))"
proof -
  let ?sa = "sockaddr_in_init\<lparr>sin_port := htons port\<rparr>"
  define s1 where "s1 = after example_os (Sys_listen 5 8) (after example_os (Sys_bind 5 ?sa sa_size)
    (after example_os (Sys_setsockopt 5 SOL_SOCKET SO_REUSEADDR 1) (after example_os (Sys_socket AF_INET SOCK_STREAM 0) s)))"
  define s2 where "s2 = after example_os (Sys_accept 5 sa_size) (fold su_print (banner (sa_to_str ?sa [] 128)) s1)"
  define s3 where "s3 = after example_os (Sys_fcntl_setfl 3 O_NONBLOCK) (after example_os (Sys_fcntl_getfl 3) (su_print ''accepted\<newline>'' s2))"
  have "serve_one example_os e port banner s = (Inr (3, sockaddr_in_init), s3)"
    using assms by (simp add: serve_one_def sk_create_def listen_fails_def sk_setsockopt_def sk_bind_ip4_def sk_bind_def
      sk_listen_def sk_accept_ip4_def sk_accept_def sk_unblock_def call_after call_addr_example example_os_answers Let_def
      s1_def s2_def s3_def)
  moreover have "4 \<le> length (calls (su_log s3))" by (simp add: s1_def s2_def s3_def)
  ultimately show thesis by (rule that)
qed

lemma example_dial:
  assumes "2 \<le> length (calls (su_log s))"
  obtains s' where "dial_out example_os e c2p ip port sa s = (Connected c2p 4, s')"
  using assms
  by (intro that) (simp_all add: dial_out_def sk_create_def sk_unblock_def connect_fails_def sk_connect_ip4_def sk_connect_def
    call_after example_os_answers Let_def sk_conn_fatal_def)

lemma example_relay_connected:
  "\<exists>s. relay_startup inet_addr example_os [] \<lparr>su_log = [], su_errno = e\<rparr> = Ok (Connected 3 4, s)"
proof -
  obtain s1 where s1: "serve_one example_os 2 55555 relay_banner \<lparr>su_log = [], su_errno = e\<rparr> = (Inr (3, sockaddr_in_init), s1)"
    "4 \<le> length (calls (su_log s1))"
    by (rule example_serve [of "\<lparr>su_log = [], su_errno = e\<rparr>"]) simp_all
  obtain s2 where "dial_out example_os 5 3 (inet_addr ''127.0.0.1'') 22 sockaddr_in_init s1 = (Connected 3 4, s2)"
    by (rule example_dial [of s1]) (use s1(2) in simp_all)
  with s1(1) show ?thesis by (simp add: relay_startup_def sk_init_def)
qed

lemma example_proxy_connected:
  assumes "proxy_args args proxy_defaults = Ok (Some conf)"
  shows "\<exists>s. proxy_startup inet_addr example_os prog args \<lparr>su_log = [], su_errno = e\<rparr> = Ok (pc_client conf, Connected 3 4, s)"
proof -
  let ?s0 = "after example_os (Sys_signal_ignore SIGPIPE) \<lparr>su_log = [], su_errno = e\<rparr>"
  obtain s1 where s1: "serve_one example_os 1 (pxy_port conf) (proxy_banner conf) ?s0 = (Inr (3, sockaddr_in_init), s1)"
    "4 \<le> length (calls (su_log s1))"
    by (rule example_serve [of ?s0]) simp_all
  obtain s2 where "dial_out example_os 4 3 (inet_addr (srv_addr conf)) (srv_port conf) sockaddr_in_init s1 = (Connected 3 4, s2)"
    by (rule example_dial [of s1]) (use s1(2) in simp_all)
  with s1(1) assms show ?thesis by (simp add: proxy_startup_def call_after)
qed


end
