(* ===== verification/Serialize.thy ===== *)
theory Serialize
  imports Prelude
begin

unbundle bit_operations_syntax

text \<open>
  The variable-length size header of \<open>io/src/io_serialize.c\<close>: seven bits per byte, least
  significant group first, the top bit of a byte set when another byte follows.

  The definitions follow the C code.  \<open>io_store_size_unrolled\<close> gives the return code
  and the bytes it stores at the front of the buffer, \<open>io_store_size\<close> the API entry with its
  branch for a NULL buffer, \<open>io_parse_size\<close> the parser with its loop
  \<open>io_parse_loop\<close>; shifting by the width of \<open>size_t\<close> or more is undefined in C and is
  \<open>Stop Undefined_behaviour\<close> here.  \<open>io_store_size_generic\<close> is the version the source
  keeps in a comment as the reference for the unrolled one.

  The specification is \<open>varint\<close>, the encoding as a function on natural numbers.  The
  lemmas show that the stored bytes are \<open>varint\<close> of the value reduced to 32 bits, that the
  parser inverts it whatever follows, that it asks for more data on every proper prefix, when
  exactly it hits the undefined shift, and where the NULL branch is wrong.
\<close>

section \<open>The code\<close>

text \<open>\<open>io_store_size_unrolled(buf, len, val)\<close>: the return code, and the bytes stored at \<open>buf\<close>.\<close>

definition io_store_size_unrolled :: "nat \<Rightarrow> u64 \<Rightarrow> int \<times> byte list" where
  "io_store_size_unrolled len val =
     (if val AND 0xF0000000 \<noteq> 0 then (-1, [])
      else if val AND 0x0FE00000 \<noteq> 0 then
        (if len < 4 then (-1, [])
         else let b0 = ucast (val OR 0x80);
                  val = drop_bit 7 val; b1 = ucast (val OR 0x80);
                  val = drop_bit 7 val; b2 = ucast (val OR 0x80);
                  val = drop_bit 7 val
              in (4, [b0, b1, b2, ucast val]))
      else if val AND 0x001FC000 \<noteq> 0 then
        (if len < 3 then (-1, [])
         else let b0 = ucast (val OR 0x80);
                  val = drop_bit 7 val; b1 = ucast (val OR 0x80);
                  val = drop_bit 7 val
              in (3, [b0, b1, ucast val]))
      else if val AND 0x00003F80 \<noteq> 0 then
        (if len < 2 then (-1, [])
         else let b0 = ucast (val OR 0x80);
                  val = drop_bit 7 val
              in (2, [b0, ucast val]))
      else if len < 1 then (-1, [])
      else (1, [ucast val]))"

text \<open>
  \<open>io_store_size_generic\<close>, from the comment above \<open>io_store_size\<close>; \<open>n\<close> is the space
  left, \<open>len - r\<close>.
\<close>

fun io_store_loop :: "nat \<Rightarrow> nat \<Rightarrow> u64 \<Rightarrow> int \<times> byte list" where
  "io_store_loop 0 r val = (-1, [])"
| "io_store_loop (Suc n) r val =
     (if val AND NOT 0x7F \<noteq> 0
      then let (k, bs) = io_store_loop n (r + 1) (drop_bit 7 val) in (k, ucast (val OR 0x80) # bs)
      else (int r + 1, [ucast val]))"

definition io_store_size_generic :: "nat \<Rightarrow> u64 \<Rightarrow> int \<times> byte list" where
  "io_store_size_generic len val = io_store_loop len 0 val"

text \<open>\<open>io_store_size\<close>: \<open>None\<close> is the NULL buffer, \<open>Some bs\<close> the buffer's contents.\<close>

definition io_store_size :: "byte list option \<Rightarrow> nat \<Rightarrow> u64 \<Rightarrow> int \<times> byte list option" where
  "io_store_size buf len val =
     (case buf of
        None \<Rightarrow>
          (if val AND 0xF0000000 \<noteq> 0 then -1
           else if val AND 0x0FE00000 \<noteq> 0 then 4
           else if val AND 0x001FC000 \<noteq> 0 then 3
           else if val AND 0x00003F10 \<noteq> 0 then 2 else 1, None)
      | Some b \<Rightarrow>
          (let (r, bs) = io_store_size_unrolled len val in (r, Some (bs @ drop (length bs) b))))"

text \<open>
  \<open>io_parse_size\<close>: the return code and, on success, the value stored through \<open>ret\<close>.
  The loop carries \<open>r\<close>, \<open>val\<close> and \<open>off\<close>; reading past the end of the buffer is
  undefined, as is a shift by 64 or more.
\<close>

fun io_parse_loop :: "byte list \<Rightarrow> nat \<Rightarrow> nat \<Rightarrow> u64 \<Rightarrow> nat \<Rightarrow> (int \<times> u64 option) res" where
  "io_parse_loop buf len r val off =
     (if r < len then
        (case buf of
           [] \<Rightarrow> Stop Undefined_behaviour
         | b # buf' \<Rightarrow>
             (let oct = ucast b :: u64 in
              if oct AND 0x80 \<noteq> 0 then
                (if off < 64
                 then io_parse_loop buf' len (r + 1) (val OR push_bit off (oct AND 0x7F)) (off + 7)
                 else Stop Undefined_behaviour)
              else if off < 28 \<or> (off = 28 \<and> oct < 0x10)
              then Ok (c_int (r + 1), Some (val OR push_bit off oct))
              else Ok (-1, None)))
      else Ok (if off < 28 then 0 else -1, None))"

declare io_parse_loop.simps [simp del]

definition io_parse_size :: "byte list \<Rightarrow> nat \<Rightarrow> (int \<times> u64 option) res" where
  "io_parse_size buf len = io_parse_loop buf len 0 0 0"

section \<open>The specification\<close>

fun varint :: "nat \<Rightarrow> byte list" where
  "varint n = (if n < 128 then [of_nat n] else of_nat (n mod 128 + 128) # varint (n div 128))"

declare varint.simps [simp del]

section \<open>Lemmas on the encoding\<close>

lemma varint_small: "n < 128 \<Longrightarrow> varint n = [of_nat n]"
  by (subst varint.simps) simp

lemma varint_large: "128 \<le> n \<Longrightarrow> varint n = of_nat (n mod 128 + 128) # varint (n div 128)"
  by (subst varint.simps) simp

lemma varint_not_Nil [simp]: "varint n \<noteq> []"
  by (subst varint.simps) simp

lemma varint_unfold:
  "n < 2 ^ 7 \<Longrightarrow> varint n = [of_nat n]"
  "2 ^ 7 \<le> n \<Longrightarrow> n < 2 ^ 14 \<Longrightarrow>
     varint n = [of_nat (n mod 128 + 128), of_nat (n div 2 ^ 7)]"
  "2 ^ 14 \<le> n \<Longrightarrow> n < 2 ^ 21 \<Longrightarrow>
     varint n = [of_nat (n mod 128 + 128), of_nat (n div 2 ^ 7 mod 128 + 128), of_nat (n div 2 ^ 14)]"
  "2 ^ 21 \<le> n \<Longrightarrow> n < 2 ^ 28 \<Longrightarrow>
     varint n = [of_nat (n mod 128 + 128), of_nat (n div 2 ^ 7 mod 128 + 128),
                 of_nat (n div 2 ^ 14 mod 128 + 128), of_nat (n div 2 ^ 21)]"
  by (simp_all add: varint_small varint_large div_mult2_eq [symmetric])

lemma length_varint:
  assumes "n < 2 ^ 28"
  shows "length (varint n) =
    (if n < 2 ^ 7 then 1 else if n < 2 ^ 14 then 2 else if n < 2 ^ 21 then 3 else 4)"
proof -
  consider "n < 2 ^ 7" | "2 ^ 7 \<le> n" "n < 2 ^ 14" | "2 ^ 14 \<le> n" "n < 2 ^ 21"
    | "2 ^ 21 \<le> n" "n < 2 ^ 28"
    using assms by linarith
  then show ?thesis
    by cases (simp_all add: varint_unfold)
qed

lemma length_varint_le: "n < 2 ^ 28 \<Longrightarrow> length (varint n) \<le> 4"
  by (simp add: length_varint)

section \<open>Lemmas on the stored bytes\<close>

lemma ucast_or_128: "(ucast (w OR 0x80 :: u64) :: byte) = of_nat (unat w mod 128 + 128)"
proof -
  have "(ucast (w OR 0x80) :: byte) = take_bit 7 (ucast w) OR 0x80"
    by (rule bit_word_eqI) (auto simp: bit_simps less_Suc_eq numeral_eq_Suc)
  also have "\<dots> = take_bit 7 (ucast w) + 0x80"
    by (rule disjunctive_add [symmetric]) (auto simp: bit_simps less_Suc_eq numeral_eq_Suc)
  also have "take_bit 7 (ucast w :: byte) = of_nat (unat w mod 128)"
    by (rule bit_word_eqI) (auto simp: bit_simps simp flip: take_bit_eq_mod [where n = 7, simplified])
  finally show ?thesis by simp
qed

lemma unat_drop_bit_div: "unat (drop_bit k (w :: u64)) = unat w div 2 ^ k"
  unfolding unat_drop_bit_eq by (rule drop_bit_eq_div)

lemma ucast_of_nat_unat: "(ucast (w :: u64) :: byte) = of_nat (unat w)"
  by simp

lemma of_nat_byte_cong: "m mod 256 = n mod 256 \<Longrightarrow> (of_nat m :: byte) = of_nat n"
  by (simp add: word_of_nat_eq_iff take_bit_eq_mod)

text \<open>The bytes of the unrolled branches, in terms of the value's low 32 bits.\<close>

lemma store_masks:
  "val AND 0xF0000000 = 0 \<longleftrightarrow> unat (val :: u64) div 2 ^ 28 mod 2 ^ 4 = 0"
  "val AND 0x0FE00000 = 0 \<longleftrightarrow> unat val div 2 ^ 21 mod 2 ^ 7 = 0"
  "val AND 0x001FC000 = 0 \<longleftrightarrow> unat val div 2 ^ 14 mod 2 ^ 7 = 0"
  "val AND 0x00003F80 = 0 \<longleftrightarrow> unat val div 2 ^ 7 mod 2 ^ 7 = 0"
  using and_push_mask_eq_0_iff [where w = val and j = 28 and k = 4]
    and_push_mask_eq_0_iff [where w = val and j = 21 and k = 7]
    and_push_mask_eq_0_iff [where w = val and j = 14 and k = 7]
    and_push_mask_eq_0_iff [where w = val and j = 7 and k = 7]
  by (simp_all add: mask_eq_exp_minus_1)


lemma mod_div_mod_pow:
  "k + m \<le> n \<Longrightarrow> (u mod 2 ^ n) div 2 ^ k mod 2 ^ m = u div 2 ^ k mod 2 ^ m" for u :: nat
  by (auto simp: drop_bit_take_bit min_def simp flip: take_bit_eq_mod drop_bit_eq_div)

lemma of_nat_byte_mod_div:
  "k \<le> 24 \<Longrightarrow> (of_nat ((u mod 2 ^ 32) div 2 ^ k) :: byte) = of_nat (u div 2 ^ k)"
  by (rule of_nat_byte_cong) (use mod_div_mod_pow [of k 8 32 u] in simp)

text \<open>What the unrolled code does for every 64-bit value: it looks at the low 32 bits only.\<close>

lemma io_store_size_unrolled_low_bits:
  assumes x: "x = unat val mod 2 ^ 32"
  shows "io_store_size_unrolled len val =
    (if x div 2 ^ 28 mod 2 ^ 4 \<noteq> 0 then (-1, [])
     else if x div 2 ^ 21 mod 2 ^ 7 \<noteq> 0 then
       (if len < 4 then (-1, [])
        else (4, [of_nat (x mod 128 + 128), of_nat (x div 2 ^ 7 mod 128 + 128),
                  of_nat (x div 2 ^ 14 mod 128 + 128), of_nat (x div 2 ^ 21)]))
     else if x div 2 ^ 14 mod 2 ^ 7 \<noteq> 0 then
       (if len < 3 then (-1, [])
        else (3, [of_nat (x mod 128 + 128), of_nat (x div 2 ^ 7 mod 128 + 128),
                  of_nat (x div 2 ^ 14)]))
     else if x div 2 ^ 7 mod 2 ^ 7 \<noteq> 0 then
       (if len < 2 then (-1, []) else (2, [of_nat (x mod 128 + 128), of_nat (x div 2 ^ 7)]))
     else if len < 1 then (-1, []) else (1, [of_nat x]))"
proof -
  define u where "u = unat val"
  have digits: "x div 2 ^ k mod 2 ^ m = u div 2 ^ k mod 2 ^ m" if "k + m \<le> 32" for k m
    unfolding x u_def by (rule mod_div_mod_pow [OF that])
  have septets: "x div 2 ^ k mod 128 = u div 2 ^ k mod 128" if "k \<le> 25" for k
    using digits [of k 7] that by simp
  have first: "x mod 128 = u mod 128"
    using septets [of 0] by simp
  have bytes: "(of_nat (x div 2 ^ k) :: byte) = of_nat (u div 2 ^ k)" if "k \<le> 24" for k
    using of_nat_byte_mod_div [OF that] by (simp only: x u_def)
  have byte: "(of_nat x :: byte) = of_nat u"
    using bytes [of 0] by simp
  have shifts: "unat (drop_bit 7 val) = u div 2 ^ 7"
    "unat (drop_bit 7 (drop_bit 7 val)) = u div 2 ^ 14"
    "unat (drop_bit 7 (drop_bit 7 (drop_bit 7 val))) = u div 2 ^ 21"
    unfolding unat_drop_bit_div u_def div_mult2_eq [symmetric] power_add [symmetric] by simp_all
  show ?thesis
    unfolding io_store_size_unrolled_def Let_def store_masks ucast_or_128
    unfolding ucast_of_nat_unat shifts u_def [symmetric]
    by (simp add: digits septets first bytes byte del: power_numeral)
qed

lemma io_store_size_unrolled_eq:
  assumes x: "x = unat val mod 2 ^ 32"
  shows "io_store_size_unrolled len val =
    (if 2 ^ 28 \<le> x \<or> len < length (varint x) then (-1, [])
     else (int (length (varint x)), varint x))"
proof -
  have "x < 2 ^ 32" using x by simp
  then consider "2 ^ 28 \<le> x" "x div 2 ^ 28 mod 2 ^ 4 \<noteq> 0"
    | "2 ^ 21 \<le> x" "x < 2 ^ 28" "x div 2 ^ 28 = 0" "x div 2 ^ 21 mod 2 ^ 7 \<noteq> 0"
    | "2 ^ 14 \<le> x" "x < 2 ^ 21" "x div 2 ^ 28 = 0" "x div 2 ^ 21 = 0" "x div 2 ^ 14 mod 2 ^ 7 \<noteq> 0"
    | "2 ^ 7 \<le> x" "x < 2 ^ 14" "x div 2 ^ 28 = 0" "x div 2 ^ 21 = 0" "x div 2 ^ 14 = 0"
      "x div 2 ^ 7 mod 2 ^ 7 \<noteq> 0"
    | "x < 2 ^ 7"
    by (cases "2 ^ 28 \<le> x"; cases "2 ^ 21 \<le> x"; cases "2 ^ 14 \<le> x"; cases "2 ^ 7 \<le> x")
       (auto simp: div_eq_0_iff less_eq_div_iff_mult_less_eq)
  then show ?thesis
    unfolding io_store_size_unrolled_low_bits [OF x]
    by cases (simp_all add: varint_unfold)
qed

section \<open>The unrolled routine and the generic one\<close>

text \<open>The simplifier writes the mask \<open>NOT 0x7F\<close> as \<open>- 128\<close>.\<close>

lemma and_not_127_eq_0_iff: "(val :: u64) AND - 128 = 0 \<longleftrightarrow> unat val < 128"
proof -
  have "(- 128 :: u64) = NOT (mask 7)"
    by (simp add: mask_eq_exp_minus_1)
  then have "val AND - 128 = 0 \<longleftrightarrow> take_bit 7 val = val"
    unfolding take_bit_eq_mask by (auto simp: bit_eq_iff bit_simps)
  also have "\<dots> \<longleftrightarrow> unat (take_bit 7 val) = unat val"
    by (simp add: word_unat_eq_iff)
  also have "unat (take_bit 7 val) = unat val mod 128"
    using take_bit_eq_mod [of 7 "unat val"] by (simp add: unsigned_take_bit_eq)
  finally show ?thesis by (auto simp: mod_eq_self_iff_div_eq_0 div_eq_0_iff)
qed

lemma io_store_loop_fits:
  "length (varint (unat val)) \<le> n \<Longrightarrow>
   io_store_loop n r val = (int r + int (length (varint (unat val))), varint (unat val))"
proof (induction n r val rule: io_store_loop.induct)
  case (2 n r val)
  show ?case
  proof (cases "unat val < 128")
    case True
    then show ?thesis
      by (simp add: and_not_127_eq_0_iff varint_small)
  next
    case False
    then have v: "varint (unat val) = of_nat (unat val mod 128 + 128) # varint (unat (drop_bit 7 val))"
      by (simp add: varint_large unat_drop_bit_div)
    then have "length (varint (unat (drop_bit 7 val))) \<le> n"
      using "2.prems" by simp
    with "2.IH" False have "io_store_loop n (r + 1) (drop_bit 7 val) =
        (int (r + 1) + int (length (varint (unat (drop_bit 7 val)))), varint (unat (drop_bit 7 val)))"
      by (simp add: and_not_127_eq_0_iff)
    with False show ?thesis
      by (simp add: and_not_127_eq_0_iff v ucast_or_128 del: of_nat_add)
  qed
qed simp

lemma io_store_loop_no_space:
  "n < length (varint (unat val)) \<Longrightarrow> fst (io_store_loop n r val) = -1"
proof (induction n r val rule: io_store_loop.induct)
  case (2 n r val)
  show ?case
  proof (cases "unat val < 128")
    case True
    with "2.prems" show ?thesis by (simp add: varint_small)
  next
    case False
    then have "varint (unat val) = of_nat (unat val mod 128 + 128) # varint (unat (drop_bit 7 val))"
      by (simp add: varint_large unat_drop_bit_div)
    with "2.prems" "2.IH" False show ?thesis
      by (auto simp: and_not_127_eq_0_iff split: prod.split)
  qed
qed simp

section \<open>Lemmas on the parser\<close>

lemma unat_or_push_bit:
  fixes val y :: u64
  assumes "unat val < 2 ^ off" and "unat y * 2 ^ off < 2 ^ 64"
  shows "unat (val OR push_bit off y) = unat val + unat y * 2 ^ off"
proof -
  have "unat (push_bit off y) = unat y * 2 ^ off"
    using assms(2) push_bit_eq_mult [of off "unat y"]
    by (simp add: unsigned_push_bit_eq take_bit_nat_eq_self)
  moreover have "unat val OR push_bit off (unat y) = unat val + push_bit off (unat y)"
  proof (rule disjunctive_add [symmetric])
    fix n
    have "unat val = take_bit off (unat val)"
      using assms(1) by (simp add: take_bit_eq_mod)
    then show "\<not> bit (unat val) n \<or> \<not> bit (push_bit off (unat y)) n"
      by (metis bit_push_bit_iff bit_take_bit_iff not_le)
  qed
  ultimately show ?thesis
    using push_bit_eq_mult [of off "unat y"] by (simp add: unsigned_or_eq)
qed


lemma unat_byte_less [simp]: "unat (b :: byte) < 256"
  using unsigned_less [of b] by simp

lemma oct_and_0x80: "(ucast (b :: byte) :: u64) AND 0x80 = 0 \<longleftrightarrow> unat b < 128"
  using and_push_mask_eq_0_iff [where w = "ucast b :: u64" and j = 7 and k = 1] unat_byte_less [of b]
  by (auto simp: mask_eq_exp_minus_1 unsigned_ucast_eq take_bit_nat_eq_self div_eq_0_iff
      less_mult_imp_div_less elim!: oddE)

lemma unat_oct: "unat (ucast (b :: byte) :: u64) = unat b"
  by (simp add: unsigned_ucast_eq take_bit_nat_eq_self order_less_trans [OF unat_byte_less])

lemma unat_oct_and_0x7F: "unat ((ucast (b :: byte) :: u64) AND 0x7F) = unat b mod 128"
proof -
  have "(ucast b :: u64) AND 0x7F = take_bit 7 (ucast b)"
    by (simp add: take_bit_eq_mask mask_eq_exp_minus_1)
  then show ?thesis
    using take_bit_eq_mod [of 7 "unat b"] by (simp add: unsigned_take_bit_eq unat_oct)
qed

lemma oct_less_16: "(ucast (b :: byte) :: u64) < 0x10 \<longleftrightarrow> unat b < 16"
  by (simp add: word_less_nat_alt unat_oct)

text \<open>One round of the loop, on numbers.\<close>

lemma parse_more:
  "r < len \<Longrightarrow> 128 \<le> unat b \<Longrightarrow> off < 64 \<Longrightarrow>
   io_parse_loop (b # buf) len r val off =
   io_parse_loop buf len (r + 1) (val OR push_bit off (ucast b AND 0x7F)) (off + 7)"
  by (subst io_parse_loop.simps) (simp add: oct_and_0x80 Let_def)

lemma parse_undefined:
  "r < len \<Longrightarrow> 128 \<le> unat b \<Longrightarrow> 64 \<le> off \<Longrightarrow>
   io_parse_loop (b # buf) len r val off = Stop Undefined_behaviour"
  by (subst io_parse_loop.simps) (simp add: oct_and_0x80 Let_def)

lemma parse_last:
  "r < len \<Longrightarrow> unat b < 128 \<Longrightarrow>
   io_parse_loop (b # buf) len r val off =
   (if off < 28 \<or> off = 28 \<and> unat b < 16
    then Ok (c_int (r + 1), Some (val OR push_bit off (ucast b))) else Ok (-1, None))"
  by (subst io_parse_loop.simps) (auto simp: oct_and_0x80 oct_less_16 Let_def)

lemma parse_out_of_data:
  "len \<le> r \<Longrightarrow> io_parse_loop buf len r val off = Ok (if off < 28 then 0 else -1, None)"
  by (subst io_parse_loop.simps) simp

lemma parse_over_read:
  "r < len \<Longrightarrow> io_parse_loop [] len r val off = Stop Undefined_behaviour"
  by (subst io_parse_loop.simps) simp

lemma unat_continued:
  assumes "unat (val :: u64) < 2 ^ off" and "off \<le> 21"
  shows "unat (val OR push_bit off (ucast (b :: byte) AND 0x7F)) = unat val + unat b mod 128 * 2 ^ off"
    and "unat (val OR push_bit off (ucast b AND 0x7F)) < 2 ^ (off + 7)"
proof -
  have "unat b mod 128 * 2 ^ off < 2 ^ 64"
  proof -
    have "unat b mod 128 * 2 ^ off \<le> 128 * 2 ^ 21"
      using assms(2) by (intro mult_le_mono power_increasing) auto
    then show ?thesis by simp
  qed
  then show sum: "unat (val OR push_bit off (ucast b AND 0x7F)) = unat val + unat b mod 128 * 2 ^ off"
    using unat_or_push_bit [OF assms(1), of "ucast b AND 0x7F"] by (simp add: unat_oct_and_0x7F)
  have "Suc (unat b mod 128) * 2 ^ off \<le> 128 * 2 ^ off"
    by (intro mult_le_mono1) (simp add: Suc_leI)
  then have "unat b mod 128 * 2 ^ off + 2 ^ off \<le> 128 * 2 ^ off"
    by (simp only: mult_Suc add.commute)
  with assms(1) have "unat val + unat b mod 128 * 2 ^ off < 128 * 2 ^ off"
    by linarith
  then show "unat (val OR push_bit off (ucast b AND 0x7F)) < 2 ^ (off + 7)"
    unfolding sum by (simp add: power_add mult.commute)
qed


lemma varint_head:
  assumes "128 \<le> n"
  shows "varint n = of_nat (n mod 128 + 128) # varint (n div 128)"
    and "unat (of_nat (n mod 128 + 128) :: byte) = n mod 128 + 128"
proof -
  show "varint n = of_nat (n mod 128 + 128) # varint (n div 128)"
    using assms by (rule varint_large)
  have "n mod 128 + 128 < 2 ^ LENGTH(8)" by simp
  then show "unat (of_nat (n mod 128 + 128) :: byte) = n mod 128 + 128"
    by (simp only: unat_of_nat mod_less)
qed

text \<open>
  The parser on a complete header: whatever the bytes after it, it returns the header's length
  and the value.  The side conditions are the loop's invariant: \<open>i\<close> bytes are behind, and
  what they contributed is below \<open>2 ^ (7 * i)\<close>.
\<close>

lemma parse_loop_varint:
  "i + length (varint n) \<le> 4 \<Longrightarrow> unat val < 2 ^ (7 * i) \<Longrightarrow> r + length (varint n) \<le> len \<Longrightarrow>
   io_parse_loop (varint n @ rest) len r val (7 * i) =
   Ok (c_int (r + length (varint n)), Some (of_nat (unat val + n * 2 ^ (7 * i))))"
proof (induction n arbitrary: i r val rule: varint.induct)
  case (1 n)
  show ?case
  proof (cases "n < 128")
    case True
    have small: "n * 2 ^ (7 * i) < 2 ^ 64"
    proof -
      have "n * 2 ^ (7 * i) \<le> 128 * 2 ^ 21"
        using True "1.prems"(1) by (intro mult_le_mono power_increasing) (auto simp: varint_small)
      then show ?thesis by simp
    qed
    have n: "unat (of_nat n :: byte) = n"
      using True by (simp add: unat_of_nat)
    define v' where "v' = val OR push_bit (7 * i) (ucast (of_nat n :: byte))"
    have "unat v' = unat val + n * 2 ^ (7 * i)"
      using unat_or_push_bit [OF "1.prems"(2), of "ucast (of_nat n :: byte)"] small n
      by (simp only: v'_def unat_oct)
    then have "of_nat (unat val + n * 2 ^ (7 * i)) = (of_nat (unat v') :: u64)"
      by (simp only:)
    also have "\<dots> = v'" by simp
    finally have v': "v' = of_nat (unat val + n * 2 ^ (7 * i))" by (rule sym)
    show ?thesis
      unfolding varint_small [OF True] using True "1.prems"
      by (simp add: varint_small parse_last n v' [symmetric] v'_def del: of_nat_add of_nat_mult)
  next
    case False
    then have big: "128 \<le> n" by simp
    define b :: byte where "b = of_nat (n mod 128 + 128)"
    define val' where "val' = val OR push_bit (7 * i) (ucast b AND 0x7F)"
    have b: "unat b = n mod 128 + 128" and v: "varint n = b # varint (n div 128)"
      using varint_head [OF big] by (simp_all add: b_def)
    have i: "7 * i \<le> 21" "Suc i + length (varint (n div 128)) \<le> 4"
      using "1.prems"(1) v by simp_all
    have val': "unat val' = unat val + n mod 128 * 2 ^ (7 * i)" "unat val' < 2 ^ (7 * Suc i)"
      using unat_continued [OF "1.prems"(2) i(1), of b]
      by (simp_all add: val'_def b add.commute)
    have "io_parse_loop (varint n @ rest) len r val (7 * i) =
        io_parse_loop (varint (n div 128) @ rest) len (r + 1) val' (7 * Suc i)"
      using "1.prems"(3) i(1) b by (simp add: v parse_more val'_def add.commute)
    also have "\<dots> = Ok (c_int (r + 1 + length (varint (n div 128))),
        Some (of_nat (unat val' + n div 128 * 2 ^ (7 * Suc i))))"
      using "1.IH" [of "Suc i" val' "r + 1"] False i(2) val'(2) "1.prems"(3) v by simp
    also have "unat val' + n div 128 * 2 ^ (7 * Suc i) = unat val + n * 2 ^ (7 * i)"
    proof -
      have "n * 2 ^ (7 * i) = (n mod 128 + n div 128 * 128) * 2 ^ (7 * i)" by simp
      then show ?thesis by (simp only: val'(1) add_mult_distrib power_add mult_Suc_right) simp
    qed
    finally show ?thesis by (simp add: v)
  qed
qed

lemma io_parse_size_varint:
  assumes "n < 2 ^ 28" and "length (varint n) \<le> len"
  shows "io_parse_size (varint n @ rest) len = Ok (int (length (varint n)), Some (of_nat n))"
  using parse_loop_varint [where i = 0 and n = n and val = 0 and r = 0 and len = len and rest = rest]
    assms length_varint_le [OF assms(1)]
  by (simp add: io_parse_size_def c_simps)


text \<open>
  A proper prefix of a header asks for more data.  A header of at most four bytes has at most
  three continued ones, so the loop leaves with \<open>off < 28\<close>.
\<close>

lemma parse_loop_varint_prefix:
  "k < length (varint n) \<Longrightarrow> i + length (varint n) \<le> 4 \<Longrightarrow>
   io_parse_loop (take k (varint n) @ rest) (r + k) r val (7 * i) = Ok (0, None)"
proof (induction n arbitrary: i k r val rule: varint.induct)
  case (1 n)
  show ?case
  proof (cases k)
    case 0
    have "7 * i < 28" using "1.prems" by simp
    with 0 show ?thesis by (simp add: parse_out_of_data)
  next
    case (Suc k')
    then have big: "128 \<le> n"
      using "1.prems"(1) by (cases "n < 128") (simp_all add: varint_small)
    define b :: byte where "b = of_nat (n mod 128 + 128)"
    have b: "unat b = n mod 128 + 128" and v: "varint n = b # varint (n div 128)"
      using varint_head [OF big] by (simp_all add: b_def)
    have "io_parse_loop (take k (varint n) @ rest) (r + k) r val (7 * i) =
        io_parse_loop (take k' (varint (n div 128)) @ rest) (Suc r + k') (Suc r)
          (val OR push_bit (7 * i) (ucast b AND 0x7F)) (7 * Suc i)"
      using "1.prems"(2) b v by (simp add: Suc parse_more add.commute)
    also have "\<dots> = Ok (0, None)"
      using "1.IH" [of k' "Suc i" "Suc r"] big "1.prems" v Suc by simp
    finally show ?thesis .
  qed
qed

lemma io_parse_size_prefix:
  assumes "n < 2 ^ 28" and "k < length (varint n)"
  shows "io_parse_size (take k (varint n) @ rest) k = Ok (0, None)"
  using parse_loop_varint_prefix [where i = 0 and r = 0 and k = k and n = n and rest = rest and val = 0]
    assms length_varint_le [OF assms(1)]
  by (simp add: io_parse_size_def)

text \<open>What the parser returns: never more than it was given, at most five bytes, a 32-bit value.\<close>

lemma unat_last:
  assumes "unat (val :: u64) < 2 ^ off" and "unat (b :: byte) < 2 ^ m" and "off + m \<le> 32"
  shows "unat (val OR push_bit off (ucast b)) < 2 ^ (off + m)"
proof -
  have "Suc (unat b) * 2 ^ off \<le> 2 ^ m * 2 ^ off"
    using assms(2) by (intro mult_le_mono1) (simp add: Suc_leI)
  then have le: "unat b * 2 ^ off + 2 ^ off \<le> 2 ^ m * 2 ^ off"
    by (simp only: mult_Suc add.commute)
  moreover have "(2 :: nat) ^ m * 2 ^ off \<le> 2 ^ 32"
    using power_increasing [OF assms(3), of "2 :: nat"] by (simp only: power_add mult.commute)
  ultimately have "unat b * 2 ^ off < 2 ^ 64"
    by simp
  then have "unat (val OR push_bit off (ucast b)) = unat val + unat b * 2 ^ off"
    using unat_or_push_bit [OF assms(1), of "ucast b"] by (simp only: unat_oct)
  with assms(1) le show ?thesis
    by (simp add: power_add mult.commute)
qed

lemma parse_loop_bounds:
  "io_parse_loop buf len r val (7 * r) = Ok (k, v) \<Longrightarrow> (r \<le> 4 \<Longrightarrow> unat val < 2 ^ (7 * r)) \<Longrightarrow>
   r \<le> len \<Longrightarrow>
   (k = -1 \<and> v = None) \<or> (k = 0 \<and> v = None \<and> len < 4) \<or>
   (\<exists>x. v = Some x \<and> unat x < 2 ^ 32 \<and> int r < k \<and> k \<le> int len \<and> k \<le> 5)"
proof (induction "len - r" arbitrary: buf r val rule: less_induct)
  case less
  show ?case
  proof (cases "r < len")
    case False
    with less.prems show ?thesis
      by (auto simp: parse_out_of_data split: if_splits)
  next
    case True
    show ?thesis
    proof (cases buf)
      case Nil
      with less.prems True show ?thesis by (simp add: parse_over_read)
    next
      case (Cons b buf')
      consider "128 \<le> unat b" "64 \<le> 7 * r" | "128 \<le> unat b" "7 * r < 64" | "unat b < 128"
        by linarith
      then show ?thesis
      proof cases
        case 1
        with less.prems True Cons show ?thesis by (simp add: parse_undefined)
      next
        case 2
        then have "io_parse_loop buf' len (Suc r) (val OR push_bit (7 * r) (ucast b AND 0x7F)) (7 * Suc r)
            = Ok (k, v)"
          using less.prems(1) True Cons by (simp add: parse_more add.commute)
        moreover have "unat (val OR push_bit (7 * r) (ucast b AND 0x7F)) < 2 ^ (7 * Suc r)"
          if "Suc r \<le> 4"
          using unat_continued(2) [of val "7 * r" b] less.prems(2) that by (simp add: add.commute)
        ultimately show ?thesis
          using less.hyps [of "Suc r"] True by force
      next
        case 3
        then have last: "7 * r < 28 \<or> 7 * r = 28 \<and> unat b < 16 \<Longrightarrow>
            k = c_int (Suc r) \<and> v = Some (val OR push_bit (7 * r) (ucast b))"
          and err: "\<not> (7 * r < 28 \<or> 7 * r = 28 \<and> unat b < 16) \<Longrightarrow> k = -1 \<and> v = None"
          using less.prems(1) True Cons by (auto simp: parse_last)
        have k: "c_int (Suc r) = int (Suc r)" if "7 * r \<le> 28"
          using that by (simp add: c_simps)
        have "unat (val OR push_bit (7 * r) (ucast b)) < 2 ^ 32" if "7 * r < 28"
        proof -
          have "unat (val OR push_bit (7 * r) (ucast b)) < 2 ^ (7 * r + 7)"
            using unat_last [of val "7 * r" b 7] less.prems(2) 3 that by simp
          also have "\<dots> \<le> 2 ^ 32" using that by (intro power_increasing) simp_all
          finally show ?thesis .
        qed
        moreover have "unat (val OR push_bit (7 * r) (ucast b)) < 2 ^ 32" if "7 * r = 28" "unat b < 16"
          using unat_last [of val "7 * r" b 4] less.prems(2) that by simp
        ultimately show ?thesis
          using last err True k by fastforce
      qed
    qed
  qed
qed

text \<open>An accepted header is determined by its own bytes, whatever is behind it.\<close>

lemma parse_loop_local:
  "io_parse_loop buf (r + length buf) r val (7 * r) = Ok (k, Some v) \<Longrightarrow>
   \<exists>n. n \<le> length buf \<and> k = int (r + n) \<and>
     (\<forall>ys. io_parse_loop (take n buf @ ys) (r + n + length ys) r val (7 * r) = Ok (k, Some v))"
proof (induction buf arbitrary: r val)
  case Nil
  then show ?case by (simp add: parse_out_of_data split: if_splits)
next
  case (Cons b buf)
  consider "128 \<le> unat b" "64 \<le> 7 * r" | "128 \<le> unat b" "7 * r < 64" | "unat b < 128"
    by linarith
  then show ?case
  proof cases
    case 1
    with Cons.prems show ?thesis by (simp add: parse_undefined)
  next
    case 2
    let ?val = "val OR push_bit (7 * r) (ucast b AND 0x7F)"
    have step: "io_parse_loop (b # xs) len r val (7 * r) = io_parse_loop xs len (Suc r) ?val (7 * Suc r)"
      if "r < len" for xs len
      using 2 that by (simp add: parse_more add.commute)
    have "io_parse_loop buf (Suc r + length buf) (Suc r) ?val (7 * Suc r) = Ok (k, Some v)"
      using Cons.prems step [of "r + length (b # buf)" buf] by simp
    from Cons.IH [OF this] obtain n where n: "n \<le> length buf" "k = int (Suc r + n)"
      "\<And>ys. io_parse_loop (take n buf @ ys) (Suc r + n + length ys) (Suc r) ?val (7 * Suc r) = Ok (k, Some v)"
      by blast
    have "io_parse_loop (take (Suc n) (b # buf) @ ys) (r + Suc n + length ys) r val (7 * r) = Ok (k, Some v)" for ys
      using n(3) [of ys] step [of "r + Suc n + length ys" "take n buf @ ys"] by simp
    with n(1,2) show ?thesis by (intro exI [of _ "Suc n"]) simp
  next
    case 3
    then have last: "io_parse_loop (b # xs) len r val (7 * r) =
        (if 7 * r < 28 \<or> 7 * r = 28 \<and> unat b < 16
         then Ok (c_int (r + 1), Some (val OR push_bit (7 * r) (ucast b))) else Ok (-1, None))"
      if "r < len" for xs len
      using that by (simp add: parse_last)
    have ok: "7 * r < 28 \<or> 7 * r = 28 \<and> unat b < 16" "k = c_int (r + 1)"
      "v = val OR push_bit (7 * r) (ucast b)"
      using Cons.prems last [of "r + length (b # buf)" buf] by (auto split: if_splits)
    then have "k = int (r + 1)" by (auto simp: c_int_small)
    then show ?thesis
      using last ok by (intro exI [of _ 1]) auto
  qed
qed

lemma io_parse_size_local:
  assumes "io_parse_size xs (length xs) = Ok (k, Some v)"
  shows "io_parse_size (take (nat k) xs @ ys) (nat k + length ys) = Ok (k, Some v)" "nat k \<le> length xs"
  using parse_loop_local [of xs 0 0 k v] assms by (auto simp: io_parse_size_def)

lemma io_parse_size_append:
  assumes "io_parse_size xs (length xs) = Ok (k, Some v)"
  shows "io_parse_size (xs @ ys) (length (xs @ ys)) = Ok (k, Some v)"
  using io_parse_size_local(1) [OF assms, of "drop (nat k) xs @ ys"] io_parse_size_local(2) [OF assms]
  by (simp flip: append_assoc)

lemma io_parse_size_take:
  assumes "io_parse_size xs (length xs) = Ok (k, Some v)" and "nat k \<le> n" "n \<le> length xs"
  shows "io_parse_size (take n xs) n = Ok (k, Some v)"
proof -
  have "take n xs = take (nat k) xs @ take (n - nat k) (drop (nat k) xs)"
    using assms(2) by (simp flip: take_add)
  moreover have "nat k + length (take (n - nat k) (drop (nat k) xs)) = n" using assms(2,3) by simp
  ultimately show ?thesis
    using io_parse_size_local(1) [OF assms(1), of "take (n - nat k) (drop (nat k) xs)"] by simp
qed

lemma io_parse_size_header:
  assumes "io_parse_size buf len = Ok (k, v)"
  obtains (malformed) "k = -1" "v = None"
  | (incomplete) "k = 0" "v = None" "len < 4"
  | (parsed) x where "v = Some x" "unat x < 2 ^ 32" "0 < k" "k \<le> int len" "k \<le> 5"
  using parse_loop_bounds [of buf len 0 0 k v] assms by (auto simp: io_parse_size_def)

lemma io_parse_size_Nil [simp]: "io_parse_size [] 0 = Ok (0, None)"
  by (simp add: io_parse_size_def parse_out_of_data)

section \<open>The undefined shift\<close>

text \<open>
  \<open>off\<close> reaches 70 after ten continued bytes, so an eleventh one shifts a 64-bit value by
  more than its width.
\<close>

lemma parse_loop_undefined_iff:
  "r + length buf = len \<Longrightarrow>
   io_parse_loop buf len r val (7 * r) = Stop Undefined_behaviour \<longleftrightarrow>
   (if r \<le> 10 then 11 \<le> len \<and> (\<forall>i < 11 - r. 128 \<le> unat (buf ! i))
    else r < len \<and> 128 \<le> unat (hd buf))"
proof (induction buf arbitrary: r val)
  case Nil
  then show ?case by (simp add: parse_out_of_data)
next
  case (Cons b buf)
  consider "128 \<le> unat b" "10 \<le> r" | "128 \<le> unat b" "r < 10" | "unat b < 128"
    by linarith
  then show ?case
  proof cases
    case 1
    with Cons.prems show ?thesis
      by (auto simp: parse_undefined less_Suc_eq)
  next
    case 2
    then have "11 - r = Suc (10 - r)" by simp
    then have split: "(\<forall>i < 11 - r. 128 \<le> unat ((b # buf) ! i)) \<longleftrightarrow>
        128 \<le> unat b \<and> (\<forall>i < 10 - r. 128 \<le> unat (buf ! i))"
      by (simp only: all_below_Suc) simp
    have "io_parse_loop (b # buf) len r val (7 * r) =
        io_parse_loop buf len (Suc r) (val OR push_bit (7 * r) (ucast b AND 0x7F)) (7 * Suc r)"
      using 2 Cons.prems by (simp add: parse_more add.commute)
    then show ?thesis
      using Cons.IH [of "Suc r"] Cons.prems 2 by (simp only: split) auto
  next
    case 3
    then have "\<not> (\<forall>i < 11 - r. 128 \<le> unat ((b # buf) ! i))" if "r \<le> 10"
      using that by (auto intro!: exI [of _ 0])
    with 3 Cons.prems show ?thesis
      by (auto simp: parse_last)
  qed
qed

lemma io_parse_size_only_undefined: "io_parse_size buf (length buf) = Stop e \<Longrightarrow> e = Undefined_behaviour"
proof -
  have "io_parse_loop buf (r + length buf) r val off = Stop e \<Longrightarrow> e = Undefined_behaviour" for r val off
  proof (induction buf arbitrary: r val off)
    case (Cons b buf)
    show ?case
    proof (cases "128 \<le> unat b \<and> off < 64")
      case True
      then show ?thesis using Cons.IH [of "Suc r"] Cons.prems by (simp add: parse_more)
    next
      case False
      then show ?thesis using Cons.prems
        by (cases "128 \<le> unat b") (auto simp: parse_undefined parse_last split: if_splits)
    qed
  qed (simp add: parse_out_of_data)
  from this [of 0 0 0] show "io_parse_size buf (length buf) = Stop e \<Longrightarrow> e = Undefined_behaviour"
    by (simp add: io_parse_size_def)
qed

lemma io_parse_size_undefined_iff:
  "io_parse_size buf (length buf) = Stop Undefined_behaviour \<longleftrightarrow>
   11 \<le> length buf \<and> (\<forall>i < 11. 128 \<le> unat (buf ! i))"
  using parse_loop_undefined_iff [of 0 buf "length buf" 0] by (simp add: io_parse_size_def)


section \<open>Properties\<close>

lemma io_store_size_Some:
  "io_store_size (Some b) len val =
    (let x = unat val mod 2 ^ 32 in
     if 2 ^ 28 \<le> x \<or> len < length (varint x) then (-1, Some b)
     else (int (length (varint x)), Some (varint x @ drop (length (varint x)) b)))"
  by (simp add: io_store_size_def io_store_size_unrolled_eq [OF refl] Let_def)

lemma null_mask:
  "val AND 0x00003F10 = 0 \<longleftrightarrow> unat (val :: u64) div 256 mod 64 = 0 \<and> unat val div 16 mod 2 = 0"
proof -
  have "(0x3F10 :: u64) = push_bit 8 (mask 6) OR push_bit 4 (mask 1)"
    by (simp add: mask_eq_exp_minus_1)
  then have "val AND 0x3F10 = (val AND push_bit 8 (mask 6)) OR (val AND push_bit 4 (mask 1))"
    by (simp only: bit.conj_disj_distrib)
  then show ?thesis
    using and_push_mask_eq_0_iff [where w = val and j = 8 and k = 6]
      and_push_mask_eq_0_iff [where w = val and j = 4 and k = 1]
    by (simp only: or_eq_0_iff) simp
qed

text \<open>
  C34. Round trip.  Whatever \<open>io_store_size\<close> stores for a 32-bit value, in a buffer with any
  contents, \<open>io_parse_size\<close> reads back from that buffer: it returns the same number of
  bytes and the same value, and it ignores the bytes after the header.
\<close>

theorem io_size_roundtrip:
  assumes "io_store_size (Some buf) (length buf) val = (r, Some buf')"
    and "0 \<le> r" and "unat val < 2 ^ 32"
  shows "io_parse_size buf' (length buf') = Ok (r, Some val)"
proof -
  have fits: "unat val < 2 ^ 28" "length (varint (unat val)) \<le> length buf"
    "r = int (length (varint (unat val)))"
    "buf' = varint (unat val) @ drop (length (varint (unat val))) buf"
    using assms by (auto simp: io_store_size_Some Let_def split: if_splits)
  then show ?thesis
    using io_parse_size_varint [OF fits(1), of "length buf'" "drop (length (varint (unat val))) buf"]
    by simp
qed

theorem io_size_roundtrip_witness:
  "io_store_size (Some [0, 0, 7]) 3 300 = (2, Some [0xAC, 2, 7]) \<and>
   io_parse_size [0xAC, 2, 7] 3 = Ok (2, Some 300)"
proof -
  have store: "io_store_size (Some [0, 0, 7]) (length [0, 0, 7 :: byte]) 300 = (2, Some [0xAC, 2, 7])"
    by (simp add: io_store_size_def io_store_size_unrolled_def)
  then have "io_parse_size [0xAC, 2, 7] (length [0xAC, 2, 7 :: byte]) = Ok (2, Some 300)"
    by (rule io_size_roundtrip) simp_all
  with store show ?thesis
    by (simp add: eval_nat_numeral)
qed

text \<open>
  C35. What \<open>io_store_size\<close> stores, for every 64-bit value and every amount of space.  It
  works on the low 32 bits of the value: it fails, leaving the buffer alone, when those are
  \<open>2^28\<close> or more or the header does not fit; otherwise it overwrites the front of the
  buffer with the header and returns the header's length.  A value of \<open>2^32\<close> or more is
  thereby stored as a different, smaller one.
\<close>

theorem io_store_size_functional:
  "io_store_size (Some buf) len val =
    (let x = unat val mod 2 ^ 32 in
     if 2 ^ 28 \<le> x \<or> len < length (varint x) then (-1, Some buf)
     else (int (length (varint x)), Some (varint x @ drop (length (varint x)) buf)))"
  by (rule io_store_size_Some)



text \<open>
  C37. The NULL branch, which should return the space required, tests the mask
  \<open>0x3F10\<close> where the storing branch tests \<open>0x3F80\<close>.  It is right exactly for the values
  of \<open>2^14\<close> or more, those below 128 with bit 4 clear, and those in between that are at
  least 256 or have bit 4 set.
\<close>

theorem io_store_size_null_correct_iff:
  assumes "unat val < 2 ^ 28"
  shows "fst (io_store_size None len val) = fst (io_store_size (Some buf) 4 val) \<longleftrightarrow>
    2 ^ 14 \<le> unat val \<or>
    (unat val < 128 \<and> unat val div 16 mod 2 = 0) \<or>
    (128 \<le> unat val \<and> (256 \<le> unat val \<or> unat val div 16 mod 2 = 1))"
proof -
  define x where "x = unat val"
  have x: "x < 2 ^ 28" "x = x mod 2 ^ 32" using assms by (simp_all add: x_def)
  have null: "fst (io_store_size None len val) =
      (if x div 2 ^ 28 mod 2 ^ 4 \<noteq> 0 then -1 else if x div 2 ^ 21 mod 2 ^ 7 \<noteq> 0 then 4
       else if x div 2 ^ 14 mod 2 ^ 7 \<noteq> 0 then 3
       else if x div 256 mod 64 \<noteq> 0 \<or> x div 16 mod 2 \<noteq> 0 then 2 else 1)"
    by (simp only: io_store_size_def option.case fst_conv store_masks null_mask x_def de_Morgan_conj)
  have stored: "fst (io_store_size (Some buf) 4 val) = int (length (varint x))"
    using x length_varint_le [OF x(1)] by (simp add: io_store_size_Some x_def [symmetric] Let_def)
  have digits: "x div 2 ^ 28 = 0" "x div 2 ^ 21 mod 2 ^ 7 = x div 2 ^ 21"
    "x < 2 ^ 21 \<Longrightarrow> x div 2 ^ 14 mod 2 ^ 7 = x div 2 ^ 14"
    "x < 2 ^ 14 \<Longrightarrow> x div 256 mod 64 = x div 256"
    using x(1) by (simp_all add: less_mult_imp_div_less)
  have test: "(x div 2 ^ 21 \<noteq> 0) = (2 ^ 21 \<le> x)" "(x div 2 ^ 14 \<noteq> 0) = (2 ^ 14 \<le> x)"
    "(x div 256 \<noteq> 0) = (256 \<le> x)"
    by (auto simp: div_eq_0_iff)
  consider "x < 128" | "128 \<le> x" "x < 256" | "256 \<le> x" "x < 2 ^ 14" | "2 ^ 14 \<le> x" "x < 2 ^ 21"
    | "2 ^ 21 \<le> x"
    by linarith
  then show ?thesis
    unfolding null stored x_def [symmetric] length_varint [OF x(1)] digits(1,2) test(1)
    by cases (simp_all add: digits(3,4)[simplified] test(2,3)[simplified])
qed


theorem io_store_size_null_correct_iff_witness:
  "fst (io_store_size None 4 128) = 1 \<and> fst (io_store_size (Some []) 4 128) = 2"
  using io_store_size_null_correct_iff [of 128 4 "[]"]
  by (simp add: io_store_size_def io_store_size_unrolled_def Let_def)

text \<open>
  Header split across reads.  On the first \<open>k\<close> bytes of a header that the encoder can
  produce, for any \<open>k\<close> short of its length and whatever lies beyond in the buffer, the parser
  returns 0, \<open>need more data\<close>, and never mistakes the fragment for a header or for an error.
\<close>

theorem io_parse_size_fragment:
  assumes "n < 2 ^ 28" and "k < length (varint n)"
  shows "io_parse_size (take k (varint n) @ rest) k = Ok (0, None)"
  by (rule io_parse_size_prefix [OF assms])

theorem io_parse_size_fragment_witness: "io_parse_size [0xF0, 0xA2, 9, 9] 2 = Ok (0, None)"
proof -
  have "varint 70000 = [0xF0, 0xA2, 4]"
    by (simp add: varint_large varint_small)
  then show ?thesis
    using io_parse_size_fragment [of 70000 2 "[9, 9]"] by simp
qed

text \<open>
  C38. The five-byte form is accepted in one piece and refused in two.  Four continued bytes
  followed by a byte below 16 parse as a five-byte header, but the same four bytes alone are
  reported as malformed (-1), not as incomplete (0), so a reader that sees the header in two
  fragments gives up.
\<close>

theorem io_parse_size_five_byte_split:
  assumes "128 \<le> unat b0" "128 \<le> unat b1" "128 \<le> unat b2" "128 \<le> unat b3" "unat b4 < 16"
  shows "io_parse_size [b0, b1, b2, b3, b4] 4 = Ok (-1, None) \<and>
    (\<exists>v. io_parse_size [b0, b1, b2, b3, b4] 5 = Ok (5, Some v))"
  using assms by (simp add: io_parse_size_def parse_more parse_last parse_out_of_data c_simps)

theorem io_parse_size_five_byte_split_witness:
  "io_parse_size [0x80, 0x80, 0x80, 0x80, 1] 4 = Ok (-1, None)"
  using io_parse_size_five_byte_split [of "0x80" "0x80" "0x80" "0x80" "1"] by simp

text \<open>
  C39. The parser shifts by 64 bits or more, which C leaves undefined on a 64-bit
  \<open>size_t\<close>, exactly on the inputs that start with eleven continued bytes; on every other
  input it returns.
\<close>

theorem io_parse_size_undefined:
  "io_parse_size buf (length buf) = Stop Undefined_behaviour \<longleftrightarrow>
   11 \<le> length buf \<and> (\<forall>i < 11. 128 \<le> unat (buf ! i))"
  by (rule io_parse_size_undefined_iff)

theorem io_parse_size_undefined_witness:
  "io_parse_size (replicate 11 0xFF) 11 = Stop Undefined_behaviour"
  using io_parse_size_undefined [of "replicate 11 0xFF"] by simp

text \<open>
  C40. Bounds.  When the parser reports a header it has consumed between one and five bytes,
  no more than it was given, and the value fits 32 bits; when it asks for more data it was given
  at most three bytes.
\<close>

theorem io_parse_size_bounds:
  assumes "io_parse_size buf len = Ok (k, v)"
  shows "(k = -1 \<and> v = None) \<or> (k = 0 \<and> v = None \<and> len < 4) \<or>
    (\<exists>x. v = Some x \<and> unat x < 2 ^ 32 \<and> 0 < k \<and> k \<le> int len \<and> k \<le> 5)"
  using io_parse_size_header [OF assms] by metis

theorem io_parse_size_bounds_witness: "\<exists>x. io_parse_size [5, 1] 2 = Ok (1, Some x) \<and> unat x < 2 ^ 32"
proof -
  have "io_parse_size [5, 1] 2 = Ok (1, Some 5)"
    by (simp add: io_parse_size_def parse_last c_simps)
  with io_parse_size_bounds [OF this] show ?thesis by simp
qed

end
