(* ===== verification/Frames.thy ===== *)
theory Frames
  imports Serialize
begin

text \<open>
  What the datagram pipe promises, without buffers: a byte stream is a sequence of frames, a
  size header followed by that many bytes.  \<open>deframe\<close> reads the frames off a stream with the
  parser of \<open>io_serialize.c\<close> and leaves what is not a frame, incomplete or malformed.

  The lemmas: a frame is recognised as soon as its last byte is there and whatever follows it,
  so reading a stream in pieces finds the same datagrams as reading it whole, and the frames
  that the sender makes are read back as the datagrams they were made from.
\<close>

section \<open>Frames\<close>

definition frame :: "byte list \<Rightarrow> byte list" where
  "frame d = varint (length d) @ d"

text \<open>The first frame of a stream, if it is complete and carries at most \<open>m\<close> bytes.\<close>

definition next_frame :: "nat \<Rightarrow> byte list \<Rightarrow> (byte list \<times> byte list) option" where
  "next_frame m xs =
     (case io_parse_size xs (length xs) of
        Ok (k, Some v) \<Rightarrow>
          (if unat v \<le> m \<and> nat k + unat v \<le> length xs
           then Some (take (unat v) (drop (nat k) xs), drop (nat k + unat v) xs) else None)
      | _ \<Rightarrow> None)"

lemma next_frame_Some:
  assumes "next_frame m xs = Some (d, rest)"
  obtains k v where "io_parse_size xs (length xs) = Ok (k, Some v)" "0 < k" "k \<le> 5"
    "unat v \<le> m" "nat k + unat v \<le> length xs" "d = take (unat v) (drop (nat k) xs)"
    "rest = drop (nat k + unat v) xs" "length d = unat v"
proof -
  obtain k v where parse: "io_parse_size xs (length xs) = Ok (k, Some v)"
    "unat v \<le> m" "nat k + unat v \<le> length xs" "d = take (unat v) (drop (nat k) xs)"
    "rest = drop (nat k + unat v) xs"
    using assms by (auto simp: next_frame_def split: sum.splits option.splits if_splits)
  moreover have "0 < k \<and> k \<le> 5" using parse(1) by (cases rule: io_parse_size_header) auto
  ultimately show ?thesis by (intro that) auto
qed

lemma next_frame_mono:
  assumes "next_frame m xs = Some (d, rest)" "m \<le> n"
  shows "next_frame n xs = Some (d, rest)"
  using assms by (auto simp: next_frame_def split: sum.splits option.splits if_splits)

lemma next_frame_length:
  assumes "next_frame m xs = Some (d, rest)"
  shows "length rest + length d < length xs" "length d \<le> m"
proof -
  obtain k and v :: u64 where f: "0 < k" "unat v \<le> m" "nat k + unat v \<le> length xs"
    "rest = drop (nat k + unat v) xs" "length d = unat v"
    by (rule next_frame_Some [OF assms]) (rule that)
  have "0 < nat k" using f(1) by simp
  then show "length rest + length d < length xs" "length d \<le> m"
    using f(2-5) by simp_all
qed

function deframe :: "nat \<Rightarrow> byte list \<Rightarrow> byte list list \<times> byte list" where
  "deframe m xs =
     (case next_frame m xs of
        None \<Rightarrow> ([], xs)
      | Some (d, rest) \<Rightarrow> let (ds, tail) = deframe m rest in (d # ds, tail))"
  by pat_completeness auto

termination deframe
  by (relation "measure (\<lambda>(m, xs). length xs)") (auto dest: next_frame_length(1))

declare deframe.simps [simp del]

lemma deframe_None: "next_frame m xs = None \<Longrightarrow> deframe m xs = ([], xs)"
  by (subst deframe.simps) simp

lemma deframe_Some:
  "next_frame m xs = Some (d, rest) \<Longrightarrow> deframe m xs = (d # fst (deframe m rest), snd (deframe m rest))"
  by (subst deframe.simps) (simp add: case_prod_beta)

text \<open>The datagrams carried by a stream, and their bytes.\<close>

definition datagrams :: "nat \<Rightarrow> byte list \<Rightarrow> byte list list" where
  "datagrams m xs = fst (deframe m xs)"

definition payload :: "nat \<Rightarrow> byte list \<Rightarrow> byte list" where
  "payload m xs = concat (datagrams m xs)"

text \<open>A stream that ends with the end of a frame.\<close>

definition whole :: "nat \<Rightarrow> byte list \<Rightarrow> bool" where
  "whole m xs \<longleftrightarrow> snd (deframe m xs) = []"

section \<open>Reading a stream in pieces\<close>

lemma next_frame_Nil [simp]: "next_frame m [] = None"
  by (simp add: next_frame_def)

lemma deframe_Nil [simp]: "deframe m [] = ([], [])"
  by (simp add: deframe_None)

lemma next_frame_append:
  assumes "next_frame m xs = Some (d, rest)"
  shows "next_frame m (xs @ ys) = Some (d, rest @ ys)"
proof -
  obtain k v where "io_parse_size xs (length xs) = Ok (k, Some v)" "unat v \<le> m"
    "nat k + unat v \<le> length xs" "d = take (unat v) (drop (nat k) xs)" "rest = drop (nat k + unat v) xs"
    by (rule next_frame_Some [OF assms]) (rule that)
  with io_parse_size_append [of xs k v ys] show ?thesis
    by (simp add: next_frame_def)
qed

lemma deframe_append_whole:
  "whole m xs \<Longrightarrow> deframe m (xs @ ys) = (fst (deframe m xs) @ fst (deframe m ys), snd (deframe m ys))"
proof (induction m xs rule: deframe.induct)
  case (1 m xs)
  show ?case
  proof (cases "next_frame m xs")
    case None
    then have "xs = []" using "1.prems" by (simp add: whole_def deframe_None)
    then show ?thesis by simp
  next
    case (Some f)
    obtain d rest where f: "f = (d, rest)" by (cases f)
    have "whole m rest" using "1.prems" Some f by (simp add: whole_def deframe_Some)
    then have "deframe m (rest @ ys) = (fst (deframe m rest) @ fst (deframe m ys), snd (deframe m ys))"
      using "1.IH" Some f by simp
    then show ?thesis
      using Some f next_frame_append [of m xs d rest ys] by (simp add: deframe_Some)
  qed
qed

lemma datagrams_append: "whole m xs \<Longrightarrow> datagrams m (xs @ ys) = datagrams m xs @ datagrams m ys"
  by (simp add: datagrams_def deframe_append_whole)

lemma payload_append: "whole m xs \<Longrightarrow> payload m (xs @ ys) = payload m xs @ payload m ys"
  by (simp add: payload_def datagrams_append)

lemma whole_append: "whole m xs \<Longrightarrow> whole m ys \<Longrightarrow> whole m (xs @ ys)"
  by (simp add: whole_def deframe_append_whole)

text \<open>More of a stream never changes the datagrams found so far.\<close>

lemma deframe_prefix: "\<exists>ds. fst (deframe m (xs @ ys)) = fst (deframe m xs) @ ds"
proof (induction m xs rule: deframe.induct)
  case (1 m xs)
  show ?case
  proof (cases "next_frame m xs")
    case (Some f)
    obtain d rest where f: "f = (d, rest)" by (cases f)
    obtain ds where "fst (deframe m (rest @ ys)) = fst (deframe m rest) @ ds"
      using "1.IH" Some f by blast
    then show ?thesis
      using Some f next_frame_append [of m xs d rest ys] by (simp add: deframe_Some)
  qed (simp add: deframe_None)
qed

lemma payload_prefix: "\<exists>zs. payload m (xs @ ys) = payload m xs @ zs"
  using deframe_prefix [of m xs ys] by (auto simp: payload_def datagrams_def)

lemma whole_frame:
  assumes "next_frame m xs = Some (d, rest)"
  shows "\<exists>f. xs = f @ rest \<and> whole m f \<and> datagrams m f = [d]"
proof -
  obtain k v where f: "io_parse_size xs (length xs) = Ok (k, Some v)" "0 < k" "unat v \<le> m"
    "nat k + unat v \<le> length xs" "d = take (unat v) (drop (nat k) xs)" "rest = drop (nat k + unat v) xs"
    by (rule next_frame_Some [OF assms]) (rule that)
  let ?f = "take (nat k + unat v) xs"
  have "length ?f = nat k + unat v" using f(4) by simp
  then have "io_parse_size ?f (length ?f) = Ok (k, Some v)"
    using io_parse_size_take [OF f(1) _ f(4)] by simp
  then have "next_frame m ?f = Some (d, [])"
    using f by (simp add: next_frame_def drop_take)
  then have "whole m ?f \<and> datagrams m ?f = [d]"
    by (simp add: whole_def datagrams_def deframe_Some)
  with f(6) show ?thesis by (metis append_take_drop_id)
qed

section \<open>Frames that the sender makes\<close>

lemma next_frame_frame:
  assumes "length d \<le> m" "length d < 2 ^ 28"
  shows "next_frame m (frame d @ ys) = Some (d, ys)"
proof -
  have "io_parse_size (varint (length d) @ d @ ys) (length (varint (length d) @ d @ ys)) =
      Ok (int (length (varint (length d))), Some (of_nat (length d)))"
    by (rule io_parse_size_varint [OF assms(2)]) simp
  moreover have "unat (of_nat (length d) :: u64) = length d"
    using assms(2) by (simp add: unsigned_of_nat take_bit_nat_eq_self)
  ultimately show ?thesis
    using assms(1) by (simp add: next_frame_def frame_def)
qed

lemma deframe_frame:
  assumes "length d \<le> m" "length d < 2 ^ 28"
  shows "deframe m (frame d @ ys) = (d # fst (deframe m ys), snd (deframe m ys))"
  using next_frame_frame [OF assms] by (rule deframe_Some)

lemma payload_frame:
  assumes "whole m xs" "length d \<le> m" "length d < 2 ^ 28"
  shows "whole m (xs @ frame d)" "datagrams m (xs @ frame d) = datagrams m xs @ [d]"
    "payload m (xs @ frame d) = payload m xs @ d"
  using deframe_append_whole [OF assms(1), of "frame d"] deframe_frame [OF assms(2,3), of "[]"]
  by (simp_all add: whole_def payload_def datagrams_def)

text \<open>Round trip: what was framed is read back, up to and not into the first incomplete frame.\<close>

lemma deframe_frames:
  "\<forall>d\<in>set ds. length d \<le> m \<and> length d < 2 ^ 28 \<Longrightarrow>
   deframe m (concat (map frame ds) @ ys) = (ds @ fst (deframe m ys), snd (deframe m ys))"
  by (induction ds) (simp_all add: deframe_frame)

section \<open>Streams without undefined behaviour\<close>

text \<open>
  What a receiver needs of the peer's stream: no datagram is empty, and where the frames end
  there is no header that makes the parser shift by more than 63 bits.
\<close>

definition safe_stream :: "nat \<Rightarrow> byte list \<Rightarrow> bool" where
  "safe_stream m xs \<longleftrightarrow> [] \<notin> set (fst (deframe m xs)) \<and>
     io_parse_size (snd (deframe m xs)) (length (snd (deframe m xs))) \<noteq> Stop Undefined_behaviour"

lemma io_parse_size_undefined_append:
  "io_parse_size xs (length xs) = Stop Undefined_behaviour \<Longrightarrow>
   io_parse_size (xs @ ys) (length (xs @ ys)) = Stop Undefined_behaviour"
  unfolding io_parse_size_undefined_iff by (auto simp: nth_append)

lemma safe_stream_parse:
  assumes "safe_stream m (xs @ ys @ zs)" and "whole m xs"
  shows "\<exists>k v. io_parse_size ys (length ys) = Ok (k, v)"
    and "next_frame m ys = Some (d, rest) \<Longrightarrow> d \<noteq> []"
proof -
  have all: "deframe m (xs @ ys @ zs) = (fst (deframe m xs) @ fst (deframe m (ys @ zs)), snd (deframe m (ys @ zs)))"
    by (rule deframe_append_whole [OF assms(2)])
  show "\<exists>k v. io_parse_size ys (length ys) = Ok (k, v)"
  proof (cases "io_parse_size ys (length ys)")
    case (Inl e)
    then have "io_parse_size (ys @ zs) (length (ys @ zs)) = Stop Undefined_behaviour"
      using io_parse_size_only_undefined io_parse_size_undefined_append by blast
    moreover from this have "deframe m (ys @ zs) = ([], ys @ zs)"
      by (simp add: deframe_None next_frame_def)
    ultimately show ?thesis using assms(1) all by (simp add: safe_stream_def)
  qed (metis surj_pair)
  show "d \<noteq> []" if "next_frame m ys = Some (d, rest)"
    using next_frame_append [OF that, of zs] assms(1) all by (auto simp: safe_stream_def deframe_Some)
qed

section \<open>Streams that a datagram pipe makes\<close>

text \<open>Nonempty datagrams of a size that fits a header, framed one after the other.\<close>

definition well_framed :: "byte list \<Rightarrow> bool" where
  "well_framed xs \<longleftrightarrow> (\<exists>ds. xs = concat (map frame ds) \<and> (\<forall>d\<in>set ds. d \<noteq> [] \<and> length d < 2 ^ 28))"

lemma well_framed_Nil [simp]: "well_framed []"
  by (auto simp: well_framed_def intro: exI [of _ "[]"])

lemma well_framed_snoc:
  assumes "well_framed xs" "d \<noteq> []" "length d < 2 ^ 28"
  shows "well_framed (xs @ frame d)"
proof -
  obtain ds where ds: "xs = concat (map frame ds)" "\<forall>d\<in>set ds. d \<noteq> [] \<and> length d < 2 ^ 28"
    using assms(1) by (auto simp: well_framed_def)
  show ?thesis
    unfolding well_framed_def by (rule exI [of _ "ds @ [d]"]) (use ds assms(2,3) in auto)
qed

lemma well_framed_whole: "well_framed xs \<Longrightarrow> whole (2 ^ 28) xs"
proof -
  assume "well_framed xs"
  then obtain ds where "xs = concat (map frame ds)" "\<forall>d\<in>set ds. d \<noteq> [] \<and> length d < 2 ^ 28"
    by (auto simp: well_framed_def)
  then show ?thesis
    using deframe_frames [of ds "2 ^ 28" "[]"] by (simp add: whole_def order_less_imp_le)
qed

text \<open>Every part of such a stream, cut anywhere, is one a receiver can handle.\<close>

lemma frames_prefix_safe:
  assumes "\<forall>d\<in>set ds. d \<noteq> [] \<and> length d < 2 ^ 28" "xs @ ys = concat (map frame ds)"
  shows "safe_stream m xs"
  using assms
proof (induction ds arbitrary: xs)
  case Nil
  then show ?case by (simp add: safe_stream_def)
next
  case (Cons d ds)
  have d: "d \<noteq> []" "length d < 2 ^ 28" and eq: "xs @ ys = frame d @ concat (map frame ds)"
    using Cons.prems by simp_all
  have parse: "io_parse_size (xs @ ys) (length (xs @ ys)) \<noteq> Stop Undefined_behaviour"
    using next_frame_frame [OF order_refl d(2), of "concat (map frame ds)"] eq
    by (auto simp: next_frame_def split: sum.splits)
  then have fine: "io_parse_size xs (length xs) \<noteq> Stop Undefined_behaviour"
    using io_parse_size_undefined_append by blast
  show ?case
  proof (cases "next_frame m xs")
    case None
    with fine show ?thesis by (simp add: safe_stream_def deframe_None)
  next
    case (Some f)
    obtain d' rest where f: "f = (d', rest)" by (cases f)
    have "length d' \<le> m" using next_frame_length(2) Some f by blast
    have found: "next_frame m (xs @ ys) = Some (d', rest @ ys)"
      using next_frame_append Some f by blast
    moreover have "next_frame (max m (2 ^ 28)) (frame d @ concat (map frame ds)) = Some (d, concat (map frame ds))"
      by (rule next_frame_frame) (use d in simp_all)
    ultimately have "d' = d" "rest @ ys = concat (map frame ds)"
      using next_frame_mono [OF found, of "max m (2 ^ 28)"] eq by simp_all
    moreover from this have "safe_stream m rest" using Cons.IH [of rest] Cons.prems(1) by simp
    ultimately show ?thesis using Some f d by (simp add: safe_stream_def deframe_Some)
  qed
qed

lemma well_framed_safe: "well_framed (xs @ ys) \<Longrightarrow> safe_stream m xs"
  unfolding well_framed_def by (metis frames_prefix_safe)

text \<open>A receiver with a smaller limit finds the first of the datagrams that one with a larger finds.\<close>

lemma deframe_limit: "m \<le> n \<Longrightarrow> \<exists>ds. fst (deframe n xs) = fst (deframe m xs) @ ds"
proof (induction m xs rule: deframe.induct)
  case (1 m xs)
  show ?case
  proof (cases "next_frame m xs")
    case (Some f)
    obtain d rest where f: "f = (d, rest)" by (cases f)
    obtain ds where "fst (deframe n rest) = fst (deframe m rest) @ ds"
      using "1.IH" "1.prems" Some f by blast
    then show ?thesis
      using Some f next_frame_mono [of m xs d rest n] "1.prems" by (simp add: deframe_Some)
  qed (simp add: deframe_None)
qed

lemma payload_limit: "m \<le> n \<Longrightarrow> \<exists>zs. payload n xs = payload m xs @ zs"
  using deframe_limit [of m n xs] by (auto simp: payload_def datagrams_def)

end
