(* ===== verification/AtxPipe.thy ===== *)
theory AtxPipe
  imports Pipe
begin

unbundle bit_operations_syntax

text \<open>
  The atomic-send pipe of \<open>io/src/io_pipe_atx.c\<close>: \<open>send\<close> takes a packet whole or not at
  all, by keeping what the pipe below did not take in \<open>pending\<close> and flushing it on the next
  writable event; a FIN asked for meanwhile waits behind it.

  The definitions follow the C functions; the pipe below is the parameter \<open>io\<close>, its function
  pointers.  \<open>atx_event\<close> is the path of an event through the pipe below and its callback.

  The lemmas show that over any pipe that keeps \<open>pipe_contract\<close> the atx pipe keeps it too,
  with the pending bytes counted as sent, and that on top of it every \<open>send\<close> is atomic.
\<close>

section \<open>The code\<close>

record 'p atx_pipe =
  at_base :: pipe_flags
  at_hooked :: bool
  at_io :: 'p
  at_pending :: "io_buffer option"
  at_want_fin :: bool

definition new_atx_pipe :: "('p, 'w) io_pipe \<Rightarrow> 'p \<Rightarrow> 'p atx_pipe" where
  "new_atx_pipe io q =
     \<lparr>at_base = zero_flags, at_hooked = False, at_io = pipe_hook io q, at_pending = None,
      at_want_fin = False\<rparr>"

definition atx_pipe_clone_state :: "('p, 'w) io_pipe \<Rightarrow> 'p atx_pipe \<Rightarrow> 'p atx_pipe" where
  "atx_pipe_clone_state io p =
     (let f = clone_pipe_state (at_base p) (pipe_flags io (at_io p)) in
      p\<lparr>at_base := (if at_pending p \<noteq> None then f\<lparr>writable := False\<rparr> else f)\<rparr>)"

definition atx_pipe_init :: "('p, 'w) io_pipe \<Rightarrow> 'p atx_pipe \<Rightarrow> 'w \<Rightarrow> ('p atx_pipe \<times> 'w) res" where
  "atx_pipe_init io p w =
     c_assert (at_hooked p)
       (bind_res (pipe_init io (at_io p) w)
         (\<lambda>(q, w). Ok (atx_pipe_clone_state io (p\<lparr>at_io := q\<rparr>), w)))"

definition atx_pipe_recv ::
  "('p, 'w) io_pipe \<Rightarrow> 'p atx_pipe \<Rightarrow> nat \<Rightarrow> 'w \<Rightarrow> (int \<times> byte list \<times> 'p atx_pipe \<times> 'w) res" where
  "atx_pipe_recv io p len w =
     bind_res (pipe_recv io (at_io p) len w)
       (\<lambda>(r, bs, q, w). Ok (r, bs, atx_pipe_clone_state io (p\<lparr>at_io := q\<rparr>), w))"

definition atx_pipe_send ::
  "('p, 'w) io_pipe \<Rightarrow> 'p atx_pipe \<Rightarrow> byte list \<Rightarrow> 'w \<Rightarrow> (int \<times> 'p atx_pipe \<times> 'w) res" where
  "atx_pipe_send io p bs w =
     (if at_pending p \<noteq> None then Ok (-1, p, w)
      else bind_res (pipe_send io (at_io p) bs w)
        (\<lambda>(r, q, w).
          let p = atx_pipe_clone_state io (p\<lparr>at_io := q\<rparr>) in
          if r < 0 then Ok (-1, p, w)
          else if c_size r = length bs then Ok (c_int (length bs), p, w)
          else c_assert (r < c_int (length bs)) (c_assert (\<not> writable (at_base p))
            (bind_res
              (alloc_io_buffer (length bs - nat r) (Some (drop (nat r) bs)) (length bs - nat r))
              (\<lambda>b. Ok (c_int (length bs), p\<lparr>at_pending := Some b\<rparr>, w))))))"

definition atx_pipe_send_fin ::
  "('p, 'w) io_pipe \<Rightarrow> 'p atx_pipe \<Rightarrow> 'w \<Rightarrow> (int \<times> 'p atx_pipe \<times> 'w) res" where
  "atx_pipe_send_fin io p w =
     c_assert (\<not> fin_sent (at_base p) \<and> \<not> at_want_fin p)
       (if at_pending p \<noteq> None then Ok (0, p\<lparr>at_want_fin := True\<rparr>, w)
        else bind_res (pipe_send_fin io (at_io p) w)
          (\<lambda>(r, q, w). Ok (r, atx_pipe_clone_state io (p\<lparr>at_io := q\<rparr>), w)))"

definition atx_pipe_discard :: "('p, 'w) io_pipe \<Rightarrow> 'p atx_pipe \<Rightarrow> 'w \<Rightarrow> 'w res" where
  "atx_pipe_discard io p w = pipe_discard io (at_io p) w"

text \<open>The first half of the callback's flush: send what is pending and adjust the event mask.\<close>

definition atx_flush ::
  "('p, 'w) io_pipe \<Rightarrow> 'p atx_pipe \<Rightarrow> io_buffer \<Rightarrow> uint \<Rightarrow> 'w \<Rightarrow> (uint \<times> 'p atx_pipe \<times> 'w) res" where
  "atx_flush io p buf events w =
     bind_res (pipe_send io (at_io p) (buf_bytes buf) w)
       (\<lambda>(r, q, w).
         if r < 0 then
           Ok ((if broken (pipe_flags io q) then events OR IO_EV_broken else events) AND NOT IO_EV_writable,
               p\<lparr>at_io := q\<rparr>, w)
         else if r < c_int (buf_size buf) then
           Ok (events AND NOT IO_EV_writable,
               p\<lparr>at_io := q, at_pending := Some (buf_consume (nat r) buf)\<rparr>, w)
         else c_assert (c_size r = buf_size buf)
           (Ok (if \<not> writable (pipe_flags io q) then events AND NOT IO_EV_writable else events,
                p\<lparr>at_io := q, at_pending := None\<rparr>, w)))"

text \<open>The second half: a FIN that was waiting for the pending data.\<close>

definition atx_flush_fin ::
  "('p, 'w) io_pipe \<Rightarrow> uint \<times> 'p atx_pipe \<times> 'w \<Rightarrow> (uint \<times> 'p atx_pipe \<times> 'w) res" where
  "atx_flush_fin io epw =
     (case epw of (events, p, w) \<Rightarrow>
       if at_pending p = None \<and> at_want_fin p then
         bind_res (pipe_send_fin io (at_io p) w)
           (\<lambda>(r, q, w).
             Ok ((if r < 0 \<and> broken (pipe_flags io q) then events OR IO_EV_broken else events)
                   AND NOT IO_EV_writable,
                 p\<lparr>at_io := q\<rparr>, w))
       else Ok (events, p, w))"

definition atx_pipe_on_activity ::
  "('p, 'w) io_pipe \<Rightarrow> 'p atx_pipe \<Rightarrow> uint \<Rightarrow> 'w \<Rightarrow> (uint option \<times> 'p atx_pipe \<times> 'w) res" where
  "atx_pipe_on_activity io p events w =
     bind_res
       (case at_pending p of
          Some buf \<Rightarrow>
            (if has events IO_EV_writable
             then bind_res (atx_flush io p buf events w) (atx_flush_fin io)
             else Ok (events, p, w))
        | None \<Rightarrow> Ok (events, p, w))
       (\<lambda>(events, p, w).
         let p = atx_pipe_clone_state io p in
         if events = 0 then Ok (None, p, w)
         else if at_hooked p then Ok (Some events, p, w)
         else Stop Null_dereference)"

definition atx_event ::
  "('p, 'w) io_pipe \<Rightarrow> 'p atx_pipe \<Rightarrow> uint \<Rightarrow> 'w \<Rightarrow> (uint option \<times> 'p atx_pipe \<times> 'w) res" where
  "atx_event io p ev w =
     bind_res (pipe_event io (at_io p) ev w)
       (\<lambda>(up, q, w).
         case up of
           None \<Rightarrow> Ok (None, p\<lparr>at_io := q\<rparr>, w)
         | Some events \<Rightarrow> atx_pipe_on_activity io (p\<lparr>at_io := q\<rparr>) events w)"

definition atx_api :: "('p, 'w) io_pipe \<Rightarrow> ('p atx_pipe, 'w) io_pipe" where
  "atx_api io =
     \<lparr>pipe_flags = at_base, pipe_hook = (\<lambda>p. p\<lparr>at_hooked := True\<rparr>), pipe_init = atx_pipe_init io,
      pipe_recv = atx_pipe_recv io, pipe_send = atx_pipe_send io,
      pipe_send_fin = atx_pipe_send_fin io, pipe_discard = atx_pipe_discard io,
      pipe_event = atx_event io\<rparr>"

section \<open>The invariant\<close>

text \<open>
  The state bits mirror those of the pipe below, but for \<open>writable\<close> while data is pending, and
  but for a \<open>fin_sent\<close> raised below by an event that was not announced.
\<close>

definition stale_of :: "pipe_flags \<Rightarrow> pipe_flags \<Rightarrow> bool" where
  "stale_of f g \<longleftrightarrow> (fin_sent f \<longrightarrow> fin_sent g) \<and> f\<lparr>fin_sent := fin_sent g\<rparr> = g"

definition atx_inv ::
  "('p, 'w) io_pipe \<Rightarrow> ('p \<Rightarrow> 'w \<Rightarrow> bool) \<Rightarrow> ('p \<Rightarrow> bool) \<Rightarrow> nat \<Rightarrow> 'p atx_pipe \<Rightarrow> 'w \<Rightarrow> bool" where
  "atx_inv io io_inv fin_asked lim p w \<longleftrightarrow>
     io_inv (at_io p) w \<and> at_hooked p \<and>
     stale_of (at_base p)
       (if at_pending p = None then pipe_flags io (at_io p)
        else (pipe_flags io (at_io p))\<lparr>writable := False\<rparr>) \<and>
     (case at_pending p of
        None \<Rightarrow> at_want_fin p \<longrightarrow> fin_asked (at_io p)
      | Some b \<Rightarrow> wf_buf b \<and> 0 < buf_size b \<and> buf_size b \<le> lim \<and> ready (pipe_flags io (at_io p)) \<and>
          \<not> fin_asked (at_io p))"

definition atx_sent :: "('p \<Rightarrow> 'w \<Rightarrow> byte list) \<Rightarrow> 'p atx_pipe \<Rightarrow> 'w \<Rightarrow> byte list" where
  "atx_sent sent p w = sent (at_io p) w @ pending_bytes (at_pending p)"

definition atx_fin_asked :: "('p \<Rightarrow> bool) \<Rightarrow> 'p atx_pipe \<Rightarrow> bool" where
  "atx_fin_asked fin_asked p \<longleftrightarrow> fin_asked (at_io p) \<or> at_want_fin p"


section \<open>Lemmas\<close>

lemma atx_api_sel [simp]:
  "pipe_flags (atx_api io) = at_base"
  "pipe_init (atx_api io) = atx_pipe_init io"
  "pipe_recv (atx_api io) = atx_pipe_recv io"
  "pipe_send (atx_api io) = atx_pipe_send io"
  "pipe_send_fin (atx_api io) = atx_pipe_send_fin io"
  "pipe_discard (atx_api io) = atx_pipe_discard io"
  "pipe_event (atx_api io) = atx_event io"
  by (simp_all add: atx_api_def)

lemma stale_of_refl [simp]: "stale_of f f"
  by (cases f) (simp add: stale_of_def)

lemma stale_of_sel:
  assumes "stale_of f g"
  shows "ready f = ready g" "broken f = broken g" "readable f = readable g"
    "fin_rcvd f = fin_rcvd g" "writable f = writable g" "fin_sent f \<Longrightarrow> fin_sent g"
  using assms by (cases f; cases g; simp add: stale_of_def)+

lemma stale_ofI:
  "ready f = ready g \<Longrightarrow> broken f = broken g \<Longrightarrow> readable f = readable g \<Longrightarrow>
   fin_rcvd f = fin_rcvd g \<Longrightarrow> writable f = writable g \<Longrightarrow> (fin_sent f \<Longrightarrow> fin_sent g) \<Longrightarrow> stale_of f g"
  by (cases f; cases g) (simp add: stale_of_def)

text \<open>The state after \<open>atx_pipe_clone_state\<close>.\<close>

lemma atx_pipe_clone_state_sel [simp]:
  "at_base (atx_pipe_clone_state io p) =
     (if at_pending p = None then pipe_flags io (at_io p)
      else (pipe_flags io (at_io p))\<lparr>writable := False\<rparr>)"
  "at_hooked (atx_pipe_clone_state io p) = at_hooked p"
  "at_io (atx_pipe_clone_state io p) = at_io p"
  "at_pending (atx_pipe_clone_state io p) = at_pending p"
  "at_want_fin (atx_pipe_clone_state io p) = at_want_fin p"
  by (simp_all add: atx_pipe_clone_state_def Let_def)

context pipe_contract begin

text \<open>The invariant and the histories of an atx pipe over this pipe.\<close>

abbreviation "atxi \<equiv> atx_inv api inv fin_asked lim"
abbreviation "atxs \<equiv> atx_sent sent"
abbreviation "atxf \<equiv> atx_fin_asked fin_asked"

lemma atx_flags:
  assumes "atxi p w"
  shows "flags_ok (at_base p)"
    and "atxf p \<Longrightarrow> \<not> writable (at_base p)"
    and "fin_sent (at_base p) \<Longrightarrow> atxf p"
proof -
  have below: "inv (at_io p) w"
    using assms by (simp add: atx_inv_def)
  note ok = flags [OF below]
  have stale: "stale_of (at_base p)
      (if at_pending p = None then pipe_flags api (at_io p)
       else (pipe_flags api (at_io p))\<lparr>writable := False\<rparr>)"
    using assms by (simp add: atx_inv_def)
  note same = stale_of_sel [OF stale]
  show "flags_ok (at_base p)"
    using ok same by (auto simp: flags_ok_def split: if_splits)
  show "\<not> writable (at_base p)" if "atxf p"
    using that same fin_asked_not_writable [OF below] assms
    by (auto simp: atx_inv_def atx_fin_asked_def split: option.splits if_splits)
  show "atxf p" if "fin_sent (at_base p)"
    using that same fin_sent_asked [OF below] by (auto simp: atx_fin_asked_def split: if_splits)
qed

lemma atx_recv_law:
  assumes inv: "atxi p w" and rd: "readable (at_base p)" and n: "rmin \<le> n" "n \<le> lim"
  shows "\<exists>r bs p' w'. atx_pipe_recv api p n w = Ok (r, bs, p', w') \<and>
    recv_report n r bs (at_base p) (at_base p') \<and>
    rcvd (at_io p') w' = rcvd (at_io p) w @ bs \<and>
    atxs p' w' = atxs p w \<and> input (at_io p') w' = input (at_io p) w \<and>
    ep (at_io p') = ep (at_io p) \<and> atxf p' = atxf p \<and>
    (\<forall>e. e \<noteq> ep (at_io p) \<longrightarrow> agree e w w') \<and> work (at_io p') w' + length bs < work (at_io p) w \<and>
    (broken (at_base p') \<or> atxi p' w' \<and> same_tx (at_base p) (at_base p'))"
proof -
  have below: "inv (at_io p) w"
    and stale: "stale_of (at_base p)
      (if at_pending p = None then pipe_flags api (at_io p)
       else (pipe_flags api (at_io p))\<lparr>writable := False\<rparr>)"
    using inv by (simp_all add: atx_inv_def)
  note same = stale_of_sel [OF stale]
  have "readable (pipe_flags api (at_io p))"
    using rd same by (simp split: if_splits)
  then obtain r bs q w' where call: "pipe_recv api (at_io p) n w = Ok (r, bs, q, w')"
    and report: "recv_report n r bs (pipe_flags api (at_io p)) (pipe_flags api q)"
    and hist: "rcvd q w' = rcvd (at_io p) w @ bs \<and> input q w' = input (at_io p) w" "sent q w' = sent (at_io p) w"
      "ep q = ep (at_io p)" "fin_asked q = fin_asked (at_io p)"
      "\<forall>e. e \<noteq> ep (at_io p) \<longrightarrow> agree e w w'" "work q w' + length bs < work (at_io p) w"
    and keep: "broken (pipe_flags api q) \<or>
      inv q w' \<and> same_tx (pipe_flags api (at_io p)) (pipe_flags api q)"
    using recv_law [OF below _ n] by blast
  let ?p = "atx_pipe_clone_state api (p\<lparr>at_io := q\<rparr>)"
  have "recv_report n r bs (at_base p) (at_base ?p)"
    using report same by (auto simp: recv_report_def broken_ok_def)
  moreover have "atxi ?p w' \<and> same_tx (at_base p) (at_base ?p)" if "\<not> broken (pipe_flags api q)"
    using keep that inv same hist(4)
    by (auto simp: atx_inv_def same_tx_def split: option.splits)
  ultimately show ?thesis
    using call hist by (auto simp: atx_pipe_recv_def atx_sent_def atx_fin_asked_def)
qed

text \<open>\<open>send\<close> is atomic: it takes everything, or nothing.\<close>

lemma atx_send_atomic:
  assumes inv: "atxi p w" and wr: "writable (at_base p)" and n: "0 < length bs" "length bs \<le> lim"
  shows "\<exists>r p' w'. atx_pipe_send api p bs w = Ok (r, p', w') \<and>
    (r = -1 \<and> \<not> writable (at_base p') \<and> atxs p' w' = atxs p w \<or>
     r = int (length bs) \<and> \<not> broken (at_base p') \<and> atxs p' w' = atxs p w @ bs) \<and>
    rcvd (at_io p') w' = rcvd (at_io p) w \<and> input (at_io p') w' = input (at_io p) w \<and>
    ep (at_io p') = ep (at_io p) \<and> atxf p' = atxf p \<and> broken_ok (at_base p') \<and>
    (\<forall>e. e \<noteq> ep (at_io p) \<longrightarrow> agree e w w') \<and> work (at_io p') w' \<le> work (at_io p) w \<and>
    (broken (at_base p') \<or> atxi p' w' \<and> same_rx (at_base p) (at_base p'))"
proof -
  have below: "inv (at_io p) w" and hooked: "at_hooked p"
    and stale: "stale_of (at_base p)
      (if at_pending p = None then pipe_flags api (at_io p)
       else (pipe_flags api (at_io p))\<lparr>writable := False\<rparr>)"
    using inv by (simp_all add: atx_inv_def)
  note same = stale_of_sel [OF stale]
  have none: "at_pending p = None" and wr_io: "writable (pipe_flags api (at_io p))"
    using wr same by (auto split: if_splits)
  have small: "length bs < 2 ^ 31" using n lim_small by simp
  have rdy: "ready (pipe_flags api (at_io p))" and not_asked: "\<not> fin_asked (at_io p)"
    using flags [OF below] wr_io fin_asked_not_writable [OF below] by (auto simp: flags_ok_def)
  obtain r q w' where call: "pipe_send api (at_io p) bs w = Ok (r, q, w')"
    and report: "send_report (length bs) r (pipe_flags api q)"
    and hist: "sent q w' = sent (at_io p) w @ take (nat r) bs" "rcvd q w' = rcvd (at_io p) w \<and> input q w' = input (at_io p) w"
      "ep q = ep (at_io p)" "fin_asked q = fin_asked (at_io p)"
      "(\<forall>e. e \<noteq> ep (at_io p) \<longrightarrow> agree e w w') \<and> work q w' \<le> work (at_io p) w"
    and keep: "broken (pipe_flags api q) \<or>
      inv q w' \<and> same_rx (pipe_flags api (at_io p)) (pipe_flags api q)"
    using send_law [OF below wr_io n] by blast
  have r: "-1 \<le> r" "r \<le> int (length bs)" "r < int (length bs) \<Longrightarrow> \<not> writable (pipe_flags api q)"
    "0 \<le> r \<Longrightarrow> \<not> broken (pipe_flags api q)" "broken_ok (pipe_flags api q)"
    using report by (auto simp: send_report_def)
  have wf: "at_want_fin p \<Longrightarrow> fin_asked (at_io p)"
    using inv none by (simp add: atx_inv_def)
  let ?p = "atx_pipe_clone_state api (p\<lparr>at_io := q\<rparr>)"
  have rx: "same_rx (pipe_flags api (at_io p)) (pipe_flags api q) \<Longrightarrow>
      same_rx (at_base p) (pipe_flags api q)"
    using same none by (simp add: same_rx_def)
  consider (err) "r = -1" | (all) "r = int (length bs)" | (part) "0 \<le> r" "r < int (length bs)"
    using r(1,2) by linarith
  then show ?thesis
  proof cases
    case err
    then have "atx_pipe_send api p bs w = Ok (-1, ?p, w')"
      using none call by (simp add: atx_pipe_send_def)
    with err show ?thesis
      using r(3,5) n(1) hist keep rx hooked none wf
      by (auto simp: atx_inv_def atx_sent_def atx_fin_asked_def)
  next
    case all
    then have "atx_pipe_send api p bs w = Ok (int (length bs), ?p, w')"
      using none call small by (simp add: atx_pipe_send_def c_simps)
    with all show ?thesis
      using r(4,5) hist keep rx hooked none wf
      by (auto simp: atx_inv_def atx_sent_def atx_fin_asked_def)
  next
    case part
    define m where "m = nat r"
    have m: "r = int m" "m < length bs" using part by (simp_all add: m_def)
    obtain b where alloc: "alloc_io_buffer (length bs - m) (Some (drop m bs)) (length bs - m) = Ok b"
      and b: "wf_buf b" "buf_size b = length bs - m" "buf_bytes b = take (length bs - m) (drop m bs)"
      using alloc_io_buffer_Some [of "length bs - m" "length bs - m" "drop m bs"] by auto
    have "\<not> writable (pipe_flags api q)" "\<not> broken (pipe_flags api q)"
      using part r(3,4) by simp_all
    then have "atx_pipe_send api p bs w = Ok (int (length bs), ?p\<lparr>at_pending := Some b\<rparr>, w')"
      using none call small m alloc by (simp add: atx_pipe_send_def c_simps)
    moreover have "atxi (?p\<lparr>at_pending := Some b\<rparr>) w'"
      using keep hooked none b m n(2) rdy not_asked hist(4)
        \<open>\<not> writable (pipe_flags api q)\<close> \<open>\<not> broken (pipe_flags api q)\<close>
      by (auto simp: atx_inv_def same_rx_def intro: stale_ofI)
    ultimately show ?thesis
      using r(5) hist keep rx none b m \<open>\<not> broken (pipe_flags api q)\<close>
      by (auto simp: atx_sent_def atx_fin_asked_def)
  qed
qed

lemma atx_send_fin_law:
  assumes inv: "atxi p w" and fin: "\<not> atxf p" and rdy: "ready (at_base p)"
  shows "\<exists>r p' w'. atx_pipe_send_fin api p w = Ok (r, p', w') \<and>
    atxs p' w' = atxs p w \<and> rcvd (at_io p') w' = rcvd (at_io p) w \<and> input (at_io p') w' = input (at_io p) w \<and>
    ep (at_io p') = ep (at_io p) \<and> (\<forall>e. e \<noteq> ep (at_io p) \<longrightarrow> agree e w w') \<and> work (at_io p') w' \<le> work (at_io p) w \<and>
    broken_ok (at_base p') \<and>
    (r < 0 \<and> broken (at_base p') \<or>
     0 \<le> r \<and> atxf p' \<and> atxi p' w' \<and> same_rx (at_base p) (at_base p'))"
proof -
  have below: "inv (at_io p) w" and hooked: "at_hooked p"
    and stale: "stale_of (at_base p)
      (if at_pending p = None then pipe_flags api (at_io p)
       else (pipe_flags api (at_io p))\<lparr>writable := False\<rparr>)"
    using inv by (simp_all add: atx_inv_def)
  note same = stale_of_sel [OF stale]
  have guard: "\<not> fin_sent (at_base p)" "\<not> at_want_fin p" "\<not> fin_asked (at_io p)"
    using fin atx_flags(3) [OF inv] by (auto simp: atx_fin_asked_def)
  show ?thesis
  proof (cases "at_pending p")
    case (Some b)
    have "atx_pipe_send_fin api p w = Ok (0, p\<lparr>at_want_fin := True\<rparr>, w)"
      using guard Some by (simp add: atx_pipe_send_fin_def)
    moreover have "broken_ok (at_base p)"
      using atx_flags(1) [OF inv] by (simp add: flags_ok_def broken_ok_def)
    ultimately show ?thesis
      using inv Some agree_refl
      by (auto simp: atx_inv_def atx_sent_def atx_fin_asked_def same_rx_def)
  next
    case None
    then have rdy_io: "ready (pipe_flags api (at_io p))"
      using rdy same by simp
    obtain r q w' where call: "pipe_send_fin api (at_io p) w = Ok (r, q, w')"
      and hist: "sent q w' = sent (at_io p) w" "rcvd q w' = rcvd (at_io p) w \<and> input q w' = input (at_io p) w"
        "ep q = ep (at_io p)" "(\<forall>e. e \<noteq> ep (at_io p) \<longrightarrow> agree e w w') \<and> work q w' \<le> work (at_io p) w"
        "broken_ok (pipe_flags api q)"
      and keep: "r < 0 \<and> broken (pipe_flags api q) \<or>
        0 \<le> r \<and> fin_asked q \<and> inv q w' \<and> same_rx (pipe_flags api (at_io p)) (pipe_flags api q)"
      using send_fin_law [OF below guard(3) rdy_io] by blast
    with None guard hooked same show ?thesis
      by (auto simp: atx_pipe_send_fin_def atx_inv_def atx_sent_def atx_fin_asked_def same_rx_def)
  qed
qed

text \<open>
  The flush: given a pipe below that just became writable, the pending bytes move down, in
  order, and the event mask keeps \<open>IO_EV_writable\<close> only when the atx pipe is writable after it.
\<close>

lemma atx_flush_step:
  assumes below: "inv (at_io p) w" and wr: "writable (pipe_flags api (at_io p))"
    and b: "wf_buf b" "0 < buf_size b" "buf_size b \<le> lim"
    and pend: "at_pending p = Some b" and asked: "\<not> fin_asked (at_io p)"
    and ev: "has events IO_EV_writable" "\<not> has events IO_EV_broken"
  obtains ev' p' w' where "atx_flush api p b events w = Ok (ev', p', w')"
    "at_hooked p' = at_hooked p" "at_want_fin p' = at_want_fin p"
    "fin_asked (at_io p') = fin_asked (at_io p)"
    "atxs p' w' = atxs p w" "rcvd (at_io p') w' = rcvd (at_io p) w \<and> input (at_io p') w' = input (at_io p) w" "ep (at_io p') = ep (at_io p)"
    "(\<forall>e. e \<noteq> ep (at_io p) \<longrightarrow> agree e w w') \<and> work (at_io p') w' \<le> work (at_io p) w" "broken_ok (pipe_flags api (at_io p'))"
    "has ev' IO_EV_readable = has events IO_EV_readable" "has ev' IO_EV_ready = has events IO_EV_ready"
    "has ev' IO_EV_broken = broken (pipe_flags api (at_io p'))"
    "has ev' IO_EV_writable = (at_pending p' = None \<and> writable (pipe_flags api (at_io p')))"
    "broken (pipe_flags api (at_io p')) \<Longrightarrow> at_pending p' \<noteq> None"
    "broken (pipe_flags api (at_io p')) \<or> inv (at_io p') w' \<and>
      same_rx (pipe_flags api (at_io p)) (pipe_flags api (at_io p'))"
    "\<And>b'. at_pending p' = Some b' \<Longrightarrow> wf_buf b' \<and> 0 < buf_size b' \<and> buf_size b' \<le> lim"
proof -
  have len: "0 < length (buf_bytes b)" "length (buf_bytes b) \<le> lim" and small: "buf_size b < 2 ^ 31"
    using b lim_small by simp_all
  obtain r q w' where call: "pipe_send api (at_io p) (buf_bytes b) w = Ok (r, q, w')"
    and report: "send_report (length (buf_bytes b)) r (pipe_flags api q)"
    and hist: "sent q w' = sent (at_io p) w @ take (nat r) (buf_bytes b)"
      "rcvd q w' = rcvd (at_io p) w \<and> input q w' = input (at_io p) w" "ep q = ep (at_io p)" "fin_asked q = fin_asked (at_io p)"
      "(\<forall>e. e \<noteq> ep (at_io p) \<longrightarrow> agree e w w') \<and> work q w' \<le> work (at_io p) w"
    and keep: "broken (pipe_flags api q) \<or>
      inv q w' \<and> same_rx (pipe_flags api (at_io p)) (pipe_flags api q)"
    using send_law [OF below wr len] by blast
  have r: "-1 \<le> r" "r \<le> int (buf_size b)" "r < int (buf_size b) \<Longrightarrow> \<not> writable (pipe_flags api q)"
    "0 \<le> r \<Longrightarrow> \<not> broken (pipe_flags api q)" "broken_ok (pipe_flags api q)"
    using report b by (auto simp: send_report_def)
  consider (err) "r = -1" | (all) "r = int (buf_size b)" | (part) "0 \<le> r" "r < int (buf_size b)"
    using r(1,2) by linarith
  then show ?thesis
  proof cases
    case err
    then have "atx_flush api p b events w =
        Ok ((if broken (pipe_flags api q) then events OR IO_EV_broken else events) AND NOT IO_EV_writable,
            p\<lparr>at_io := q\<rparr>, w')"
      using call by (simp add: atx_flush_def)
    then show ?thesis
      by (rule that) (use err r hist keep pend b ev in \<open>auto simp: atx_sent_def word_flags\<close>)
  next
    case all
    then have "atx_flush api p b events w =
        Ok (if \<not> writable (pipe_flags api q) then events AND NOT IO_EV_writable else events,
            p\<lparr>at_io := q, at_pending := None\<rparr>, w')"
      using call small by (simp add: atx_flush_def c_simps)
    then show ?thesis
      by (rule that) (use all r hist keep pend b ev in \<open>auto simp: atx_sent_def word_flags\<close>)
  next
    case part
    then have "atx_flush api p b events w =
        Ok (events AND NOT IO_EV_writable,
            p\<lparr>at_io := q, at_pending := Some (buf_consume (nat r) b)\<rparr>, w')"
      using call small by (simp add: atx_flush_def c_simps)
    then show ?thesis
      by (rule that) (use part r hist keep pend b ev in \<open>auto simp: atx_sent_def word_flags\<close>)
  qed
qed

lemma atx_flush_fin_step:
  assumes below: "broken (pipe_flags api (at_io p)) \<and> at_pending p \<noteq> None \<or>
      inv (at_io p) w \<and> ready (pipe_flags api (at_io p))"
    and bok: "broken_ok (pipe_flags api (at_io p))" and asked: "\<not> fin_asked (at_io p)"
    and ev: "has events IO_EV_broken = broken (pipe_flags api (at_io p))"
      "has events IO_EV_writable = (at_pending p = None \<and> writable (pipe_flags api (at_io p)))"
  obtains ev' p' w' where "atx_flush_fin api (events, p, w) = Ok (ev', p', w')"
    "at_hooked p' = at_hooked p" "at_want_fin p' = at_want_fin p" "at_pending p' = at_pending p"
    "atxs p' w' = atxs p w" "rcvd (at_io p') w' = rcvd (at_io p) w \<and> input (at_io p') w' = input (at_io p) w" "ep (at_io p') = ep (at_io p)"
    "(\<forall>e. e \<noteq> ep (at_io p) \<longrightarrow> agree e w w') \<and> work (at_io p') w' \<le> work (at_io p) w" "broken_ok (pipe_flags api (at_io p'))"
    "has ev' IO_EV_readable = has events IO_EV_readable" "has ev' IO_EV_ready = has events IO_EV_ready"
    "has ev' IO_EV_broken = broken (pipe_flags api (at_io p'))"
    "has ev' IO_EV_writable = (at_pending p' = None \<and> writable (pipe_flags api (at_io p')))"
    "broken (pipe_flags api (at_io p')) \<or> inv (at_io p') w' \<and>
      same_rx (pipe_flags api (at_io p)) (pipe_flags api (at_io p'))"
    "\<not> broken (pipe_flags api (at_io p')) \<Longrightarrow>
      fin_asked (at_io p') = (at_pending p = None \<and> at_want_fin p)"
    "atxf p' = atxf p" "broken (pipe_flags api (at_io p)) \<Longrightarrow> broken (pipe_flags api (at_io p'))"
proof (cases "at_pending p = None \<and> at_want_fin p")
  case False
  then have "atx_flush_fin api (events, p, w) = Ok (events, p, w)"
    by (auto simp: atx_flush_fin_def)
  then show ?thesis
    by (rule that) (use False below bok asked ev agree_refl in \<open>auto simp: same_rx_def\<close>)
next
  case True
  then have io: "inv (at_io p) w" "ready (pipe_flags api (at_io p))" "\<not> broken (pipe_flags api (at_io p))"
    using below flags by (auto simp: flags_ok_def)
  obtain r q w' where call: "pipe_send_fin api (at_io p) w = Ok (r, q, w')"
    and hist: "sent q w' = sent (at_io p) w" "rcvd q w' = rcvd (at_io p) w \<and> input q w' = input (at_io p) w"
      "ep q = ep (at_io p)" "(\<forall>e. e \<noteq> ep (at_io p) \<longrightarrow> agree e w w') \<and> work q w' \<le> work (at_io p) w"
      "broken_ok (pipe_flags api q)"
    and keep: "r < 0 \<and> broken (pipe_flags api q) \<or>
      0 \<le> r \<and> fin_asked q \<and> inv q w' \<and> same_rx (pipe_flags api (at_io p)) (pipe_flags api q)"
    using send_fin_law [OF io(1) asked io(2)] by blast
  then have quiet: "\<not> writable (pipe_flags api q)"
    using fin_asked_not_writable by (auto simp: broken_ok_def)
  have step: "atx_flush_fin api (events, p, w) =
      Ok ((if r < 0 \<and> broken (pipe_flags api q) then events OR IO_EV_broken else events)
            AND NOT IO_EV_writable, p\<lparr>at_io := q\<rparr>, w')"
    using True call by (simp add: atx_flush_fin_def)
  have br: "broken (pipe_flags api q) \<longleftrightarrow> r < 0"
    using keep flags by (auto simp: flags_ok_def)
  from step show ?thesis
    by (rule that)
       (use True br hist keep quiet ev io asked in \<open>auto simp: word_flags atx_sent_def atx_fin_asked_def\<close>)
qed

text \<open>Both halves of the flush together.\<close>

lemma atx_flush_both:
  assumes below: "inv (at_io p) w" and wr: "writable (pipe_flags api (at_io p))"
    and b: "wf_buf b" "0 < buf_size b" "buf_size b \<le> lim"
    and pend: "at_pending p = Some b" and asked: "\<not> fin_asked (at_io p)"
    and ev: "has events IO_EV_writable" "\<not> has events IO_EV_broken"
  obtains ev' p' w' where
    "bind_res (atx_flush api p b events w) (atx_flush_fin api) = Ok (ev', p', w')"
    "at_hooked p' = at_hooked p" "atxf p' = atxf p"
    "atxs p' w' = atxs p w" "rcvd (at_io p') w' = rcvd (at_io p) w \<and> input (at_io p') w' = input (at_io p) w" "ep (at_io p') = ep (at_io p)"
    "(\<forall>e. e \<noteq> ep (at_io p) \<longrightarrow> agree e w w') \<and> work (at_io p') w' \<le> work (at_io p) w" "broken_ok (pipe_flags api (at_io p'))"
    "has ev' IO_EV_readable = has events IO_EV_readable" "has ev' IO_EV_ready = has events IO_EV_ready"
    "has ev' IO_EV_broken = broken (pipe_flags api (at_io p'))"
    "has ev' IO_EV_writable = (at_pending p' = None \<and> writable (pipe_flags api (at_io p')))"
    "broken (pipe_flags api (at_io p')) \<or> inv (at_io p') w' \<and>
      same_rx (pipe_flags api (at_io p)) (pipe_flags api (at_io p')) \<and>
      (case at_pending p' of None \<Rightarrow> at_want_fin p' \<longrightarrow> fin_asked (at_io p')
       | Some b' \<Rightarrow> wf_buf b' \<and> 0 < buf_size b' \<and> buf_size b' \<le> lim \<and>
           ready (pipe_flags api (at_io p')) \<and> \<not> fin_asked (at_io p'))"
proof -
  have rdy: "ready (pipe_flags api (at_io p))"
    using flags [OF below] wr by (simp add: flags_ok_def)
  obtain e2 p2 w2 where flush: "atx_flush api p b events w = Ok (e2, p2, w2)"
    "at_hooked p2 = at_hooked p" "at_want_fin p2 = at_want_fin p"
    "fin_asked (at_io p2) = fin_asked (at_io p)"
    "atxs p2 w2 = atxs p w" "rcvd (at_io p2) w2 = rcvd (at_io p) w \<and> input (at_io p2) w2 = input (at_io p) w"
    "ep (at_io p2) = ep (at_io p)" "(\<forall>e. e \<noteq> ep (at_io p) \<longrightarrow> agree e w w2) \<and> work (at_io p2) w2 \<le> work (at_io p) w"
    "broken_ok (pipe_flags api (at_io p2))"
    "has e2 IO_EV_readable = has events IO_EV_readable" "has e2 IO_EV_ready = has events IO_EV_ready"
    "has e2 IO_EV_broken = broken (pipe_flags api (at_io p2))"
    "has e2 IO_EV_writable = (at_pending p2 = None \<and> writable (pipe_flags api (at_io p2)))"
    "broken (pipe_flags api (at_io p2)) \<Longrightarrow> at_pending p2 \<noteq> None"
    "broken (pipe_flags api (at_io p2)) \<or> inv (at_io p2) w2 \<and>
      same_rx (pipe_flags api (at_io p)) (pipe_flags api (at_io p2))"
    "\<And>b'. at_pending p2 = Some b' \<Longrightarrow> wf_buf b' \<and> 0 < buf_size b' \<and> buf_size b' \<le> lim"
    by (rule atx_flush_step [OF assms], rule that)
  obtain e3 p3 w3 where fin: "atx_flush_fin api (e2, p2, w2) = Ok (e3, p3, w3)"
    "at_hooked p3 = at_hooked p2" "at_want_fin p3 = at_want_fin p2" "at_pending p3 = at_pending p2"
    "atxs p3 w3 = atxs p2 w2" "rcvd (at_io p3) w3 = rcvd (at_io p2) w2 \<and> input (at_io p3) w3 = input (at_io p2) w2"
    "ep (at_io p3) = ep (at_io p2)"
    "(\<forall>e. e \<noteq> ep (at_io p2) \<longrightarrow> agree e w2 w3) \<and> work (at_io p3) w3 \<le> work (at_io p2) w2" "broken_ok (pipe_flags api (at_io p3))"
    "has e3 IO_EV_readable = has e2 IO_EV_readable" "has e3 IO_EV_ready = has e2 IO_EV_ready"
    "has e3 IO_EV_broken = broken (pipe_flags api (at_io p3))"
    "has e3 IO_EV_writable = (at_pending p3 = None \<and> writable (pipe_flags api (at_io p3)))"
    "broken (pipe_flags api (at_io p3)) \<or> inv (at_io p3) w3 \<and>
      same_rx (pipe_flags api (at_io p2)) (pipe_flags api (at_io p3))"
    "\<not> broken (pipe_flags api (at_io p3)) \<Longrightarrow>
      fin_asked (at_io p3) = (at_pending p2 = None \<and> at_want_fin p2)"
    "atxf p3 = atxf p2" "broken (pipe_flags api (at_io p2)) \<Longrightarrow> broken (pipe_flags api (at_io p3))"
    by (rule atx_flush_fin_step [of p2 w2 e2]) (use flush rdy asked in \<open>auto simp: same_rx_def\<close>)
  have "\<forall>e. e \<noteq> ep (at_io p) \<longrightarrow> agree e w w3"
    using flush(7,8) fin(8) by (metis agree_trans)
  then have ag: "(\<forall>e. e \<noteq> ep (at_io p) \<longrightarrow> agree e w w3) \<and> work (at_io p3) w3 \<le> work (at_io p) w"
    using flush(8) fin(8) le_trans by blast
  show ?thesis
  proof (rule that [of e3 p3 w3])
    show "bind_res (atx_flush api p b events w) (atx_flush_fin api) = Ok (e3, p3, w3)"
      using flush(1) fin(1) by simp
    show "(\<forall>e. e \<noteq> ep (at_io p) \<longrightarrow> agree e w w3) \<and> work (at_io p3) w3 \<le> work (at_io p) w"
      by (rule ag)
    show "atxf p3 = atxf p"
      using flush(3,4) fin(16) by (simp add: atx_fin_asked_def)
    show "broken (pipe_flags api (at_io p3)) \<or> inv (at_io p3) w3 \<and>
      same_rx (pipe_flags api (at_io p)) (pipe_flags api (at_io p3)) \<and>
      (case at_pending p3 of None \<Rightarrow> at_want_fin p3 \<longrightarrow> fin_asked (at_io p3)
       | Some b' \<Rightarrow> wf_buf b' \<and> 0 < buf_size b' \<and> buf_size b' \<le> lim \<and>
           ready (pipe_flags api (at_io p3)) \<and> \<not> fin_asked (at_io p3))"
    proof (cases "broken (pipe_flags api (at_io p3))")
      case False
      then have "\<not> broken (pipe_flags api (at_io p2))" using fin(17) by blast
      then have "same_rx (pipe_flags api (at_io p)) (pipe_flags api (at_io p2))"
        using flush(15) by blast
      moreover have "inv (at_io p3) w3" "same_rx (pipe_flags api (at_io p2)) (pipe_flags api (at_io p3))"
        using False fin(14) by blast+
      ultimately show ?thesis
        using rdy fin(3,4,15) flush(16) False
        by (auto simp: same_rx_def split: option.split)
    qed simp
  qed (use flush fin ag in \<open>simp_all only:\<close>)
qed

text \<open>The end of the callback: the state bits are copied up and the mask, if any is left, handed on.\<close>

lemma atx_callback:
  assumes hooked: "at_hooked p'"
    and bok: "broken_ok (pipe_flags api (at_io p'))"
    and report: "if broken (pipe_flags api (at_io p'))
      then has e IO_EV_broken \<and> \<not> has e IO_EV_writable
      else \<not> has e IO_EV_broken \<and> fin_rcvd (pipe_flags api (at_io p')) = fin_rcvd f \<and>
        (fin_sent f \<longrightarrow> fin_sent (pipe_flags api (at_io p'))) \<and>
        (ready (pipe_flags api (at_io p')) \<longleftrightarrow> ready f \<or> has e IO_EV_ready) \<and>
        (readable (pipe_flags api (at_io p')) \<longleftrightarrow> readable f \<or> has e IO_EV_readable) \<and>
        (at_pending p' = None \<and> writable (pipe_flags api (at_io p')) \<longleftrightarrow>
          writable f \<or> has e IO_EV_writable)"
  obtains up where "(let p = atx_pipe_clone_state api p' in
      if e = 0 then Ok (None, p, w)
      else if at_hooked p then Ok (Some e, p, w) else Stop Null_dereference) =
      Ok (up, atx_pipe_clone_state api p', w)"
    "event_report up f (at_base (atx_pipe_clone_state api p'))"
proof -
  have up: "up_has (if e = 0 then None else Some e) x = has e x" for x
    by simp
  have "event_report (if e = 0 then None else Some e) f (at_base (atx_pipe_clone_state api p'))"
    using bok report unfolding event_report_def up by (auto simp: broken_ok_def)
  then show ?thesis
    using that [of "if e = 0 then None else Some e"] hooked by (auto simp: Let_def)
qed

text \<open>
  The callback after an event left the pipe below in state \<open>q\<close>, first when there is nothing to
  flush, then when there is.
\<close>

lemma atx_activity_quiet:
  assumes inv: "atxi p w" and report: "event_report (Some e) (pipe_flags api (at_io p)) (pipe_flags api q)"
    and asked: "fin_asked q = fin_asked (at_io p)" and keep: "broken (pipe_flags api q) \<or> inv q w1"
    and quiet: "at_pending p = None \<or> \<not> has e IO_EV_writable"
  shows "\<exists>up p' w'. atx_pipe_on_activity api (p\<lparr>at_io := q\<rparr>) e w1 = Ok (up, p', w') \<and>
    event_report up (at_base p) (at_base p') \<and>
    atxs p' w' = sent q w1 @ pending_bytes (at_pending p) \<and> rcvd (at_io p') w' = rcvd q w1 \<and> input (at_io p') w' = input q w1 \<and>
    ep (at_io p') = ep q \<and> atxf p' = atxf p \<and> (\<forall>e. e \<noteq> ep q \<longrightarrow> agree e w1 w') \<and> work (at_io p') w' \<le> work q w1 \<and>
    (broken (at_base p') \<or> atxi p' w')"
proof -
  let ?p1 = "p\<lparr>at_io := q\<rparr>"
  have hooked: "at_hooked p"
    and stale: "stale_of (at_base p)
      (if at_pending p = None then pipe_flags api (at_io p)
       else (pipe_flags api (at_io p))\<lparr>writable := False\<rparr>)"
    using inv by (simp_all add: atx_inv_def)
  note same = stale_of_sel [OF stale]
  obtain up where cb: "(let p = atx_pipe_clone_state api ?p1 in
      if e = 0 then Ok (None, p, w1)
      else if at_hooked p then Ok (Some e, p, w1) else Stop Null_dereference) =
      Ok (up, atx_pipe_clone_state api ?p1, w1)"
    "event_report up (at_base p) (at_base (atx_pipe_clone_state api ?p1))"
    by (rule atx_callback [of ?p1 e "at_base p" w1])
      (use report same hooked quiet in \<open>auto simp: event_report_def split: if_splits\<close>)
  have "atx_pipe_on_activity api ?p1 e w1 = Ok (up, atx_pipe_clone_state api ?p1, w1)"
    using quiet cb(1) by (auto simp: atx_pipe_on_activity_def split: option.split)
  moreover have "broken (pipe_flags api q) \<or> atxi (atx_pipe_clone_state api ?p1) w1"
    using keep inv asked report by (auto simp: atx_inv_def event_report_def split: option.splits)
  ultimately show ?thesis
    using cb(2) asked agree_refl by (auto simp: atx_sent_def atx_fin_asked_def)
qed

lemma atx_activity_flush:
  assumes inv: "atxi p w" and report: "event_report (Some e) (pipe_flags api (at_io p)) (pipe_flags api q)"
    and asked: "fin_asked q = fin_asked (at_io p)" and keep: "broken (pipe_flags api q) \<or> inv q w1"
    and b: "at_pending p = Some b" "has e IO_EV_writable"
  shows "\<exists>up p' w'. atx_pipe_on_activity api (p\<lparr>at_io := q\<rparr>) e w1 = Ok (up, p', w') \<and>
    event_report up (at_base p) (at_base p') \<and>
    atxs p' w' = sent q w1 @ pending_bytes (at_pending p) \<and> rcvd (at_io p') w' = rcvd q w1 \<and> input (at_io p') w' = input q w1 \<and>
    ep (at_io p') = ep q \<and> atxf p' = atxf p \<and> (\<forall>e. e \<noteq> ep q \<longrightarrow> agree e w1 w') \<and> work (at_io p') w' \<le> work q w1 \<and>
    (broken (at_base p') \<or> atxi p' w')"
proof -
  let ?p1 = "p\<lparr>at_io := q\<rparr>"
  have hooked: "at_hooked p" and pend: "wf_buf b" "0 < buf_size b" "buf_size b \<le> lim"
    "\<not> fin_asked (at_io p)" and below: "inv (at_io p) w"
    and stale: "stale_of (at_base p) ((pipe_flags api (at_io p))\<lparr>writable := False\<rparr>)"
    using inv b by (simp_all add: atx_inv_def)
  have fine: "\<not> broken (pipe_flags api q)" "writable (pipe_flags api q)" "inv q w1" "\<not> has e IO_EV_broken"
    using report b keep by (auto simp: event_report_def split: if_splits)
  obtain e3 p3 w3 where flush:
    "bind_res (atx_flush api ?p1 b e w1) (atx_flush_fin api) = Ok (e3, p3, w3)"
    "at_hooked p3 = at_hooked ?p1" "atxf p3 = atxf ?p1" "atxs p3 w3 = atxs ?p1 w1"
    "rcvd (at_io p3) w3 = rcvd (at_io ?p1) w1 \<and> input (at_io p3) w3 = input (at_io ?p1) w1" "ep (at_io p3) = ep (at_io ?p1)"
    "(\<forall>e. e \<noteq> ep (at_io ?p1) \<longrightarrow> agree e w1 w3) \<and> work (at_io p3) w3 \<le> work (at_io ?p1) w1" "broken_ok (pipe_flags api (at_io p3))"
    "has e3 IO_EV_readable = has e IO_EV_readable" "has e3 IO_EV_ready = has e IO_EV_ready"
    "has e3 IO_EV_broken = broken (pipe_flags api (at_io p3))"
    "has e3 IO_EV_writable = (at_pending p3 = None \<and> writable (pipe_flags api (at_io p3)))"
    "broken (pipe_flags api (at_io p3)) \<or> inv (at_io p3) w3 \<and>
      same_rx (pipe_flags api (at_io ?p1)) (pipe_flags api (at_io p3)) \<and>
      (case at_pending p3 of None \<Rightarrow> at_want_fin p3 \<longrightarrow> fin_asked (at_io p3)
       | Some b' \<Rightarrow> wf_buf b' \<and> 0 < buf_size b' \<and> buf_size b' \<le> lim \<and>
           ready (pipe_flags api (at_io p3)) \<and> \<not> fin_asked (at_io p3))"
    by (rule atx_flush_both [of ?p1 w1 b e]) (use b fine pend asked in \<open>simp_all\<close>)
  have rep: "if broken (pipe_flags api (at_io p3))
    then has e3 IO_EV_broken \<and> \<not> has e3 IO_EV_writable
    else \<not> has e3 IO_EV_broken \<and> fin_rcvd (pipe_flags api (at_io p3)) = fin_rcvd (at_base p) \<and>
      (fin_sent (at_base p) \<longrightarrow> fin_sent (pipe_flags api (at_io p3))) \<and>
      (ready (pipe_flags api (at_io p3)) \<longleftrightarrow> ready (at_base p) \<or> has e3 IO_EV_ready) \<and>
      (readable (pipe_flags api (at_io p3)) \<longleftrightarrow> readable (at_base p) \<or> has e3 IO_EV_readable) \<and>
      (at_pending p3 = None \<and> writable (pipe_flags api (at_io p3)) \<longleftrightarrow>
        writable (at_base p) \<or> has e3 IO_EV_writable)"
  proof (cases "broken (pipe_flags api (at_io p3))")
    case True
    with flush(8,11,12) show ?thesis by (simp add: broken_ok_def)
  next
    case False
    then have "same_rx (pipe_flags api q) (pipe_flags api (at_io p3))" using flush(13) by simp
    moreover have "\<not> fin_sent (at_base p)"
      using stale_of_sel(6) [OF stale] pend(4) fin_sent_asked [OF below] by auto
    ultimately show ?thesis
      using False flush(9-12) report fine(1) stale_of_sel(1-5) [OF stale]
      by (simp add: same_rx_def event_report_def)
  qed
  obtain up where cb: "(let p = atx_pipe_clone_state api p3 in
      if e3 = 0 then Ok (None, p, w3)
      else if at_hooked p then Ok (Some e3, p, w3) else Stop Null_dereference) =
      Ok (up, atx_pipe_clone_state api p3, w3)"
    "event_report up (at_base p) (at_base (atx_pipe_clone_state api p3))"
    by (rule atx_callback [OF _ flush(8) rep]) (use flush(2) hooked in simp)
  have "atx_pipe_on_activity api ?p1 e w1 = Ok (up, atx_pipe_clone_state api p3, w3)"
    using b cb(1) flush(1) by (simp add: atx_pipe_on_activity_def)
  moreover have "broken (pipe_flags api (at_io p3)) \<or> atxi (atx_pipe_clone_state api p3) w3"
    using flush(2,13) hooked by (auto simp: atx_inv_def)
  ultimately show ?thesis
    using cb(2) flush(2-7) asked by (auto simp: atx_sent_def atx_fin_asked_def)
qed

lemma atx_event_law:
  assumes inv: "atxi p w" and ev: "ev_ok (at_io p) ev"
  shows "\<exists>up p' w'. atx_event api p ev w = Ok (up, p', w') \<and>
    event_report up (at_base p) (at_base p') \<and>
    atxs p' w' = atxs p w \<and> rcvd (at_io p') w' = rcvd (at_io p) w \<and> input (at_io p') w' = input (at_io p) w \<and>
    ep (at_io p') = ep (at_io p) \<and> atxf p' = atxf p \<and>
    (\<forall>e. e \<noteq> ep (at_io p) \<longrightarrow> agree e w w') \<and> work (at_io p') w' \<le> Suc (work (at_io p) w) \<and> (broken (at_base p') \<or> atxi p' w')"
proof -
  have below: "inv (at_io p) w"
    and stale: "stale_of (at_base p)
      (if at_pending p = None then pipe_flags api (at_io p)
       else (pipe_flags api (at_io p))\<lparr>writable := False\<rparr>)"
    using inv by (simp_all add: atx_inv_def)
  note same = stale_of_sel [OF stale]
  obtain up q w1 where call: "pipe_event api (at_io p) ev w = Ok (up, q, w1)"
    and report: "event_report up (pipe_flags api (at_io p)) (pipe_flags api q)"
    and hist: "sent q w1 = sent (at_io p) w" "rcvd q w1 = rcvd (at_io p) w \<and> input q w1 = input (at_io p) w"
      "ep q = ep (at_io p)" "fin_asked q = fin_asked (at_io p)"
      "(\<forall>e. e \<noteq> ep (at_io p) \<longrightarrow> agree e w w1) \<and> work q w1 \<le> Suc (work (at_io p) w)"
    and keep: "broken (pipe_flags api q) \<or> inv q w1"
    using event_law [OF below ev] by blast
  show ?thesis
  proof (cases up)
    case None
    then have "event_report None (at_base p) (at_base p)" "\<not> broken (pipe_flags api q)"
      "atxi (p\<lparr>at_io := q\<rparr>) w1"
      using report atx_flags(1) [OF inv] inv keep hist(4) same
      by (auto simp: event_report_def broken_ok_def flags_ok_def atx_inv_def
          intro!: stale_ofI split: option.splits if_splits)
    with None call hist show ?thesis
      by (simp add: atx_event_def atx_sent_def atx_fin_asked_def)
  next
    case (Some e)
    have rep: "event_report (Some e) (pipe_flags api (at_io p)) (pipe_flags api q)"
      using report Some by simp
    have "\<exists>up p' w'. atx_pipe_on_activity api (p\<lparr>at_io := q\<rparr>) e w1 = Ok (up, p', w') \<and>
      event_report up (at_base p) (at_base p') \<and>
      atxs p' w' = sent q w1 @ pending_bytes (at_pending p) \<and> rcvd (at_io p') w' = rcvd q w1 \<and> input (at_io p') w' = input q w1 \<and>
      ep (at_io p') = ep q \<and> atxf p' = atxf p \<and> (\<forall>e. e \<noteq> ep q \<longrightarrow> agree e w1 w') \<and> work (at_io p') w' \<le> work q w1 \<and>
      (broken (at_base p') \<or> atxi p' w')"
      using atx_activity_quiet [OF inv rep hist(4) keep] atx_activity_flush [OF inv rep hist(4) keep]
      by (cases "at_pending p"; cases "has e IO_EV_writable") auto
    then obtain up' p' w' where up: "atx_pipe_on_activity api (p\<lparr>at_io := q\<rparr>) e w1 = Ok (up', p', w')"
      "event_report up' (at_base p) (at_base p')" "atxs p' w' = sent q w1 @ pending_bytes (at_pending p)"
      "rcvd (at_io p') w' = rcvd q w1 \<and> input (at_io p') w' = input q w1" "ep (at_io p') = ep q" "atxf p' = atxf p"
      "(\<forall>e. e \<noteq> ep q \<longrightarrow> agree e w1 w') \<and> work (at_io p') w' \<le> work q w1" "broken (at_base p') \<or> atxi p' w'"
      by blast
    have "\<forall>e. e \<noteq> ep (at_io p) \<longrightarrow> agree e w w'"
      using hist(3,5) up(7) by (metis agree_trans)
    moreover have "work (at_io p') w' \<le> Suc (work (at_io p) w)"
      using hist(5) up(7) le_trans by blast
    ultimately show ?thesis
      using up call hist Some by (simp add: atx_event_def atx_sent_def)
  qed
qed

end

text \<open>An atx pipe over a pipe keeps the contract of a pipe, and its sends are atomic.\<close>

locale atx_stack = pipe_contract

sublocale atx_stack \<subseteq> atx: atomic_pipe
  "atx_api api" atxi atxs "\<lambda>p w. rcvd (at_io p) w" "\<lambda>p w. input (at_io p) w" atxf
  "\<lambda>p. ep (at_io p)" agree "\<lambda>p ev. ev_ok (at_io p) ev" "\<lambda>p w. work (at_io p) w" rmin lim
proof (unfold_locales, goal_cases)
  case (1 p w)
  then show ?case using atx_flags(1) [of p w] by simp
next
  case (2 p w)
  then show ?case using atx_flags(2) [of p w] by simp
next
  case (3 p w)
  then show ?case using atx_flags(3) [of p w] by simp
next
  case 4
  show ?case by (rule lim_small)
next
  case 5
  then show ?case by (rule rmin_pos)
next
  case (6 p w)
  then show ?case using rcvd_input [of "at_io p" w] by (simp add: atx_inv_def)
next
  case 7
  show ?case by (rule agree_refl)
next
  case 8
  then show ?case by (rule agree_trans)
next
  case (9 p w w')
  then show ?case
    using own [of "at_io p" w w'] by (auto simp: atx_inv_def atx_sent_def)
next
  case (10 p w n)
  then show ?case using atx_recv_law [of p w n] by simp
next
  case (11 p w bs)
  then show ?case using atx_send_atomic [of p w bs] by (force simp: send_report_def)
next
  case (12 p w)
  then show ?case using atx_send_fin_law [of p w] by simp
next
  case (13 p w ev)
  then show ?case using atx_event_law [of p w ev] by simp
next
  case (14 p w bs r p' w')
  then show ?case using atx_send_atomic [of p w bs] by auto
qed

end
