(* ===== verification/DgmPipe.thy ===== *)
theory DgmPipe
  imports Frames AtxPipe
begin

unbundle bit_operations_syntax

text \<open>
  The datagram pipe of \<open>io/src/io_pipe_dgm.c\<close>: \<open>send\<close> puts a size header before every
  packet and hands both to an atx pipe, \<open>recv\<close> collects bytes in \<open>rx\<close> until a packet is
  complete.

  The definitions follow the C functions.  \<open>io\<close> is the function pointers of the pipe below,
  which \<open>new_dgm_pipe\<close> makes an atx pipe; the two labels at the end of \<open>dgm_pipe_recv\<close> are
  \<open>dgm_recv_pass\<close> and \<open>dgm_recv_err\<close>, and \<open>dgm_recv_more\<close> is the part that reads from the
  pipe below.  A datagram longer than the caller's buffer is copied all the same, which is
  undefined behaviour.

  The lemmas show that over an atomic pipe the datagram pipe keeps \<open>pipe_contract\<close> as long as
  the peer's stream is a \<open>safe_stream\<close>: what is received is the payload of the frames read off
  the pipe below.
\<close>

section \<open>The code\<close>

record 'p dgm_pipe =
  dg_base :: pipe_flags
  dg_hooked :: bool
  dg_io :: 'p
  max_size :: nat
  max_hdr_size :: nat
  dg_rx :: "io_buffer option"

definition new_dgm_pipe :: "('p, 'w) io_pipe \<Rightarrow> 'p \<Rightarrow> nat \<Rightarrow> 'p atx_pipe dgm_pipe" where
  "new_dgm_pipe io q m =
     \<lparr>dg_base = zero_flags, dg_hooked = False, dg_io = pipe_hook (atx_api io) (new_atx_pipe io q),
      max_size = m, max_hdr_size = 5, dg_rx = None\<rparr>"

definition dgm_pipe_clone_state :: "('p, 'w) io_pipe \<Rightarrow> 'p dgm_pipe \<Rightarrow> 'p dgm_pipe" where
  "dgm_pipe_clone_state io p = p\<lparr>dg_base := clone_pipe_state (dg_base p) (pipe_flags io (dg_io p))\<rparr>"

definition dgm_pipe_init :: "('p, 'w) io_pipe \<Rightarrow> 'p dgm_pipe \<Rightarrow> 'w \<Rightarrow> ('p dgm_pipe \<times> 'w) res" where
  "dgm_pipe_init io p w =
     c_assert (dg_hooked p)
       (bind_res (pipe_init io (dg_io p) w)
         (\<lambda>(q, w). Ok (dgm_pipe_clone_state io (p\<lparr>dg_io := q\<rparr>), w)))"

text \<open>The return code, \<open>*dgm_size\<close>, the bytes written to \<open>buf\<close>, and the pipe.\<close>

definition process_rx :: "'p dgm_pipe \<Rightarrow> nat \<Rightarrow> (int \<times> nat \<times> byte list \<times> 'p dgm_pipe) res" where
  "process_rx p len =
     (case dg_rx p of
        None \<Rightarrow> Stop Assertion_failed
      | Some rx \<Rightarrow>
          bind_res (io_parse_size (buf_bytes rx) (buf_size rx)) (\<lambda>(r, v).
            let dgm_size = (case v of None \<Rightarrow> 0 | Some x \<Rightarrow> unat x) in
            if r < 0 then Ok (-1, dgm_size, [], p)
            else if r = 0 then Ok (0, dgm_size, [], p)
            else if max_size p < dgm_size then Ok (-1, dgm_size, [], p)
            else if buf_size rx < c_size r + dgm_size then Ok (0, dgm_size, [], p)
            else if len < dgm_size then Stop Undefined_behaviour
            else Ok (r, dgm_size, take dgm_size (drop (nat r) (buf_bytes rx)),
                     p\<lparr>dg_rx := Some (buf_consume (nat r + dgm_size) rx)\<rparr>)))"

definition adjust_rx :: "'p dgm_pipe \<Rightarrow> nat \<Rightarrow> 'p dgm_pipe res" where
  "adjust_rx p min_cap =
     (case dg_rx p of
        None \<Rightarrow> Stop Assertion_failed
      | Some rx \<Rightarrow>
          if capacity rx < min_cap then
            bind_res (alloc_io_buffer min_cap (Some (drop (buf_head rx) (buf_data rx))) (buf_size rx))
              (\<lambda>rx. Ok (p\<lparr>dg_rx := Some rx\<rparr>))
          else
            let data = (if buf_size rx \<noteq> 0 \<and> buf_head rx \<noteq> 0
                        then buf_bytes rx @ drop (buf_size rx) (buf_data rx) else buf_data rx)
            in Ok (p\<lparr>dg_rx := Some (rx\<lparr>buf_data := data, buf_head := 0\<rparr>)\<rparr>))"

definition dgm_recv_pass ::
  "('p, 'w) io_pipe \<Rightarrow> int \<Rightarrow> byte list \<Rightarrow> 'p dgm_pipe \<Rightarrow> 'w \<Rightarrow> (int \<times> byte list \<times> 'p dgm_pipe \<times> 'w) res" where
  "dgm_recv_pass io r out p w =
     (case dg_rx p of
        None \<Rightarrow> Stop Null_dereference
      | Some rx \<Rightarrow>
          let p = (if buf_size rx = 0 then p\<lparr>dg_rx := None\<rparr> else p)
          in Ok (r, out, dgm_pipe_clone_state io p, w))"

definition dgm_recv_err :: "'p dgm_pipe \<Rightarrow> 'w \<Rightarrow> (int \<times> byte list \<times> 'p dgm_pipe \<times> 'w) res" where
  "dgm_recv_err p w = Ok (-1, [], p\<lparr>dg_rx := None, dg_base := tag_pipe_as_broken (dg_base p)\<rparr>, w)"

definition dgm_recv_more ::
  "('p, 'w) io_pipe \<Rightarrow> 'p dgm_pipe \<Rightarrow> nat \<Rightarrow> 'w \<Rightarrow> (int \<times> byte list \<times> 'p dgm_pipe \<times> 'w) res" where
  "dgm_recv_more io p len w =
     (case dg_rx p of
        None \<Rightarrow> Stop Assertion_failed
      | Some rx \<Rightarrow>
          c_assert (buf_head rx = 0) (c_assert (buf_size rx < capacity rx)
            (bind_res (pipe_recv io (dg_io p) (capacity rx - buf_size rx) w) (\<lambda>(r, bs, q, w).
              let p = p\<lparr>dg_io := q\<rparr> in
              if r < 0 then dgm_recv_pass io r [] p w
              else if r = 0 then
                if buf_size rx \<noteq> 0 then dgm_recv_err p w else dgm_recv_pass io r [] p w
              else
                let rx = rx\<lparr>buf_data := take (buf_size rx) (buf_data rx) @ bs @
                              drop (buf_size rx + length bs) (buf_data rx),
                            buf_size := buf_size rx + nat r\<rparr>
                in bind_res (process_rx (p\<lparr>dg_rx := Some rx\<rparr>) len) (\<lambda>(r, dgm_size, out, p).
                  if r < 0 then dgm_recv_err p w
                  else dgm_recv_pass io (if 0 < r then c_int dgm_size else -1) out p w)))))"

definition dgm_pipe_recv ::
  "('p, 'w) io_pipe \<Rightarrow> 'p dgm_pipe \<Rightarrow> nat \<Rightarrow> 'w \<Rightarrow> (int \<times> byte list \<times> 'p dgm_pipe \<times> 'w) res" where
  "dgm_pipe_recv io p len w =
     (if broken (dg_base p) then Ok (-1, [], p, w)
      else if dg_rx p \<noteq> None then
        bind_res (process_rx p len) (\<lambda>(r, dgm_size, out, p).
          if r < 0 then dgm_recv_err p w
          else if 0 < r then dgm_recv_pass io (c_int dgm_size) out p w
          else if dgm_size \<noteq> 0 \<and> len < dgm_size then dgm_recv_err p w
          else bind_res (adjust_rx p (max_hdr_size p + len)) (\<lambda>p. dgm_recv_more io p len w))
      else
        bind_res (alloc_io_buffer (max_hdr_size p + len) None 0)
          (\<lambda>rx. dgm_recv_more io (p\<lparr>dg_rx := Some rx\<rparr>) len w))"

definition dgm_pipe_send ::
  "('p, 'w) io_pipe \<Rightarrow> 'p dgm_pipe \<Rightarrow> byte list \<Rightarrow> 'w \<Rightarrow> (int \<times> 'p dgm_pipe \<times> 'w) res" where
  "dgm_pipe_send io p bs w =
     (if \<not> writable (dg_base p) then Ok (-1, p, w)
      else
        bind_res (alloc_io_buffer (length bs + max_hdr_size p) None 0) (\<lambda>dgm.
          case io_store_size (Some (buf_data dgm)) (capacity dgm) (of_nat (length bs)) of
            (r, None) \<Rightarrow> Stop Null_dereference
          | (r, Some data) \<Rightarrow>
              if r < 0 then Ok (-1, p\<lparr>dg_base := tag_pipe_as_broken (dg_base p)\<rparr>, w)
              else c_assert (c_size r + length bs \<le> capacity dgm)
                (let dgm = dgm\<lparr>buf_data := take (nat r) data @ bs @ drop (nat r + length bs) data,
                               buf_size := nat r + length bs\<rparr>
                 in bind_res (pipe_send io (dg_io p) (buf_bytes dgm) w) (\<lambda>(r, q, w).
                   let p = dgm_pipe_clone_state io (p\<lparr>dg_io := q\<rparr>)
                   in c_assert (r < 0 \<or> c_size r = buf_size dgm)
                        (Ok (if 0 < r then c_int (length bs) else -1, p, w))))))"

definition dgm_pipe_send_fin ::
  "('p, 'w) io_pipe \<Rightarrow> 'p dgm_pipe \<Rightarrow> 'w \<Rightarrow> (int \<times> 'p dgm_pipe \<times> 'w) res" where
  "dgm_pipe_send_fin io p w =
     bind_res (pipe_send_fin io (dg_io p) w)
       (\<lambda>(r, q, w). Ok (r, dgm_pipe_clone_state io (p\<lparr>dg_io := q\<rparr>), w))"

definition dgm_pipe_discard :: "('p, 'w) io_pipe \<Rightarrow> 'p dgm_pipe \<Rightarrow> 'w \<Rightarrow> 'w res" where
  "dgm_pipe_discard io p w = pipe_discard io (dg_io p) w"

definition dgm_pipe_on_activity ::
  "('p, 'w) io_pipe \<Rightarrow> 'p dgm_pipe \<Rightarrow> uint \<Rightarrow> 'w \<Rightarrow> (uint option \<times> 'p dgm_pipe \<times> 'w) res" where
  "dgm_pipe_on_activity io p events w =
     (let p = dgm_pipe_clone_state io p in
      if dg_hooked p then Ok (Some events, p, w) else Stop Null_dereference)"

definition dgm_event ::
  "('p, 'w) io_pipe \<Rightarrow> 'p dgm_pipe \<Rightarrow> uint \<Rightarrow> 'w \<Rightarrow> (uint option \<times> 'p dgm_pipe \<times> 'w) res" where
  "dgm_event io p ev w =
     bind_res (pipe_event io (dg_io p) ev w)
       (\<lambda>(up, q, w).
         case up of
           None \<Rightarrow> Ok (None, p\<lparr>dg_io := q\<rparr>, w)
         | Some events \<Rightarrow> dgm_pipe_on_activity io (p\<lparr>dg_io := q\<rparr>) events w)"

definition dgm_api :: "('p, 'w) io_pipe \<Rightarrow> ('p dgm_pipe, 'w) io_pipe" where
  "dgm_api io =
     \<lparr>pipe_flags = dg_base, pipe_hook = (\<lambda>p. p\<lparr>dg_hooked := True\<rparr>), pipe_init = dgm_pipe_init io,
      pipe_recv = dgm_pipe_recv io, pipe_send = dgm_pipe_send io,
      pipe_send_fin = dgm_pipe_send_fin io, pipe_discard = dgm_pipe_discard io,
      pipe_event = dgm_event io\<rparr>"

section \<open>The invariant\<close>

text \<open>
  The state bits are those of the pipe below at the last call.  What the pipe below has received
  is a whole number of frames followed by the bytes in \<open>rx\<close>, and what it has been given to
  send is a sequence of frames of nonempty datagrams.  \<open>m\<close> is the size of the smallest buffer \<open>recv\<close> is used with.
\<close>

definition dgm_inv ::
  "('p, 'w) io_pipe \<Rightarrow> ('p \<Rightarrow> 'w \<Rightarrow> bool) \<Rightarrow> ('p \<Rightarrow> 'w \<Rightarrow> byte list) \<Rightarrow> ('p \<Rightarrow> 'w \<Rightarrow> byte list) \<Rightarrow>
   ('p \<Rightarrow> 'w \<Rightarrow> byte list) \<Rightarrow> nat \<Rightarrow> nat \<Rightarrow> 'p dgm_pipe \<Rightarrow> 'w \<Rightarrow> bool" where
  "dgm_inv io io_inv sent rcvd input m lim p w \<longleftrightarrow>
     io_inv (dg_io p) w \<and> dg_hooked p \<and> stale_of (dg_base p) (pipe_flags io (dg_io p)) \<and>
     max_hdr_size p = 5 \<and> max_size p \<le> m \<and>
     (case dg_rx p of
        None \<Rightarrow> True
      | Some b \<Rightarrow> wf_buf b \<and> 0 < buf_size b \<and> capacity b \<le> lim) \<and>
     (\<exists>c. rcvd (dg_io p) w = c @ pending_bytes (dg_rx p) \<and> whole (max_size p) c) \<and>
     safe_stream (max_size p) (input (dg_io p) w) \<and> well_framed (sent (dg_io p) w)"

definition dgm_sent :: "('p \<Rightarrow> 'w \<Rightarrow> byte list) \<Rightarrow> 'p dgm_pipe \<Rightarrow> 'w \<Rightarrow> byte list" where
  "dgm_sent sent p w = payload (2 ^ 28) (sent (dg_io p) w)"

text \<open>The datagrams handed to the user, and their bytes.\<close>

definition dgm_datagrams :: "('p \<Rightarrow> 'w \<Rightarrow> byte list) \<Rightarrow> 'p dgm_pipe \<Rightarrow> 'w \<Rightarrow> byte list list" where
  "dgm_datagrams rcvd p w =
     (let r = rcvd (dg_io p) w
      in datagrams (max_size p) (take (length r - length (pending_bytes (dg_rx p))) r))"

definition dgm_rcvd :: "('p \<Rightarrow> 'w \<Rightarrow> byte list) \<Rightarrow> 'p dgm_pipe \<Rightarrow> 'w \<Rightarrow> byte list" where
  "dgm_rcvd rcvd p w = concat (dgm_datagrams rcvd p w)"

text \<open>What one call of \<open>recv\<close> adds to them.\<close>

definition one :: "byte list \<Rightarrow> byte list list" where
  "one bs = (if bs = [] then [] else [bs])"

lemma one_simps [simp]: "one [] = []" "bs \<noteq> [] \<Longrightarrow> one bs = [bs]" "concat (one bs) = bs"
  by (simp_all add: one_def)

definition dgm_input :: "('p \<Rightarrow> 'w \<Rightarrow> byte list) \<Rightarrow> 'p dgm_pipe \<Rightarrow> 'w \<Rightarrow> byte list" where
  "dgm_input input p w = payload (max_size p) (input (dg_io p) w)"

definition dgm_work :: "('p \<Rightarrow> 'w \<Rightarrow> nat) \<Rightarrow> 'p dgm_pipe \<Rightarrow> 'w \<Rightarrow> nat" where
  "dgm_work work p w = work (dg_io p) w + length (pending_bytes (dg_rx p))"

section \<open>Lemmas\<close>

lemma dgm_api_sel [simp]:
  "pipe_flags (dgm_api io) = dg_base"
  "pipe_init (dgm_api io) = dgm_pipe_init io"
  "pipe_recv (dgm_api io) = dgm_pipe_recv io"
  "pipe_send (dgm_api io) = dgm_pipe_send io"
  "pipe_send_fin (dgm_api io) = dgm_pipe_send_fin io"
  "pipe_discard (dgm_api io) = dgm_pipe_discard io"
  "pipe_event (dgm_api io) = dgm_event io"
  by (simp_all add: dgm_api_def)

lemma dgm_pipe_clone_state_sel [simp]:
  "dg_base (dgm_pipe_clone_state io p) = pipe_flags io (dg_io p)"
  "dg_hooked (dgm_pipe_clone_state io p) = dg_hooked p"
  "dg_io (dgm_pipe_clone_state io p) = dg_io p"
  "max_size (dgm_pipe_clone_state io p) = max_size p"
  "max_hdr_size (dgm_pipe_clone_state io p) = max_hdr_size p"
  "dg_rx (dgm_pipe_clone_state io p) = dg_rx p"
  by (simp_all add: dgm_pipe_clone_state_def)

text \<open>\<open>process_rx\<close> takes the next frame off the buffer, if there is one.\<close>

lemma process_rx_cases:
  assumes rx: "dg_rx p = Some b" "wf_buf b" and len: "max_size p \<le> len"
    and parse: "io_parse_size (buf_bytes b) (buf_size b) = Ok (k, v)"
  obtains (found) d rest r b' where "next_frame (max_size p) (buf_bytes b) = Some (d, rest)"
      "process_rx p len = Ok (r, length d, d, p\<lparr>dg_rx := Some b'\<rparr>)" "0 < r"
      "wf_buf b'" "buf_bytes b' = rest" "capacity b' = capacity b"
  | (wait) n where "next_frame (max_size p) (buf_bytes b) = None"
      "process_rx p len = Ok (0, n, [], p)" "n \<le> len" "buf_size b < 5 + len"
  | (bad) n where "next_frame (max_size p) (buf_bytes b) = None" "process_rx p len = Ok (-1, n, [], p)"
proof -
  have size: "length (buf_bytes b) = buf_size b" using rx(2) by simp
  note unfold = process_rx_def rx(1) next_frame_def size parse
  from parse show thesis
  proof (cases rule: io_parse_size_header)
    case malformed
    then show thesis by (intro bad [of 0]) (simp_all add: unfold)
  next
    case incomplete
    then show thesis by (intro wait [of 0]) (simp_all add: unfold)
  next
    case (parsed x)
    have k: "c_size k = nat k" using parsed(3,5) by (simp add: c_size_nonneg)
    consider "max_size p < unat x" | "unat x \<le> max_size p" "buf_size b < nat k + unat x"
      | "unat x \<le> max_size p" "nat k + unat x \<le> buf_size b"
      by linarith
    then show thesis
    proof cases
      case 1
      with parsed k show thesis by (intro bad [of "unat x"]) (simp_all add: unfold)
    next
      case 2
      then have "buf_size b < 5 + len" using parsed(5) len by simp
      with 2 parsed k len show thesis by (intro wait [of "unat x"]) (simp_all add: unfold)
    next
      case 3
      let ?d = "take (unat x) (drop (nat k) (buf_bytes b))"
      have "length ?d = unat x" using 3 size by simp
      with 3 parsed k len rx show thesis
        by (intro found [of ?d _ k "buf_consume (nat k + unat x) b"]) (simp_all add: unfold Let_def)
    qed
  qed
qed

lemma adjust_rx_law:
  assumes "dg_rx p = Some b" "wf_buf b"
  obtains b' where "adjust_rx p c = Ok (p\<lparr>dg_rx := Some b'\<rparr>)" "wf_buf b'" "buf_head b' = 0"
    "buf_bytes b' = buf_bytes b" "buf_size b' = buf_size b" "capacity b' = max (capacity b) c"
proof (cases "capacity b < c")
  case True
  have "buf_size b \<le> c" "buf_size b \<le> length (drop (buf_head b) (buf_data b))"
    using assms(2) True by (auto simp: wf_buf_def)
  then obtain b' where "alloc_io_buffer c (Some (drop (buf_head b) (buf_data b))) (buf_size b) = Ok b'"
    "wf_buf b'" "capacity b' = c" "buf_head b' = 0" "buf_size b' = buf_size b"
    "buf_bytes b' = take (buf_size b) (drop (buf_head b) (buf_data b))"
    by (rule alloc_io_buffer_Some)
  with True assms(1) show thesis
    by (intro that [of b']) (simp_all add: adjust_rx_def buf_bytes_def [of b])
next
  case False
  let ?data = "if buf_size b \<noteq> 0 \<and> buf_head b \<noteq> 0
    then buf_bytes b @ drop (buf_size b) (buf_data b) else buf_data b"
  have len: "length (buf_bytes b) = buf_size b" using assms(2) by simp
  have "wf_buf (b\<lparr>buf_data := ?data, buf_head := 0\<rparr>)"
    using assms(2) len by (auto simp: wf_buf_def)
  moreover have "buf_bytes (b\<lparr>buf_data := ?data, buf_head := 0\<rparr>) = buf_bytes b"
    using len by (auto simp: buf_bytes_def)
  ultimately show thesis
    using False assms(1)
    by (intro that [of "b\<lparr>buf_data := ?data, buf_head := 0\<rparr>"]) (simp_all add: adjust_rx_def Let_def max_def)
qed

text \<open>Bytes appended to the buffer in use.\<close>

lemma buf_bytes_append:
  assumes "wf_buf b" "buf_head b = 0" "buf_size b + length bs \<le> capacity b"
  shows "wf_buf (b\<lparr>buf_data := take (buf_size b) (buf_data b) @ bs @ drop (buf_size b + length bs) (buf_data b),
      buf_size := buf_size b + length bs\<rparr>)" (is "wf_buf ?b")
    and "buf_bytes (b\<lparr>buf_data := take (buf_size b) (buf_data b) @ bs @ drop (buf_size b + length bs) (buf_data b),
      buf_size := buf_size b + length bs\<rparr>) = buf_bytes b @ bs"
proof -
  have "length (take (buf_size b) (buf_data b)) = buf_size b"
    using assms by (simp add: wf_buf_def)
  then show "wf_buf ?b" "buf_bytes ?b = buf_bytes b @ bs"
    using assms by (simp_all add: wf_buf_def buf_bytes_def)
qed

locale dgm_stack = atomic_pipe +
  fixes m :: nat
  assumes rmin_one: "rmin = 1" and m_bounds: "0 < m" "m + 5 \<le> lim"
begin

abbreviation "dgmi \<equiv> dgm_inv api inv sent rcvd input m lim"
abbreviation "dgms \<equiv> dgm_sent sent"
abbreviation "dgmr \<equiv> dgm_rcvd rcvd"
abbreviation "dgmg \<equiv> dgm_datagrams rcvd"
abbreviation "dgmn \<equiv> dgm_input input"
abbreviation "dgmw \<equiv> dgm_work work"

text \<open>What a call of \<open>recv\<close> leaves behind, for a pipe whose buffer held \<open>xs\<close> after the frames \<open>c\<close>.\<close>

abbreviation received ::
  "byte list \<Rightarrow> nat \<Rightarrow> nat \<Rightarrow> 'a dgm_pipe \<Rightarrow> 'b \<Rightarrow> int \<Rightarrow> byte list \<Rightarrow> 'a dgm_pipe \<Rightarrow> 'b \<Rightarrow> bool" where
  "received c k n p w r bs p' w' \<equiv>
     recv_report n r bs (dg_base p) (dg_base p') \<and>
     dgmg p' w' = datagrams (max_size p) c @ one bs \<and> sent (dg_io p') w' = sent (dg_io p) w \<and>
     input (dg_io p') w' = input (dg_io p) w \<and> max_size p' = max_size p \<and>
     ep (dg_io p') = ep (dg_io p) \<and> fin_asked (dg_io p') = fin_asked (dg_io p) \<and>
     (\<forall>e. e \<noteq> ep (dg_io p) \<longrightarrow> agree e w w') \<and>
     dgmw p' w' + length bs < work (dg_io p) w + k \<and>
     (broken (dg_base p') \<or> dgmi p' w' \<and> same_tx (dg_base p) (dg_base p'))"

text \<open>The common part of the invariant and of the states in the middle of \<open>recv\<close>.\<close>

abbreviation settled :: "'a dgm_pipe \<Rightarrow> 'b \<Rightarrow> bool" where
  "settled p w \<equiv> inv (dg_io p) w \<and> dg_hooked p \<and> stale_of (dg_base p) (pipe_flags api (dg_io p)) \<and>
     max_hdr_size p = 5 \<and> max_size p \<le> m \<and>
     safe_stream (max_size p) (input (dg_io p) w) \<and> well_framed (sent (dg_io p) w)"

abbreviation holding :: "'a dgm_pipe \<Rightarrow> 'b \<Rightarrow> io_buffer \<Rightarrow> byte list \<Rightarrow> bool" where
  "holding p w b c \<equiv> dg_rx p = Some b \<and> wf_buf b \<and> capacity b \<le> lim \<and>
     rcvd (dg_io p) w = c @ buf_bytes b \<and> whole (max_size p) c"

lemma dgm_invE:
  assumes "dgmi p w"
  obtains "settled p w" "dg_rx p = None" "whole (max_size p) (rcvd (dg_io p) w)"
  | b c where "settled p w" "holding p w b c" "0 < buf_size b"
  using assms by (cases "dg_rx p") (auto simp: dgm_inv_def)

lemma dgm_invI:
  assumes "settled p w" "dg_rx p = None \<and> whole (max_size p) (rcvd (dg_io p) w) \<or>
    (\<exists>b c. holding p w b c \<and> 0 < buf_size b)"
  shows "dgmi p w"
  using assms by (auto simp: dgm_inv_def)

lemma dgm_parse:
  assumes io: "inv (dg_io p) w" "safe_stream (max_size p) (input (dg_io p) w)" and hold: "holding p w b c"
  shows "\<exists>k v. io_parse_size (buf_bytes b) (buf_size b) = Ok (k, v)"
    and "next_frame (max_size p) (buf_bytes b) = Some (d, rest) \<Longrightarrow> d \<noteq> []"
proof -
  obtain zs where "input (dg_io p) w = c @ buf_bytes b @ zs"
    using rcvd_input [OF io(1)] hold by auto
  then have safe: "safe_stream (max_size p) (c @ buf_bytes b @ zs)" using io(2) by simp
  have size: "length (buf_bytes b) = buf_size b" using hold by simp
  show "\<exists>k v. io_parse_size (buf_bytes b) (buf_size b) = Ok (k, v)"
    using safe_stream_parse(1) [OF safe] hold size by simp
  show "d \<noteq> []" if "next_frame (max_size p) (buf_bytes b) = Some (d, rest)"
    using safe_stream_parse(2) [OF safe _ that] hold by simp
qed

text \<open>The two exits of \<open>recv\<close>.\<close>

lemma recv_err_law:
  assumes hold: "holding p w b c" and none: "next_frame (max_size p) (buf_bytes b) = None"
  obtains p' where "dgm_recv_err p w = Ok (-1, [], p', w)"
    "dg_base p' = tag_pipe_as_broken (dg_base p)" "dg_io p' = dg_io p" "max_size p' = max_size p"
    "dgmg p' w = datagrams (max_size p) c" "dgmw p' w = work (dg_io p) w"
proof -
  let ?p = "p\<lparr>dg_rx := None, dg_base := tag_pipe_as_broken (dg_base p)\<rparr>"
  have "datagrams (max_size p) (c @ buf_bytes b) = datagrams (max_size p) c"
    using datagrams_append [of "max_size p" c "buf_bytes b"] hold none
    by (simp add: datagrams_def [of _ "buf_bytes b"] deframe_None)
  then have "dgmg ?p w = datagrams (max_size p) c"
    using hold by (simp add: dgm_datagrams_def)
  then show thesis
    by (intro that [of ?p]) (simp_all add: dgm_recv_err_def dgm_work_def)
qed

lemma recv_pass_law:
  assumes hold: "holding p w b c"
  obtains p' where "dgm_recv_pass api r out p w = Ok (r, out, p', w)"
    "dg_base p' = pipe_flags api (dg_io p)" "dg_io p' = dg_io p" "max_size p' = max_size p"
    "dgmg p' w = datagrams (max_size p) c" "dgmw p' w = work (dg_io p) w + buf_size b"
    "inv (dg_io p) w \<Longrightarrow> dg_hooked p \<Longrightarrow> max_hdr_size p = 5 \<Longrightarrow> max_size p \<le> m \<Longrightarrow>
     safe_stream (max_size p) (input (dg_io p) w) \<Longrightarrow> well_framed (sent (dg_io p) w) \<Longrightarrow> dgmi p' w"
proof -
  let ?p = "dgm_pipe_clone_state api (p\<lparr>dg_rx := if buf_size b = 0 then None else Some b\<rparr>)"
  have "pending_bytes (dg_rx ?p) = buf_bytes b" using hold by (simp add: buf_bytes_def)
  then have "dgmg ?p w = datagrams (max_size p) c" "dgmw ?p w = work (dg_io p) w + buf_size b"
    "\<exists>c. rcvd (dg_io p) w = c @ pending_bytes (dg_rx ?p) \<and> whole (max_size p) c"
    using hold by (auto simp: dgm_datagrams_def dgm_work_def)
  moreover have "dgm_recv_pass api r out p w = Ok (r, out, ?p, w)"
    using hold by (simp add: dgm_recv_pass_def Let_def)
  ultimately show thesis
    using hold by (intro that [of ?p]) (simp_all add: dgm_inv_def)
qed

text \<open>Passing on the frame at the front of the buffer.\<close>

lemma recv_found_law:
  assumes hold: "holding p w b c"
    and io: "inv (dg_io p) w" "safe_stream (max_size p) (input (dg_io p) w)"
    and len: "max_size p \<le> n" "n + 5 \<le> lim"
    and found: "next_frame (max_size p) (buf_bytes b) = Some (d, rest)"
    and b': "wf_buf b'" "buf_bytes b' = rest" "capacity b' = capacity b"
  obtains p' where
    "dgm_recv_pass api (c_int (length d)) d (p\<lparr>dg_rx := Some b'\<rparr>) w = Ok (int (length d), d, p', w)"
    "dg_base p' = pipe_flags api (dg_io p)" "dg_io p' = dg_io p" "max_size p' = max_size p"
    "dgmg p' w = datagrams (max_size p) c @ one d" "dgmw p' w + length d < work (dg_io p) w + buf_size b"
    "d \<noteq> []" "length d \<le> n"
    "dg_hooked p \<Longrightarrow> max_hdr_size p = 5 \<Longrightarrow> max_size p \<le> m \<Longrightarrow> well_framed (sent (dg_io p) w) \<Longrightarrow> dgmi p' w"
proof -
  obtain f where f: "buf_bytes b = f @ rest" "whole (max_size p) f" "datagrams (max_size p) f = [d]"
    using whole_frame [OF found] by auto
  let ?p = "p\<lparr>dg_rx := Some b'\<rparr>"
  have "holding ?p w b' (c @ f)" using hold b' f by (simp add: whole_append)
  then obtain p' where e: "dgm_recv_pass api (c_int (length d)) d ?p w = Ok (c_int (length d), d, p', w)"
    "dg_base p' = pipe_flags api (dg_io ?p)" "dg_io p' = dg_io ?p" "max_size p' = max_size ?p"
    "dgmg p' w = datagrams (max_size ?p) (c @ f)" "dgmw p' w = work (dg_io ?p) w + buf_size b'"
    "inv (dg_io ?p) w \<Longrightarrow> dg_hooked ?p \<Longrightarrow> max_hdr_size ?p = 5 \<Longrightarrow> max_size ?p \<le> m \<Longrightarrow>
     safe_stream (max_size ?p) (input (dg_io ?p) w) \<Longrightarrow> well_framed (sent (dg_io ?p) w) \<Longrightarrow> dgmi p' w"
    by (rule recv_pass_law) (rule that)
  have d: "d \<noteq> []" "length d \<le> n" "c_int (length d) = int (length d)"
    using dgm_parse(2) [OF io hold found] next_frame_length(2) [OF found] len lim_small
    by (simp_all add: c_int_small)
  have "buf_size b' + length d < buf_size b"
    using next_frame_length(1) [OF found] b'(1,2) hold length_buf_bytes [of b'] by simp
  moreover have "dgmg p' w = datagrams (max_size p) c @ one d"
    using e(5) f(3) d(1) datagrams_append [of "max_size p" c f] hold by simp
  ultimately show thesis
    using e(1-4,6,7) d io by (intro that [of p']) simp_all
qed

text \<open>
  Reading from the pipe below, with the front of the buffer not a frame yet: first what the pipe
  below may do, then the rest of \<open>recv\<close> when it gave nothing and when it gave data.
\<close>

abbreviation took :: "'a dgm_pipe \<Rightarrow> 'b \<Rightarrow> byte list \<Rightarrow> 'a \<Rightarrow> 'b \<Rightarrow> bool" where
  "took p w bs q w' \<equiv>
     rcvd q w' = rcvd (dg_io p) w @ bs \<and> sent q w' = sent (dg_io p) w \<and>
     input q w' = input (dg_io p) w \<and> ep q = ep (dg_io p) \<and> fin_asked q = fin_asked (dg_io p) \<and>
     (\<forall>e. e \<noteq> ep (dg_io p) \<longrightarrow> agree e w w') \<and> work q w' + length bs < work (dg_io p) w \<and>
     (broken (pipe_flags api q) \<or> inv q w' \<and> same_tx (dg_base p) (pipe_flags api q))"

lemma recv_more_empty:
  assumes set: "settled p w" and hold: "holding p w b c"
    and none: "next_frame (max_size p) (buf_bytes b) = None"
    and room: "buf_head b = 0" "buf_size b < capacity b"
    and call: "pipe_recv api (dg_io p) (capacity b - buf_size b) w = Ok (r, [], q, w')"
    and report: "recv_report (capacity b - buf_size b) r [] (dg_base p) (pipe_flags api q)"
    and took: "took p w [] q w'" and r: "r \<le> 0"
  obtains r' p' where "dgm_recv_more api p n w = Ok (r', [], p', w')"
    "received c (buf_size b) n p w r' [] p' w'"
proof (cases "r = 0 \<and> buf_size b \<noteq> 0")
  let ?p = "p\<lparr>dg_io := q\<rparr>"
  have h: "holding ?p w' b c" using hold took by simp
  case True
  have n1: "next_frame (max_size ?p) (buf_bytes b) = None" using none by simp
  obtain p' where e: "dgm_recv_err ?p w' = Ok (-1, [], p', w')"
    "dg_base p' = tag_pipe_as_broken (dg_base ?p)" "dg_io p' = dg_io ?p" "max_size p' = max_size ?p"
    "dgmg p' w' = datagrams (max_size ?p) c" "dgmw p' w' = work (dg_io ?p) w'"
    by (rule recv_err_law [OF h n1]) (rule that)
  have "dgm_recv_more api p n w = Ok (-1, [], p', w')"
    using hold room call True e(1) by (simp add: dgm_recv_more_def)
  then show thesis
    using e took by (intro that [of "-1" p']) (simp_all add: recv_report_def broken_ok_def)
next
  let ?p = "p\<lparr>dg_io := q\<rparr>"
  have h: "holding ?p w' b c" using hold took by simp
  case False
  obtain p' where e: "dgm_recv_pass api r [] ?p w' = Ok (r, [], p', w')"
    "dg_base p' = pipe_flags api (dg_io ?p)" "dg_io p' = dg_io ?p" "max_size p' = max_size ?p"
    "dgmg p' w' = datagrams (max_size ?p) c" "dgmw p' w' = work (dg_io ?p) w' + buf_size b"
    "inv (dg_io ?p) w' \<Longrightarrow> dg_hooked ?p \<Longrightarrow> max_hdr_size ?p = 5 \<Longrightarrow> max_size ?p \<le> m \<Longrightarrow>
     safe_stream (max_size ?p) (input (dg_io ?p) w') \<Longrightarrow> well_framed (sent (dg_io ?p) w') \<Longrightarrow> dgmi p' w'"
    by (rule recv_pass_law [OF h]) (rule that)
  have "dgm_recv_more api p n w = Ok (r, [], p', w')"
    using hold room call r False e(1) by (auto simp: dgm_recv_more_def Let_def)
  moreover have "recv_report n r [] (dg_base p) (dg_base p')"
    using report r e(2) by (auto simp: recv_report_def)
  moreover have "broken (dg_base p') \<or> dgmi p' w' \<and> same_tx (dg_base p) (dg_base p')"
    using e(2,7) set took by auto
  ultimately show thesis
    using e took by (intro that [of r p']) simp_all
qed

lemma recv_more_data:
  assumes set: "settled p w" and hold: "holding p w b c"
    and room: "buf_head b = 0" "buf_size b < capacity b" and len: "m \<le> n" "n + 5 \<le> lim"
    and call: "pipe_recv api (dg_io p) (capacity b - buf_size b) w = Ok (int (length bs), bs, q, w')"
    and took: "took p w bs q w'" and bs: "bs \<noteq> []" "length bs \<le> capacity b - buf_size b"
    and alive: "\<not> broken (pipe_flags api q)" "fin_rcvd (pipe_flags api q) = fin_rcvd (dg_base p)"
      "broken_ok (pipe_flags api q)"
  obtains r ds p' where "dgm_recv_more api p n w = Ok (r, ds, p', w')"
    "received c (buf_size b) n p w r ds p' w'"
proof -
  let ?b = "b\<lparr>buf_data := take (buf_size b) (buf_data b) @ bs @ drop (buf_size b + length bs) (buf_data b),
    buf_size := buf_size b + length bs\<rparr>"
  let ?p = "p\<lparr>dg_io := q, dg_rx := Some ?b\<rparr>"
  have b1: "wf_buf ?b" "buf_bytes ?b = buf_bytes b @ bs"
    using buf_bytes_append [of b bs] hold room bs(2) by simp_all
  have h: "holding ?p w' ?b c" using hold took b1 by simp
  have io: "inv (dg_io ?p) w'" "safe_stream (max_size ?p) (input (dg_io ?p) w')"
    using took alive(1) set by auto
  obtain k v where parse: "io_parse_size (buf_bytes ?b) (buf_size ?b) = Ok (k, v)"
    using dgm_parse(1) [OF io h] by blast
  have more: "dgm_recv_more api p n w = bind_res (process_rx ?p n) (\<lambda>(r, dgm_size, out, p).
      if r < 0 then dgm_recv_err p w'
      else dgm_recv_pass api (if 0 < r then c_int dgm_size else -1) out p w')"
    using hold room call bs(1) by (simp add: dgm_recv_more_def Let_def)
  have tx: "same_tx (dg_base p) (pipe_flags api q)" using took alive(1) by blast
  have len1: "max_size ?p \<le> n" using set len by simp
  have rx: "dg_rx ?p = Some ?b" by simp
  note keep = io set took tx
  from rx b1(1) len1 parse show thesis
  proof (cases rule: process_rx_cases)
    case (found d rest r b')
    obtain p' where e: "dgm_recv_pass api (c_int (length d)) d (?p\<lparr>dg_rx := Some b'\<rparr>) w' = Ok (int (length d), d, p', w')"
      "dg_base p' = pipe_flags api (dg_io ?p)" "dg_io p' = dg_io ?p" "max_size p' = max_size ?p"
      "dgmg p' w' = datagrams (max_size ?p) c @ one d" "dgmw p' w' + length d < work (dg_io ?p) w' + buf_size ?b"
      "d \<noteq> []" "length d \<le> n"
      "dg_hooked ?p \<Longrightarrow> max_hdr_size ?p = 5 \<Longrightarrow> max_size ?p \<le> m \<Longrightarrow> well_framed (sent (dg_io ?p) w') \<Longrightarrow> dgmi p' w'"
      by (rule recv_found_law [OF h io len1 len(2) found(1,4-6)]) (rule that)
    have out: "dgm_recv_more api p n w = Ok (int (length d), d, p', w')"
      using more found(2,3) e(1) by simp
    have "recv_report n (int (length d)) d (dg_base p) (dg_base p')" "dgmi p' w' \<and> same_tx (dg_base p) (dg_base p')"
      using e(2,7-9) alive keep by (simp_all add: recv_report_def)
    then show thesis using e(3-6) took by (intro that [OF out]) simp
  next
    case (wait k)
    obtain p' where e: "dgm_recv_pass api (-1) [] ?p w' = Ok (-1, [], p', w')"
      "dg_base p' = pipe_flags api (dg_io ?p)" "dg_io p' = dg_io ?p" "max_size p' = max_size ?p"
      "dgmg p' w' = datagrams (max_size ?p) c" "dgmw p' w' = work (dg_io ?p) w' + buf_size ?b"
      "inv (dg_io ?p) w' \<Longrightarrow> dg_hooked ?p \<Longrightarrow> max_hdr_size ?p = 5 \<Longrightarrow> max_size ?p \<le> m \<Longrightarrow>
       safe_stream (max_size ?p) (input (dg_io ?p) w') \<Longrightarrow> well_framed (sent (dg_io ?p) w') \<Longrightarrow> dgmi p' w'"
      by (rule recv_pass_law [OF h]) (rule that)
    have out: "dgm_recv_more api p n w = Ok (-1, [], p', w')" using more wait(2) e(1) by simp
    have "recv_report n (-1) [] (dg_base p) (dg_base p')" "dgmi p' w' \<and> same_tx (dg_base p) (dg_base p')"
      using e(2,7) alive keep by (simp_all add: recv_report_def)
    then show thesis using e(3-6) took by (intro that [OF out]) simp
  next
    case (bad k)
    obtain p' where e: "dgm_recv_err ?p w' = Ok (-1, [], p', w')"
      "dg_base p' = tag_pipe_as_broken (dg_base ?p)" "dg_io p' = dg_io ?p" "max_size p' = max_size ?p"
      "dgmg p' w' = datagrams (max_size ?p) c" "dgmw p' w' = work (dg_io ?p) w'"
      by (rule recv_err_law [OF h bad(1)]) (rule that)
    have out: "dgm_recv_more api p n w = Ok (-1, [], p', w')" using more bad(2) e(1) by simp
    show thesis using e took by (intro that [OF out]) (simp add: recv_report_def broken_ok_def)
  qed
qed

lemma recv_more_law:
  assumes set: "settled p w" and hold: "holding p w b c"
    and none: "next_frame (max_size p) (buf_bytes b) = None"
    and room: "buf_head b = 0" "buf_size b < capacity b"
    and len: "m \<le> n" "n + 5 \<le> lim" and rd: "readable (dg_base p)"
  obtains r bs p' w' where "dgm_recv_more api p n w = Ok (r, bs, p', w')"
    "received c (buf_size b) n p w r bs p' w'"
proof -
  have io: "inv (dg_io p) w" and stale: "stale_of (dg_base p) (pipe_flags api (dg_io p))"
    using set by blast+
  note same = stale_of_sel [OF stale]
  have rd_io: "readable (pipe_flags api (dg_io p))" using rd same by simp
  have space: "rmin \<le> capacity b - buf_size b" "capacity b - buf_size b \<le> lim"
    using room hold rmin_one by auto
  obtain r bs q w' where call: "pipe_recv api (dg_io p) (capacity b - buf_size b) w = Ok (r, bs, q, w')"
    and report: "recv_report (capacity b - buf_size b) r bs (dg_base p) (pipe_flags api q)"
    and took: "took p w bs q w'"
    using recv_law [OF io rd_io space] same by (auto simp: recv_report_def same_tx_def)
  consider "r \<le> 0" "bs = []" | "bs \<noteq> []" "r = int (length bs)" "length bs \<le> capacity b - buf_size b"
      "\<not> broken (pipe_flags api q)" "fin_rcvd (pipe_flags api q) = fin_rcvd (dg_base p)" "broken_ok (pipe_flags api q)"
    using report by (auto simp: recv_report_def)
  then show thesis
  proof cases
    case 1
    show thesis
      by (rule recv_more_empty [OF set hold none room, of r q w' n]) (use call report took 1 that in auto)
  next
    case 2
    show thesis
      by (rule recv_more_data [OF set hold room len, of bs q w']) (use call took 2 that in auto)
  qed
qed

lemma dgm_flags:
  assumes "dgmi p w"
  shows "flags_ok (dg_base p)"
    and "fin_asked (dg_io p) \<Longrightarrow> \<not> writable (dg_base p)"
    and "fin_sent (dg_base p) \<Longrightarrow> fin_asked (dg_io p)"
proof -
  have io: "inv (dg_io p) w" and stale: "stale_of (dg_base p) (pipe_flags api (dg_io p))"
    using assms by (simp_all add: dgm_inv_def)
  note same = stale_of_sel [OF stale] and ok = flags [OF io]
  show "flags_ok (dg_base p)" using ok same by (auto simp: flags_ok_def)
  show "fin_asked (dg_io p) \<Longrightarrow> \<not> writable (dg_base p)"
    using fin_asked_not_writable [OF io] same by simp
  show "fin_sent (dg_base p) \<Longrightarrow> fin_asked (dg_io p)"
    using fin_sent_asked [OF io] same by simp
qed

text \<open>\<open>recv\<close> with bytes in the buffer, and with no buffer.\<close>

lemma recv_held_law:
  assumes set: "settled p w" and hold: "holding p w b c"
    and rd: "readable (dg_base p)" and alive: "\<not> broken (dg_base p)" and size: "0 < buf_size b"
    and n: "m \<le> n" "n + 5 \<le> lim"
  obtains r bs p' w' where "dgm_pipe_recv api p n w = Ok (r, bs, p', w')"
    "received c (buf_size b) n p w r bs p' w'"
proof -
  have io: "inv (dg_io p) w" "safe_stream (max_size p) (input (dg_io p) w)" using set by blast+
  have stale: "stale_of (dg_base p) (pipe_flags api (dg_io p))" using set by blast
  note same = stale_of_sel [OF stale]
  have rx: "dg_rx p = Some b" "wf_buf b" using hold by blast+
  obtain k v where parse: "io_parse_size (buf_bytes b) (buf_size b) = Ok (k, v)"
    using dgm_parse(1) [OF io hold] by blast
  have len: "max_size p \<le> n" using set n(1) by simp
  from rx len parse show thesis
  proof (cases rule: process_rx_cases)
    case (found d rest r b')
    obtain p' where e: "dgm_recv_pass api (c_int (length d)) d (p\<lparr>dg_rx := Some b'\<rparr>) w = Ok (int (length d), d, p', w)"
      "dg_base p' = pipe_flags api (dg_io p)" "dg_io p' = dg_io p" "max_size p' = max_size p"
      "dgmg p' w = datagrams (max_size p) c @ one d" "dgmw p' w + length d < work (dg_io p) w + buf_size b"
      "d \<noteq> []" "length d \<le> n"
      "dg_hooked p \<Longrightarrow> max_hdr_size p = 5 \<Longrightarrow> max_size p \<le> m \<Longrightarrow> well_framed (sent (dg_io p) w) \<Longrightarrow> dgmi p' w"
      by (rule recv_found_law [OF hold io len n(2) found(1,4-6)]) (rule that)
    have out: "dgm_pipe_recv api p n w = Ok (int (length d), d, p', w)"
      using alive rx found(2,3) e(1) by (simp add: dgm_pipe_recv_def)
    have "recv_report n (int (length d)) d (dg_base p) (dg_base p')"
      using e(2,7,8) flags [OF io(1)] same by (simp add: recv_report_def broken_ok_def flags_ok_def)
    moreover have "dgmi p' w \<and> same_tx (dg_base p) (dg_base p')"
      using e(2,9) set same by (simp add: same_tx_def)
    ultimately show thesis using e(3-6) agree_refl by (intro that [OF out]) simp
  next
    case (wait k)
    obtain b' where b': "adjust_rx p (max_hdr_size p + n) = Ok (p\<lparr>dg_rx := Some b'\<rparr>)" "wf_buf b'"
      "buf_head b' = 0" "buf_bytes b' = buf_bytes b" "buf_size b' = buf_size b"
      "capacity b' = max (capacity b) (max_hdr_size p + n)"
      by (rule adjust_rx_law [OF rx]) (rule that)
    let ?p = "p\<lparr>dg_rx := Some b'\<rparr>"
    have h: "settled ?p w" "holding ?p w b' c" "next_frame (max_size ?p) (buf_bytes b') = None"
      "buf_size b' < capacity b'" "readable (dg_base ?p)"
      using set hold b' n(2) wait(1,4) rd by simp_all
    obtain r bs p' w' where m: "dgm_recv_more api ?p n w = Ok (r, bs, p', w')"
      "received c (buf_size b') n ?p w r bs p' w'"
      by (rule recv_more_law [OF h(1-3) b'(3) h(4) n h(5)]) (rule that)
    have "dgm_pipe_recv api p n w = Ok (r, bs, p', w')"
      using m(1) alive rx wait(2,3) b'(1) by (simp add: dgm_pipe_recv_def)
    then show thesis by (rule that) (use m(2) b'(5) in simp)
  next
    case (bad k)
    obtain p' where e: "dgm_recv_err p w = Ok (-1, [], p', w)"
      "dg_base p' = tag_pipe_as_broken (dg_base p)" "dg_io p' = dg_io p" "max_size p' = max_size p"
      "dgmg p' w = datagrams (max_size p) c" "dgmw p' w = work (dg_io p) w"
      by (rule recv_err_law [OF hold bad(1)]) (rule that)
    have out: "dgm_pipe_recv api p n w = Ok (-1, [], p', w)"
      using alive rx bad(2) e(1) by (simp add: dgm_pipe_recv_def)
    show thesis using e size agree_refl by (intro that [OF out]) (simp add: recv_report_def broken_ok_def)
  qed
qed

lemma recv_fresh_law:
  assumes set: "settled p w" and rx: "dg_rx p = None" and whole: "whole (max_size p) (rcvd (dg_io p) w)"
    and rd: "readable (dg_base p)" and alive: "\<not> broken (dg_base p)" and n: "m \<le> n" "n + 5 \<le> lim"
  obtains r bs p' w' where "dgm_pipe_recv api p n w = Ok (r, bs, p', w')"
    "received (rcvd (dg_io p) w) 0 n p w r bs p' w'"
proof -
  let ?b = "\<lparr>capacity = 5 + n, buf_head = 0, buf_size = 0, buf_data = replicate (5 + n) 0\<rparr>"
  let ?p = "p\<lparr>dg_rx := Some ?b\<rparr>"
  have "buf_bytes ?b = []" by (simp add: buf_bytes_def)
  then have h: "settled ?p w" "holding ?p w ?b (rcvd (dg_io p) w)"
    "next_frame (max_size ?p) (buf_bytes ?b) = None" "buf_head ?b = 0" "buf_size ?b < capacity ?b"
    "readable (dg_base ?p)"
    using set whole n(2) rd by simp_all
  obtain r bs p' w' where c: "dgm_recv_more api ?p n w = Ok (r, bs, p', w')"
    "received (rcvd (dg_io p) w) (buf_size ?b) n ?p w r bs p' w'"
    by (rule recv_more_law [OF h(1-5) n h(6)]) (rule that)
  have "dgm_pipe_recv api p n w = Ok (r, bs, p', w')"
    using c(1) alive set rx by (simp add: dgm_pipe_recv_def alloc_io_buffer_None)
  then show thesis by (rule that) (use c(2) in simp)
qed

lemma dgm_recv_law:
  assumes inv: "dgmi p w" and rd: "readable (dg_base p)" and n: "m \<le> n" "n \<le> lim - 5"
  shows "\<exists>r bs p' w'. dgm_pipe_recv api p n w = Ok (r, bs, p', w') \<and>
    recv_report n r bs (dg_base p) (dg_base p') \<and>
    dgmg p' w' = dgmg p w @ one bs \<and> dgmr p' w' = dgmr p w @ bs \<and> dgms p' w' = dgms p w \<and> dgmn p' w' = dgmn p w \<and>
    ep (dg_io p') = ep (dg_io p) \<and> fin_asked (dg_io p') = fin_asked (dg_io p) \<and>
    (\<forall>e. e \<noteq> ep (dg_io p) \<longrightarrow> agree e w w') \<and> dgmw p' w' + length bs < dgmw p w \<and>
    (broken (dg_base p') \<or> dgmi p' w' \<and> same_tx (dg_base p) (dg_base p'))"
proof -
  have alive: "\<not> broken (dg_base p)" using dgm_flags(1) [OF inv] by (simp add: flags_ok_def)
  have cap: "n + 5 \<le> lim" using n m_bounds by simp
  have goal: ?thesis if "dgm_pipe_recv api p n w = Ok (r, bs, p', w')" "received c k n p w r bs p' w'"
    "dgmg p w = datagrams (max_size p) c" "work (dg_io p) w + k = dgmw p w" for r bs p' w' c k
    using that by (intro exI [of _ r] exI [of _ bs] exI [of _ p'] exI [of _ w'])
      (simp add: dgm_sent_def dgm_input_def dgm_rcvd_def)
  from inv show ?thesis
  proof (cases rule: dgm_invE)
    case 1
    show ?thesis
      by (rule recv_fresh_law [OF 1 rd alive n(1) cap], rule goal, assumption+)
        (use 1 in \<open>simp_all add: dgm_datagrams_def dgm_work_def\<close>)
  next
    case (2 b c)
    show ?thesis
      by (rule recv_held_law [OF 2(1,2) rd alive 2(3) n(1) cap], rule goal, assumption+)
        (use 2(2) in \<open>simp_all add: dgm_datagrams_def dgm_work_def\<close>)
  qed
qed

text \<open>The packet that \<open>send\<close> hands to the pipe below is a frame.\<close>

lemma dgm_send_frame:
  assumes wr: "writable (dg_base p)" and hdr: "max_hdr_size p = 5"
    and bs: "length bs < 2 ^ 28"
  shows "\<exists>n. n = length (frame bs) \<and> dgm_pipe_send api p bs w =
    bind_res (pipe_send api (dg_io p) (frame bs) w) (\<lambda>(r, q, w).
      c_assert (r < 0 \<or> c_size r = n)
        (Ok (if 0 < r then c_int (length bs) else -1, dgm_pipe_clone_state api (p\<lparr>dg_io := q\<rparr>), w)))"
proof -
  let ?cap = "length bs + 5" and ?h = "varint (length bs)"
  have h: "length ?h \<le> 4" using length_varint_le [OF bs] .
  have x: "unat (of_nat (length bs) :: u64) mod 2 ^ 32 = length bs"
    using bs by (simp add: unsigned_of_nat take_bit_nat_eq_self)
  have store: "io_store_size (Some (replicate ?cap 0)) ?cap (of_nat (length bs)) =
      (int (length ?h), Some (?h @ replicate (?cap - length ?h) 0))"
    using io_store_size_Some [of "replicate ?cap 0" ?cap "of_nat (length bs)"] bs h
    by (simp only: x Let_def) simp
  have small: "c_size (int (length ?h)) = length ?h"
    using h by (simp add: c_size_nonneg)
  have bytes: "buf_bytes \<lparr>capacity = ?cap, buf_head = 0, buf_size = length ?h + length bs,
    buf_data = ?h @ bs @ xs\<rparr> = frame bs" for xs
    by (simp add: buf_bytes_def frame_def)
  have "length ?h + length bs = length (frame bs)" by (simp add: frame_def)
  moreover have "dgm_pipe_send api p bs w =
    bind_res (pipe_send api (dg_io p) (frame bs) w) (\<lambda>(r, q, w).
      c_assert (r < 0 \<or> c_size r = length ?h + length bs)
        (Ok (if 0 < r then c_int (length bs) else -1, dgm_pipe_clone_state api (p\<lparr>dg_io := q\<rparr>), w)))"
    using wr hdr h small by (simp add: dgm_pipe_send_def alloc_io_buffer_None store bytes Let_def)
  ultimately show ?thesis by (intro exI [of _ "length ?h + length bs"] conjI)
qed

lemma dgm_send_law:
  assumes inv: "dgmi p w" and wr: "writable (dg_base p)"
    and bs: "0 < length bs" "length bs \<le> lim - 5" "length bs < 2 ^ 28"
  shows "\<exists>r p' w'. dgm_pipe_send api p bs w = Ok (r, p', w') \<and>
    (r = -1 \<or> r = int (length bs)) \<and> send_report (length bs) r (dg_base p') \<and>
    dgms p' w' = dgms p w @ take (nat r) bs \<and>
    sent (dg_io p') w' = sent (dg_io p) w @ (if r = -1 then [] else frame bs) \<and> dgmr p' w' = dgmr p w \<and> dgmn p' w' = dgmn p w \<and>
    ep (dg_io p') = ep (dg_io p) \<and> fin_asked (dg_io p') = fin_asked (dg_io p) \<and>
    (\<forall>e. e \<noteq> ep (dg_io p) \<longrightarrow> agree e w w') \<and> dgmw p' w' \<le> dgmw p w \<and>
    (broken (dg_base p') \<or> dgmi p' w' \<and> same_rx (dg_base p) (dg_base p'))"
proof -
  have io: "inv (dg_io p) w" and stale: "stale_of (dg_base p) (pipe_flags api (dg_io p))"
    and hdr: "max_hdr_size p = 5" and wh: "well_framed (sent (dg_io p) w)"
    using inv by (simp_all add: dgm_inv_def)
  note same = stale_of_sel [OF stale]
  have wr_io: "writable (pipe_flags api (dg_io p))" using wr same by simp
  have flen: "0 < length (frame bs)" "length (frame bs) \<le> lim" "length (frame bs) < 2 ^ 31"
    using bs length_varint_le [OF bs(3)] m_bounds by (simp_all add: frame_def)
  obtain r q w' where call: "pipe_send api (dg_io p) (frame bs) w = Ok (r, q, w')"
    and report: "send_report (length (frame bs)) r (pipe_flags api q)"
    and hist: "sent q w' = sent (dg_io p) w @ take (nat r) (frame bs)" "rcvd q w' = rcvd (dg_io p) w"
      "input q w' = input (dg_io p) w" "ep q = ep (dg_io p)" "fin_asked q = fin_asked (dg_io p)"
      "\<forall>e. e \<noteq> ep (dg_io p) \<longrightarrow> agree e w w'" "work q w' \<le> work (dg_io p) w"
    and keep: "broken (pipe_flags api q) \<or>
      inv q w' \<and> same_rx (pipe_flags api (dg_io p)) (pipe_flags api q)"
    using send_law [OF io wr_io flen(1,2)] by blast
  have r: "r = -1 \<or> r = int (length (frame bs))"
    by (rule atomic [OF io wr_io flen(1,2) call])
  let ?p = "dgm_pipe_clone_state api (p\<lparr>dg_io := q\<rparr>)"
  let ?r = "if r = -1 then -1 else int (length bs)"
  have out: "dgm_pipe_send api p bs w = Ok (?r, ?p, w')"
    using dgm_send_frame [OF wr hdr bs(3)] call r flen bs(3) by (auto simp: c_size_nonneg c_int_small)
  have sent': "sent q w' = (if r = -1 then sent (dg_io p) w else sent (dg_io p) w @ frame bs)"
    using hist(1) r by auto
  have pay: "well_framed (sent q w')"
    "payload (2 ^ 28) (sent q w') = payload (2 ^ 28) (sent (dg_io p) w) @ take (nat ?r) bs"
    using sent' wh payload_frame [OF well_framed_whole [OF wh] _ bs(3)] well_framed_snoc [OF wh _ bs(3)] bs by auto
  have rx: "same_rx (pipe_flags api (dg_io p)) (pipe_flags api q) \<Longrightarrow> same_rx (dg_base p) (pipe_flags api q)"
    using same by (simp add: same_rx_def)
  have "send_report (length bs) ?r (dg_base ?p)"
    using report r flen(1) bs(1) by (auto simp: send_report_def)
  moreover have "dgms ?p w' = dgms p w @ take (nat ?r) bs" using pay(2) by (simp add: dgm_sent_def)
  moreover have "broken (dg_base ?p) \<or> dgmi ?p w' \<and> same_rx (dg_base p) (dg_base ?p)"
    using keep inv hist(2,3) pay(1) rx by (auto simp: dgm_inv_def)
  moreover have "?r = -1 \<or> ?r = int (length bs)" by simp
  moreover have "sent (dg_io ?p) w' = sent (dg_io p) w @ (if ?r = -1 then [] else frame bs)"
    using sent' by simp
  ultimately show ?thesis
    using out hist(2-7) by (intro exI [of _ ?r] exI [of _ ?p] exI [of _ w'])
      (simp add: dgm_rcvd_def dgm_datagrams_def dgm_input_def dgm_work_def)
qed

lemma dgm_send_fin_law:
  assumes inv: "dgmi p w" and fin: "\<not> fin_asked (dg_io p)" and rdy: "ready (dg_base p)"
  shows "\<exists>r p' w'. dgm_pipe_send_fin api p w = Ok (r, p', w') \<and>
    dgms p' w' = dgms p w \<and> dgmr p' w' = dgmr p w \<and> dgmn p' w' = dgmn p w \<and>
    ep (dg_io p') = ep (dg_io p) \<and> (\<forall>e. e \<noteq> ep (dg_io p) \<longrightarrow> agree e w w') \<and>
    dgmw p' w' \<le> dgmw p w \<and> broken_ok (dg_base p') \<and>
    (r < 0 \<and> broken (dg_base p') \<or>
     0 \<le> r \<and> fin_asked (dg_io p') \<and> dgmi p' w' \<and> same_rx (dg_base p) (dg_base p'))"
proof -
  have io: "inv (dg_io p) w" and stale: "stale_of (dg_base p) (pipe_flags api (dg_io p))"
    using inv by (simp_all add: dgm_inv_def)
  note same = stale_of_sel [OF stale]
  have rdy_io: "ready (pipe_flags api (dg_io p))" using rdy same by simp
  obtain r q w' where call: "pipe_send_fin api (dg_io p) w = Ok (r, q, w')"
    and hist: "sent q w' = sent (dg_io p) w" "rcvd q w' = rcvd (dg_io p) w"
      "input q w' = input (dg_io p) w" "ep q = ep (dg_io p)"
      "\<forall>e. e \<noteq> ep (dg_io p) \<longrightarrow> agree e w w'" "work q w' \<le> work (dg_io p) w"
      "broken_ok (pipe_flags api q)"
    and keep: "r < 0 \<and> broken (pipe_flags api q) \<or>
     0 \<le> r \<and> fin_asked q \<and> inv q w' \<and> same_rx (pipe_flags api (dg_io p)) (pipe_flags api q)"
    using send_fin_law [OF io fin rdy_io] by blast
  let ?p = "dgm_pipe_clone_state api (p\<lparr>dg_io := q\<rparr>)"
  have "same_rx (pipe_flags api (dg_io p)) (pipe_flags api q) \<Longrightarrow> same_rx (dg_base p) (pipe_flags api q)"
    using same by (simp add: same_rx_def)
  with keep have "r < 0 \<and> broken (dg_base ?p) \<or>
     0 \<le> r \<and> fin_asked (dg_io ?p) \<and> dgmi ?p w' \<and> same_rx (dg_base p) (dg_base ?p)"
    using inv hist(1-3) by (auto simp: dgm_inv_def)
  with call hist show ?thesis
    by (intro exI [of _ r] exI [of _ ?p] exI [of _ w'])
      (simp add: dgm_pipe_send_fin_def dgm_rcvd_def dgm_datagrams_def dgm_sent_def dgm_input_def dgm_work_def)
qed

lemma dgm_event_law:
  assumes inv: "dgmi p w" and ev: "ev_ok (dg_io p) ev"
  shows "\<exists>up p' w'. dgm_event api p ev w = Ok (up, p', w') \<and>
    event_report up (dg_base p) (dg_base p') \<and>
    dgms p' w' = dgms p w \<and> dgmr p' w' = dgmr p w \<and> dgmn p' w' = dgmn p w \<and>
    ep (dg_io p') = ep (dg_io p) \<and> fin_asked (dg_io p') = fin_asked (dg_io p) \<and>
    (\<forall>e. e \<noteq> ep (dg_io p) \<longrightarrow> agree e w w') \<and> dgmw p' w' \<le> Suc (dgmw p w) \<and>
    (broken (dg_base p') \<or> dgmi p' w')"
proof -
  have io: "inv (dg_io p) w" and stale: "stale_of (dg_base p) (pipe_flags api (dg_io p))"
    and hooked: "dg_hooked p"
    using inv by (simp_all add: dgm_inv_def)
  note same = stale_of_sel [OF stale]
  obtain up q w' where call: "pipe_event api (dg_io p) ev w = Ok (up, q, w')"
    and report: "event_report up (pipe_flags api (dg_io p)) (pipe_flags api q)"
    and hist: "sent q w' = sent (dg_io p) w" "rcvd q w' = rcvd (dg_io p) w"
      "input q w' = input (dg_io p) w" "ep q = ep (dg_io p)" "fin_asked q = fin_asked (dg_io p)"
      "\<forall>e. e \<noteq> ep (dg_io p) \<longrightarrow> agree e w w'" "work q w' \<le> Suc (work (dg_io p) w)"
    and keep: "broken (pipe_flags api q) \<or> inv q w'"
    using event_law [OF io ev] by blast
  note maps = dgm_rcvd_def dgm_datagrams_def dgm_sent_def dgm_input_def dgm_work_def
  show ?thesis
  proof (cases up)
    case None
    let ?p = "p\<lparr>dg_io := q\<rparr>"
    have "event_report None (dg_base p) (dg_base ?p)" "\<not> broken (pipe_flags api q)"
      "stale_of (dg_base p) (pipe_flags api q)"
      using report None dgm_flags(1) [OF inv] same
      by (auto simp: event_report_def broken_ok_def flags_ok_def intro!: stale_ofI split: if_splits)
    moreover from this have "dgmi ?p w'" using keep inv hist by (simp add: dgm_inv_def)
    ultimately show ?thesis
      using None call hist by (intro exI [of _ None] exI [of _ ?p] exI [of _ w'])
        (simp add: dgm_event_def maps)
  next
    case (Some e)
    let ?p = "dgm_pipe_clone_state api (p\<lparr>dg_io := q\<rparr>)"
    have "event_report (Some e) (dg_base p) (dg_base ?p)"
      using report Some same by (auto simp: event_report_def)
    moreover have "broken (dg_base ?p) \<or> dgmi ?p w'" using keep inv hist by (auto simp: dgm_inv_def)
    ultimately show ?thesis
      using Some call hist hooked by (intro exI [of _ "Some e"] exI [of _ ?p] exI [of _ w'])
        (simp add: dgm_event_def dgm_pipe_on_activity_def maps)
  qed
qed

end

text \<open>A datagram pipe over an atomic pipe keeps the contract of a pipe, and its sends are atomic.\<close>

sublocale dgm_stack \<subseteq> dgm: atomic_pipe
  "dgm_api api" dgmi dgms dgmr dgmn "\<lambda>p. fin_asked (dg_io p)" "\<lambda>p. ep (dg_io p)" agree
  "\<lambda>p ev. ev_ok (dg_io p) ev" dgmw m "min (lim - 5) (2 ^ 28 - 1)"
proof (unfold_locales, goal_cases)
  case (1 p w)
  then show ?case using dgm_flags(1) by simp
next
  case (2 p w)
  then show ?case using dgm_flags(2) by simp
next
  case (3 p w)
  then show ?case using dgm_flags(3) by simp
next
  case 4
  show ?case by simp
next
  case 5
  show ?case by (rule m_bounds(1))
next
  case (6 p w)
  then obtain rest c where "input (dg_io p) w = rcvd (dg_io p) w @ rest"
    "rcvd (dg_io p) w = c @ pending_bytes (dg_rx p)"
    using rcvd_input [of "dg_io p" w] by (auto simp: dgm_inv_def)
  then show ?case
    using payload_prefix [of "max_size p" c "pending_bytes (dg_rx p) @ rest"]
    by (simp add: dgm_input_def dgm_rcvd_def dgm_datagrams_def payload_def)
next
  case (7 e w)
  show ?case by (rule agree_refl)
next
  case 8
  then show ?case by (rule agree_trans)
next
  case (9 p w w')
  then have "inv (dg_io p) w' \<and> sent (dg_io p) w' = sent (dg_io p) w \<and>
      rcvd (dg_io p) w' = rcvd (dg_io p) w \<and> input (dg_io p) w' = input (dg_io p) w \<and>
      work (dg_io p) w' = work (dg_io p) w"
    using own [of "dg_io p" w w'] by (simp add: dgm_inv_def)
  then show ?case
    using 9(1) by (simp add: dgm_inv_def dgm_sent_def dgm_rcvd_def dgm_datagrams_def dgm_input_def dgm_work_def)
next
  case (10 p w n)
  then obtain r bs p' w' where c: "dgm_pipe_recv api p n w = Ok (r, bs, p', w')"
    "recv_report n r bs (dg_base p) (dg_base p')" "dgmr p' w' = dgmr p w @ bs" "dgms p' w' = dgms p w"
    "dgmn p' w' = dgmn p w" "ep (dg_io p') = ep (dg_io p)" "fin_asked (dg_io p') = fin_asked (dg_io p)"
    "\<forall>e. e \<noteq> ep (dg_io p) \<longrightarrow> agree e w w'" "dgmw p' w' + length bs < dgmw p w"
    "broken (dg_base p') \<or> dgmi p' w' \<and> same_tx (dg_base p) (dg_base p')"
    using dgm_recv_law [of p w n] by auto
  then show ?case by simp
next
  case (11 p w bs)
  then show ?case using dgm_send_law [of p w bs] by fastforce
next
  case (12 p w)
  then show ?case using dgm_send_fin_law [of p w] by simp
next
  case (13 p w ev)
  then show ?case using dgm_event_law [of p w ev] by simp
next
  case (14 p w bs r p' w')
  then show ?case using dgm_send_law [of p w bs] by auto
qed

end
