(* ===== verification/EventLoop.thy ===== *)
theory EventLoop
  imports Socket
begin

text \<open>
  The event loop interface of \<open>evl/inc/libp/event_loop.h\<close>: the three function pointers a
  pipe calls, and what they promise.  A callback and its context are one natural number, the
  identity of the object to be called back.
\<close>

record 'e event_loop =
  add_socket :: "int \<Rightarrow> uint \<Rightarrow> nat \<Rightarrow> 'e \<Rightarrow> 'e res"
  mod_socket :: "int \<Rightarrow> uint \<Rightarrow> 'e \<Rightarrow> 'e res"
  del_socket :: "int \<Rightarrow> 'e \<Rightarrow> 'e res"

text \<open>
  \<open>registered\<close> is what a client can rely on: the mask and the callback it gave for each
  socket.  \<open>sk_valid\<close> says which descriptors the loop can hold, \<open>del_ok\<close> when a socket
  may be removed.
\<close>

locale event_loop_contract =
  fixes el :: "'e event_loop"
    and evl_inv :: "'e \<Rightarrow> bool"
    and registered :: "'e \<Rightarrow> int \<rightharpoonup> uint \<times> nat"
    and sk_valid :: "int \<Rightarrow> bool"
    and del_ok :: "'e \<Rightarrow> int \<Rightarrow> bool"
  assumes add_law: "evl_inv e \<Longrightarrow> sk_valid sk \<Longrightarrow> registered e sk = None \<Longrightarrow>
      \<exists>e'. add_socket el sk m c e = Ok e' \<and> evl_inv e' \<and>
        registered e' = (registered e)(sk \<mapsto> (m, c))"
    and mod_law: "evl_inv e \<Longrightarrow> registered e sk = Some (m, c) \<Longrightarrow>
      \<exists>e'. mod_socket el sk m' e = Ok e' \<and> evl_inv e' \<and>
        registered e' = (registered e)(sk \<mapsto> (m', c))"
    and del_law: "evl_inv e \<Longrightarrow> registered e sk = Some (m, c) \<Longrightarrow> del_ok e sk \<Longrightarrow>
      \<exists>e'. del_socket el sk e = Ok e' \<and> evl_inv e' \<and> registered e' = (registered e)(sk := None)"

end
