(* ===== verification/TcpPipe.thy ===== *)
theory TcpPipe
  imports EventLoop
begin

unbundle bit_operations_syntax

text \<open>
  The tcp pipe of \<open>io/src/io_pipe_tcp.c\<close>: a socket, the state bits that mirror what the last
  calls on it said, and the mask it has registered with the event loop.

  Each function follows its C counterpart, assertions and error branches included; the event
  loop is a parameter \<open>el\<close> of the functions that call it.  \<open>tcp_inv\<close> is the invariant: the
  pipe is registered with exactly the mask \<open>tcp_wanted\<close> of its state, so that every event it is
  sent is one its handler expects.  The last section shows that the pipe meets
  \<open>pipe_contract\<close> over any event loop that meets \<open>event_loop_contract\<close>.
\<close>

section \<open>The code\<close>

text \<open>
  \<open>tp_hooked\<close> is whether \<open>on_activity\<close> is set, \<open>tp_evl\<close> whether \<open>p->evl\<close> is, and
  \<open>tp_self\<close> is the address of the pipe itself.
\<close>

record tcp_pipe =
  tp_base :: pipe_flags
  tp_hooked :: bool
  tp_evl :: bool
  tp_sk :: int
  tp_sk_mask :: uint
  tp_self :: nat

definition new_tcp_pipe :: "nat \<Rightarrow> int \<Rightarrow> tcp_pipe" where
  "new_tcp_pipe self sk =
     \<lparr>tp_base = zero_flags, tp_hooked = False, tp_evl = False, tp_sk = sk, tp_sk_mask = 0, tp_self = self\<rparr>"

text \<open>The mask computed at the start of \<open>tcp_pipe_adjust_event_mask\<close>.\<close>

definition tcp_wanted :: "pipe_flags \<Rightarrow> uint" where
  "tcp_wanted f =
     (if ready f \<and> \<not> broken f
      then (if \<not> readable f \<and> \<not> fin_rcvd f then SK_EV_readable else 0) OR
           (if \<not> writable f \<and> \<not> fin_sent f then SK_EV_writable else 0)
      else 0)"

definition tcp_pipe_adjust_event_mask ::
  "'e event_loop \<Rightarrow> tcp_pipe \<Rightarrow> 'e world \<Rightarrow> (tcp_pipe \<times> 'e world) res" where
  "tcp_pipe_adjust_event_mask el p w =
     (let sk_mask = tcp_wanted (tp_base p) in
      if tp_sk_mask p = sk_mask then Ok (p, w)
      else if \<not> tp_evl p then Stop Null_dereference
      else bind_res (mod_socket el (tp_sk p) sk_mask (w_evl w))
        (\<lambda>e. Ok (p\<lparr>tp_sk_mask := sk_mask\<rparr>, w\<lparr>w_evl := e\<rparr>)))"

text \<open>The two blocks of \<open>tcp_pipe_on_activity\<close> for readable and writable sockets.\<close>

definition tcp_ready_events :: "pipe_flags \<Rightarrow> uint \<Rightarrow> uint \<Rightarrow> (uint \<times> pipe_flags) res" where
  "tcp_ready_events f sk_events io_events =
     bind_res
       (if has sk_events SK_EV_readable
        then c_assert (\<not> fin_rcvd f) (Ok (io_events OR IO_EV_readable, f\<lparr>readable := True\<rparr>))
        else Ok (io_events, f))
       (\<lambda>(io_events, f).
         if has sk_events SK_EV_writable
         then c_assert (\<not> fin_sent f) (Ok (io_events OR IO_EV_writable, f\<lparr>writable := True\<rparr>))
         else Ok (io_events, f))"

definition tcp_pipe_on_activity ::
  "'e event_loop \<Rightarrow> tcp_pipe \<Rightarrow> uint \<Rightarrow> 'e world \<Rightarrow> (uint option \<times> tcp_pipe \<times> 'e world) res" where
  "tcp_pipe_on_activity el p sk_events w =
     bind_res
       (if \<not> ready (tp_base p)
        then c_assert (has sk_events (SK_EV_error OR SK_EV_writable))
          (let (err, w) = sk_error (tp_sk p) w in
           if has sk_events SK_EV_error \<or> (has sk_events SK_EV_writable \<and> err \<noteq> 0)
           then Ok (IO_EV_broken, tag_pipe_as_broken (tp_base p), w)
           else bind_res (tcp_ready_events ((tp_base p)\<lparr>ready := True\<rparr>) sk_events IO_EV_ready)
             (\<lambda>(io_events, f). Ok (io_events, f, w)))
        else bind_res (tcp_ready_events (tp_base p) sk_events 0)
             (\<lambda>(io_events, f). Ok (io_events, f, w)))
       (\<lambda>(io_events, f, w).
         bind_res (tcp_pipe_adjust_event_mask el (p\<lparr>tp_base := f\<rparr>) w)
           (\<lambda>(p, w). if tp_hooked p then Ok (Some io_events, p, w) else Stop Null_dereference))"

definition tcp_pipe_init :: "'e event_loop \<Rightarrow> tcp_pipe \<Rightarrow> 'e world \<Rightarrow> (tcp_pipe \<times> 'e world) res" where
  "tcp_pipe_init el p w =
     c_assert (\<not> tp_evl p) (c_assert (tp_hooked p) (c_assert (get_pipe_state (tp_base p) = 0x00)
       (bind_res (add_socket el (tp_sk p) SK_EV_writable (tp_self p) (w_evl w))
         (\<lambda>e. Ok (p\<lparr>tp_evl := True, tp_sk_mask := SK_EV_writable\<rparr>, w\<lparr>w_evl := e\<rparr>)))))"

definition tcp_pipe_recv ::
  "'e event_loop \<Rightarrow> tcp_pipe \<Rightarrow> nat \<Rightarrow> 'e world \<Rightarrow> (int \<times> byte list \<times> tcp_pipe \<times> 'e world) res" where
  "tcp_pipe_recv el p len w =
     c_assert (tp_evl p)
       (let (r, bs, w) = sk_recv (tp_sk p) len w;
            f = tp_base p;
            f = (if 0 < r then f\<lparr>readable := True\<rparr>
                 else if r < 0 then
                   (let f = f\<lparr>readable := False\<rparr> in
                    if sk_recv_fatal (sk_errno w) then tag_pipe_as_broken f else f)
                 else f\<lparr>readable := False, fin_rcvd := True\<rparr>)
        in bind_res (tcp_pipe_adjust_event_mask el (p\<lparr>tp_base := f\<rparr>) w)
             (\<lambda>(p, w). Ok (r, bs, p, w)))"

definition tcp_pipe_send ::
  "'e event_loop \<Rightarrow> tcp_pipe \<Rightarrow> byte list \<Rightarrow> 'e world \<Rightarrow> (int \<times> tcp_pipe \<times> 'e world) res" where
  "tcp_pipe_send el p bs w =
     c_assert (tp_evl p)
       (let (r, w) = sk_send (tp_sk p) bs w;
            f = tp_base p;
            f = (if c_size r = length bs then f\<lparr>writable := True\<rparr>
                 else if 0 \<le> r then f\<lparr>writable := False\<rparr>
                 else
                   (let f = f\<lparr>writable := False\<rparr> in
                    if sk_send_fatal (sk_errno w) then tag_pipe_as_broken f else f))
        in bind_res (tcp_pipe_adjust_event_mask el (p\<lparr>tp_base := f\<rparr>) w)
             (\<lambda>(p, w). Ok (r, p, w)))"

definition tcp_pipe_send_fin ::
  "'e event_loop \<Rightarrow> tcp_pipe \<Rightarrow> 'e world \<Rightarrow> (int \<times> tcp_pipe \<times> 'e world) res" where
  "tcp_pipe_send_fin el p w =
     c_assert (tp_evl p) (c_assert (\<not> fin_sent (tp_base p))
       (let (r, w) = sk_shutdown (tp_sk p) w;
            f = tp_base p;
            f = (if r < 0 then tag_pipe_as_broken f else f\<lparr>writable := False, fin_sent := True\<rparr>)
        in bind_res (tcp_pipe_adjust_event_mask el (p\<lparr>tp_base := f\<rparr>) w)
             (\<lambda>(p, w). Ok (r, p, w))))"

definition tcp_pipe_discard :: "'e event_loop \<Rightarrow> tcp_pipe \<Rightarrow> 'e world \<Rightarrow> 'e world res" where
  "tcp_pipe_discard el p w =
     bind_res
       (if tp_evl p
        then bind_res (del_socket el (tp_sk p) (w_evl w)) (\<lambda>e. Ok (w\<lparr>w_evl := e\<rparr>))
        else Ok w)
       (\<lambda>w. Ok (sk_close (tp_sk p) w))"

text \<open>The function pointers set by \<open>new_tcp_pipe\<close>.\<close>

definition tcp_api :: "'e event_loop \<Rightarrow> (tcp_pipe, 'e world) io_pipe" where
  "tcp_api el =
     \<lparr>pipe_flags = tp_base, pipe_hook = (\<lambda>p. p\<lparr>tp_hooked := True\<rparr>), pipe_init = tcp_pipe_init el, pipe_recv = tcp_pipe_recv el,
      pipe_send = tcp_pipe_send el, pipe_send_fin = tcp_pipe_send_fin el,
      pipe_discard = tcp_pipe_discard el, pipe_event = tcp_pipe_on_activity el\<rparr>"


section \<open>The invariant\<close>

definition tcp_inv ::
  "('e \<Rightarrow> bool) \<Rightarrow> ('e \<Rightarrow> int \<rightharpoonup> uint \<times> nat) \<Rightarrow> tcp_pipe \<Rightarrow> 'e world \<Rightarrow> bool" where
  "tcp_inv evl_inv registered p w \<longleftrightarrow>
     tp_evl p \<and> tp_hooked p \<and> evl_inv (w_evl w) \<and>
     registered (w_evl w) (tp_sk p) = Some (tp_sk_mask p, tp_self p) \<and>
     flags_ok (tp_base p) \<and>
     (if ready (tp_base p) then tp_sk_mask p = tcp_wanted (tp_base p)
      else tp_sk_mask p = SK_EV_writable \<and> \<not> fin_sent (tp_base p) \<and> \<not> fin_rcvd (tp_base p))"

text \<open>The histories are the socket's logs.\<close>

definition tcp_sent :: "tcp_pipe \<Rightarrow> 'e world \<Rightarrow> byte list" where
  "tcp_sent p w = tx_log (w_sock w (tp_sk p))"

definition tcp_rcvd :: "tcp_pipe \<Rightarrow> 'e world \<Rightarrow> byte list" where
  "tcp_rcvd p w = rx_log (w_sock w (tp_sk p))"

text \<open>The whole stream of the peer: what has been received and what is still to come.\<close>

definition tcp_input :: "tcp_pipe \<Rightarrow> 'e world \<Rightarrow> byte list" where
  "tcp_input p w = rx_log (w_sock w (tp_sk p)) @ script_bytes (rx_script (w_sock w (tp_sk p)))"

text \<open>An event loop delivers a nonempty subset of the registered mask, and errors.\<close>

definition tcp_ev_ok :: "tcp_pipe \<Rightarrow> uint \<Rightarrow> bool" where
  "tcp_ev_ok p ev \<longleftrightarrow> ev \<noteq> 0 \<and> ev AND NOT (tp_sk_mask p OR SK_EV_error) = 0"

definition tcp_work :: "tcp_pipe \<Rightarrow> 'e world \<Rightarrow> nat" where
  "tcp_work p w =
     2 * script_size (rx_script (w_sock w (tp_sk p))) + (if readable (tp_base p) then 1 else 0)"

definition tcp_agree ::
  "('e \<Rightarrow> bool) \<Rightarrow> ('e \<Rightarrow> int \<rightharpoonup> uint \<times> nat) \<Rightarrow> int \<Rightarrow> 'e world \<Rightarrow> 'e world \<Rightarrow> bool" where
  "tcp_agree evl_inv registered sk w w' \<longleftrightarrow>
     w_sock w' sk = w_sock w sk \<and> registered (w_evl w') sk = registered (w_evl w) sk \<and>
     (evl_inv (w_evl w) \<longrightarrow> evl_inv (w_evl w'))"

section \<open>Lemmas\<close>

lemma tcp_api_sel [simp]:
  "pipe_flags (tcp_api el) = tp_base"
  "pipe_init (tcp_api el) = tcp_pipe_init el"
  "pipe_recv (tcp_api el) = tcp_pipe_recv el"
  "pipe_send (tcp_api el) = tcp_pipe_send el"
  "pipe_send_fin (tcp_api el) = tcp_pipe_send_fin el"
  "pipe_discard (tcp_api el) = tcp_pipe_discard el"
  "pipe_event (tcp_api el) = tcp_pipe_on_activity el"
  by (simp_all add: tcp_api_def)

text \<open>What a socket call does to the world, seen from its own and from other sockets.\<close>

lemma sk_recv_report:
  assumes "sk_recv sk n w = (r, bs, w')" and "0 < n" and "n < 2 ^ 31"
  shows "w_evl w' = w_evl w"
    and "\<And>s. s \<noteq> sk \<Longrightarrow> w_sock w' s = w_sock w s"
    and "tx_log (w_sock w' sk) = tx_log (w_sock w sk)"
    and "rx_log (w_sock w' sk) = rx_log (w_sock w sk) @ bs"
    and "script_bytes (rx_script (w_sock w sk)) = bs @ script_bytes (rx_script (w_sock w' sk))"
    and "(0 < r \<and> r = int (length bs) \<and> length bs \<le> n \<and>
          script_size (rx_script (w_sock w' sk)) + length bs \<le> script_size (rx_script (w_sock w sk))) \<or>
      (r = 0 \<and> bs = [] \<and>
          script_size (rx_script (w_sock w' sk)) \<le> script_size (rx_script (w_sock w sk))) \<or>
      (r = -1 \<and> bs = [] \<and> w_errno w' \<noteq> EINTR \<and>
          script_size (rx_script (w_sock w' sk)) \<le> script_size (rx_script (w_sock w sk)))"
proof -
  obtain r1 bs1 e s where retry: "recv_retry n (rx_script (w_sock w sk)) (w_errno w) = (r1, bs1, e, s)"
    by (cases "recv_retry n (rx_script (w_sock w sk)) (w_errno w)") auto
  show "w_evl w' = w_evl w" "\<And>s. s \<noteq> sk \<Longrightarrow> w_sock w' s = w_sock w s"
    "tx_log (w_sock w' sk) = tx_log (w_sock w sk)"
    "rx_log (w_sock w' sk) = rx_log (w_sock w sk) @ bs"
    "script_bytes (rx_script (w_sock w sk)) = bs @ script_bytes (rx_script (w_sock w' sk))"
    "(0 < r \<and> r = int (length bs) \<and> length bs \<le> n \<and>
          script_size (rx_script (w_sock w' sk)) + length bs \<le> script_size (rx_script (w_sock w sk))) \<or>
      (r = 0 \<and> bs = [] \<and>
          script_size (rx_script (w_sock w' sk)) \<le> script_size (rx_script (w_sock w sk))) \<or>
      (r = -1 \<and> bs = [] \<and> w_errno w' \<noteq> EINTR \<and>
          script_size (rx_script (w_sock w' sk)) \<le> script_size (rx_script (w_sock w sk)))"
    using assms(1) retry recv_retry_report [OF retry assms(2,3)] recv_retry_bytes [OF retry assms(3)]
    by (auto simp: sk_recv_def Let_def)
qed

lemma sk_send_report:
  assumes "sk_send sk bs w = (r, w')" and "length bs < 2 ^ 31"
  shows "w_evl w' = w_evl w"
    and "\<And>s. s \<noteq> sk \<Longrightarrow> w_sock w' s = w_sock w s"
    and "rx_log (w_sock w' sk) = rx_log (w_sock w sk)"
    and "rx_script (w_sock w' sk) = rx_script (w_sock w sk)"
    and "tx_log (w_sock w' sk) = tx_log (w_sock w sk) @ take (nat r) bs"
    and "-1 \<le> r" and "r \<le> int (length bs)"
proof -
  obtain r1 e s where retry: "send_retry (length bs) (tx_script (w_sock w sk)) (w_errno w) = (r1, e, s)"
    by (cases "send_retry (length bs) (tx_script (w_sock w sk)) (w_errno w)") auto
  show "w_evl w' = w_evl w" "\<And>s. s \<noteq> sk \<Longrightarrow> w_sock w' s = w_sock w s"
    "rx_log (w_sock w' sk) = rx_log (w_sock w sk)"
    "rx_script (w_sock w' sk) = rx_script (w_sock w sk)"
    "tx_log (w_sock w' sk) = tx_log (w_sock w sk) @ take (nat r) bs"
    "-1 \<le> r" "r \<le> int (length bs)"
    using assms(1) retry send_retry_report [OF retry assms(2)]
    by (auto simp: sk_send_def Let_def)
qed

lemma sk_shutdown_report:
  assumes "sk_shutdown sk w = (r, w')"
  shows "w_evl w' = w_evl w"
    and "\<And>s. s \<noteq> sk \<Longrightarrow> w_sock w' s = w_sock w s"
    and "rx_log (w_sock w' sk) = rx_log (w_sock w sk)"
    and "rx_script (w_sock w' sk) = rx_script (w_sock w sk)"
    and "tx_log (w_sock w' sk) = tx_log (w_sock w sk)"
    and "r = 0 \<and> fin_out (w_sock w' sk) \<or> r = -1"
  using assms by (auto simp: sk_shutdown_def Let_def split: list.splits if_splits)

lemma sk_error_report:
  assumes "sk_error sk w = (r, w')"
  shows "w_evl w' = w_evl w"
    and "\<And>s. s \<noteq> sk \<Longrightarrow> w_sock w' s = w_sock w s"
    and "rx_log (w_sock w' sk) = rx_log (w_sock w sk)"
    and "rx_script (w_sock w' sk) = rx_script (w_sock w sk)"
    and "tx_log (w_sock w' sk) = tx_log (w_sock w sk)"
  using assms by (auto simp: sk_error_def Let_def split: list.splits if_splits)

section \<open>The contract\<close>

lemma tcp_wanted_broken [simp]: "broken f \<Longrightarrow> tcp_wanted f = 0"
  by (simp add: tcp_wanted_def)

lemma has_wanted [word_flags]:
  "has (tcp_wanted f) SK_EV_readable \<longleftrightarrow> ready f \<and> \<not> broken f \<and> \<not> readable f \<and> \<not> fin_rcvd f"
  "has (tcp_wanted f) SK_EV_writable \<longleftrightarrow> ready f \<and> \<not> broken f \<and> \<not> writable f \<and> \<not> fin_sent f"
  "\<not> has (tcp_wanted f) SK_EV_error"
  by (simp_all add: tcp_wanted_def word_flags)

text \<open>An event of a delivered mask is one of the registered mask.\<close>

lemma has_subset: "ev AND NOT m = 0 \<Longrightarrow> has ev f \<Longrightarrow> has m f"
  by (simp add: has_def bit_eq_iff bit_simps) blast

lemma tcp_ev_ok_has:
  assumes "tcp_ev_ok p ev"
  shows "has ev SK_EV_readable \<Longrightarrow> has (tp_sk_mask p) SK_EV_readable"
    and "has ev SK_EV_writable \<Longrightarrow> has (tp_sk_mask p) SK_EV_writable"
    and "tp_sk_mask p = SK_EV_writable \<Longrightarrow> has ev (SK_EV_error OR SK_EV_writable)"
proof -
  have sub: "ev AND NOT (tp_sk_mask p OR SK_EV_error) = 0" and "ev \<noteq> 0"
    using assms by (simp_all add: tcp_ev_ok_def)
  show "has ev SK_EV_readable \<Longrightarrow> has (tp_sk_mask p) SK_EV_readable"
    "has ev SK_EV_writable \<Longrightarrow> has (tp_sk_mask p) SK_EV_writable"
    using has_subset [OF sub, of SK_EV_readable] has_subset [OF sub, of SK_EV_writable]
    by (auto simp: word_flags)
  have "ev AND (tp_sk_mask p OR SK_EV_error) = ev"
    using sub by (metis (no_types, opaque_lifting) and.right_neutral bit.conj_disj_distrib
        bit.disj_cancel_right or.right_neutral)
  with \<open>ev \<noteq> 0\<close> show "has ev (SK_EV_error OR SK_EV_writable)" if "tp_sk_mask p = SK_EV_writable"
    using that by (simp add: has_def or.commute)
qed

lemma tcp_ready_events_Ok:
  assumes "has ev SK_EV_readable \<Longrightarrow> \<not> fin_rcvd f" and "has ev SK_EV_writable \<Longrightarrow> \<not> fin_sent f"
  obtains io f' where "tcp_ready_events f ev io_in = Ok (io, f')"
    "f' = f\<lparr>readable := readable f \<or> has ev SK_EV_readable, writable := writable f \<or> has ev SK_EV_writable\<rparr>"
    "has io IO_EV_readable \<longleftrightarrow> has io_in IO_EV_readable \<or> has ev SK_EV_readable"
    "has io IO_EV_writable \<longleftrightarrow> has io_in IO_EV_writable \<or> has ev SK_EV_writable"
    "has io IO_EV_broken \<longleftrightarrow> has io_in IO_EV_broken" "has io IO_EV_ready \<longleftrightarrow> has io_in IO_EV_ready"
proof (rule that)
  let ?f = "f\<lparr>readable := readable f \<or> has ev SK_EV_readable,
    writable := writable f \<or> has ev SK_EV_writable\<rparr>"
  let ?io = "(io_in OR (if has ev SK_EV_readable then IO_EV_readable else 0)) OR
    (if has ev SK_EV_writable then IO_EV_writable else 0)"
  show "tcp_ready_events f ev io_in = Ok (?io, ?f)"
    using assms by (cases f) (simp add: tcp_ready_events_def)
qed (simp_all add: word_flags)

text \<open>The callback always ends in a call of \<open>on_activity\<close>, on a pipe that is connected or broken.\<close>

lemma tcp_ready_events_ready: "tcp_ready_events f ev io = Ok (io', f') \<Longrightarrow> ready f' = ready f"
  by (auto simp: tcp_ready_events_def c_assert_def split: if_splits)

lemma tcp_adjust_base: "tcp_pipe_adjust_event_mask el p w = Ok (p', w') \<Longrightarrow> tp_base p' = tp_base p"
  by (auto simp: tcp_pipe_adjust_event_mask_def Let_def bind_res_eq_Ok split: if_splits)

lemma tcp_activity_up:
  assumes "tcp_pipe_on_activity el p ev w = Ok (up, p', w')"
  shows "\<exists>io. up = Some io \<and> (ready (tp_base p') \<or> broken (tp_base p'))"
  using assms tcp_adjust_base tcp_ready_events_ready
  by (fastforce simp: tcp_pipe_on_activity_def bind_res_eq_Ok c_assert_eq_Ok Let_def
      split: if_splits prod.splits)

context event_loop_contract begin

text \<open>
  Every operation ends in \<open>tcp_pipe_adjust_event_mask\<close>: it succeeds, leaves the sockets and
  the other registrations alone, and restores the invariant when the state bits are consistent.
\<close>

lemma adjust_mask:
  assumes inv: "tcp_inv evl_inv registered p w"
    and evl: "w_evl w1 = w_evl w"
    and others: "\<And>s. s \<noteq> tp_sk p \<Longrightarrow> w_sock w1 s = w_sock w s"
  obtains p' w' where
    "tcp_pipe_adjust_event_mask el (p\<lparr>tp_base := f\<rparr>) w1 = Ok (p', w')"
    "tp_base p' = f" "tp_sk p' = tp_sk p" "tp_hooked p'" "w_sock w' = w_sock w1"
    "\<forall>e. e \<noteq> tp_sk p \<longrightarrow> tcp_agree evl_inv registered e w w'"
    "flags_ok f \<Longrightarrow> ready f \<Longrightarrow> tcp_inv evl_inv registered p' w'"
proof (cases "tp_sk_mask p = tcp_wanted f")
  case True
  then show ?thesis
    using that [of "p\<lparr>tp_base := f\<rparr>" w1] inv evl others
    by (auto simp: tcp_pipe_adjust_event_mask_def tcp_inv_def tcp_agree_def)
next
  case False
  obtain e' where mod: "mod_socket el (tp_sk p) (tcp_wanted f) (w_evl w) = Ok e'" "evl_inv e'"
    "registered e' = (registered (w_evl w))(tp_sk p \<mapsto> (tcp_wanted f, tp_self p))"
    using mod_law [of "w_evl w" "tp_sk p" "tp_sk_mask p" "tp_self p" "tcp_wanted f"] inv
    by (auto simp: tcp_inv_def)
  show ?thesis
    using that [of "p\<lparr>tp_base := f, tp_sk_mask := tcp_wanted f\<rparr>" "w1\<lparr>w_evl := e'\<rparr>"]
      False inv evl others mod
    by (auto simp: tcp_pipe_adjust_event_mask_def tcp_inv_def tcp_agree_def Let_def)
qed

lemma tcp_recv_law:
  assumes inv: "tcp_inv evl_inv registered p w" and rd: "readable (tp_base p)"
    and n: "0 < n" "n < 2 ^ 31"
  shows "\<exists>r bs p' w'. tcp_pipe_recv el p n w = Ok (r, bs, p', w') \<and>
    recv_report n r bs (tp_base p) (tp_base p') \<and>
    tcp_rcvd p' w' = tcp_rcvd p w @ bs \<and> tcp_sent p' w' = tcp_sent p w \<and> tcp_input p' w' = tcp_input p w \<and>
    tp_sk p' = tp_sk p \<and> fin_sent (tp_base p') = fin_sent (tp_base p) \<and>
    (\<forall>e. e \<noteq> tp_sk p \<longrightarrow> tcp_agree evl_inv registered e w w') \<and>
    tcp_work p' w' + length bs < tcp_work p w \<and>
    (broken (tp_base p') \<or> tcp_inv evl_inv registered p' w' \<and> same_tx (tp_base p) (tp_base p'))"
proof -
  obtain r bs w1 where rx: "sk_recv (tp_sk p) n w = (r, bs, w1)"
    by (cases "sk_recv (tp_sk p) n w") auto
  note report = sk_recv_report [OF rx n]
  define f where "f = (if 0 < r then (tp_base p)\<lparr>readable := True\<rparr>
     else if r < 0 then
       (let f = (tp_base p)\<lparr>readable := False\<rparr> in
        if sk_recv_fatal (sk_errno w1) then tag_pipe_as_broken f else f)
     else (tp_base p)\<lparr>readable := False, fin_rcvd := True\<rparr>)"
  obtain p' w' where adj:
    "tcp_pipe_adjust_event_mask el (p\<lparr>tp_base := f\<rparr>) w1 = Ok (p', w')"
    "tp_base p' = f" "tp_sk p' = tp_sk p" "tp_hooked p'" "w_sock w' = w_sock w1"
    "\<forall>e. e \<noteq> tp_sk p \<longrightarrow> tcp_agree evl_inv registered e w w'"
    "flags_ok f \<Longrightarrow> ready f \<Longrightarrow> tcp_inv evl_inv registered p' w'"
    using adjust_mask [OF inv report(1,2), of f] by blast
  have call: "tcp_pipe_recv el p n w = Ok (r, bs, p', w')"
    using inv rx adj(1) by (simp add: tcp_pipe_recv_def tcp_inv_def f_def)
  have ok: "flags_ok (tp_base p)" "ready (tp_base p)"
    using inv rd by (auto simp: tcp_inv_def flags_ok_def)
  have "recv_report n r bs (tp_base p) f" "fin_sent f = fin_sent (tp_base p)"
    "broken f \<or> flags_ok f \<and> ready f \<and> same_tx (tp_base p) f"
    using report(6) ok rd
    by (auto simp: f_def recv_report_def broken_ok_def flags_ok_def same_tx_def Let_def)
  moreover have "tcp_work p' w' + length bs < tcp_work p w"
    using report(6) rd by (auto simp: tcp_work_def adj f_def Let_def simp del: length_greater_0_conv)
  ultimately show ?thesis
    using call adj report(3-5) by (auto simp: tcp_sent_def tcp_rcvd_def tcp_input_def)
qed

lemma tcp_send_law:
  assumes inv: "tcp_inv evl_inv registered p w" and wr: "writable (tp_base p)"
    and n: "length bs < 2 ^ 31"
  shows "\<exists>r p' w'. tcp_pipe_send el p bs w = Ok (r, p', w') \<and>
    send_report (length bs) r (tp_base p') \<and>
    tcp_sent p' w' = tcp_sent p w @ take (nat r) bs \<and> tcp_rcvd p' w' = tcp_rcvd p w \<and> tcp_input p' w' = tcp_input p w \<and>
    tp_sk p' = tp_sk p \<and> fin_sent (tp_base p') = fin_sent (tp_base p) \<and>
    (\<forall>e. e \<noteq> tp_sk p \<longrightarrow> tcp_agree evl_inv registered e w w') \<and>
    tcp_work p' w' \<le> tcp_work p w \<and>
    (broken (tp_base p') \<or> tcp_inv evl_inv registered p' w' \<and> same_rx (tp_base p) (tp_base p'))"
proof -
  obtain r w1 where tx: "sk_send (tp_sk p) bs w = (r, w1)"
    by (cases "sk_send (tp_sk p) bs w") auto
  note report = sk_send_report [OF tx n]
  have eq: "c_size r = length bs \<longleftrightarrow> r = int (length bs)"
    using report(6,7) n by (cases "r = -1") (auto simp: c_simps)
  define f where "f = (if r = int (length bs) then (tp_base p)\<lparr>writable := True\<rparr>
     else if 0 \<le> r then (tp_base p)\<lparr>writable := False\<rparr>
     else
       (let f = (tp_base p)\<lparr>writable := False\<rparr> in
        if sk_send_fatal (sk_errno w1) then tag_pipe_as_broken f else f))"
  obtain p' w' where adj:
    "tcp_pipe_adjust_event_mask el (p\<lparr>tp_base := f\<rparr>) w1 = Ok (p', w')"
    "tp_base p' = f" "tp_sk p' = tp_sk p" "tp_hooked p'" "w_sock w' = w_sock w1"
    "\<forall>e. e \<noteq> tp_sk p \<longrightarrow> tcp_agree evl_inv registered e w w'"
    "flags_ok f \<Longrightarrow> ready f \<Longrightarrow> tcp_inv evl_inv registered p' w'"
    using adjust_mask [OF inv report(1,2), of f] by blast
  have call: "tcp_pipe_send el p bs w = Ok (r, p', w')"
    using inv tx adj(1) by (simp add: tcp_pipe_send_def tcp_inv_def f_def eq)
  have ok: "flags_ok (tp_base p)" "ready (tp_base p)"
    using inv wr by (auto simp: tcp_inv_def flags_ok_def)
  have "send_report (length bs) r f" "fin_sent f = fin_sent (tp_base p)"
    "broken f \<or> flags_ok f \<and> ready f \<and> same_rx (tp_base p) f"
    using report(6,7) ok wr
    by (auto simp: f_def send_report_def broken_ok_def flags_ok_def same_rx_def Let_def)
  moreover have "tcp_work p' w' \<le> tcp_work p w"
    using report(4) by (auto simp: tcp_work_def adj f_def Let_def)
  ultimately show ?thesis
    using call adj report(3-5) by (auto simp: tcp_sent_def tcp_rcvd_def tcp_input_def)
qed

lemma tcp_send_fin_law:
  assumes inv: "tcp_inv evl_inv registered p w" and fin: "\<not> fin_sent (tp_base p)"
    and rdy: "ready (tp_base p)"
  shows "\<exists>r p' w'. tcp_pipe_send_fin el p w = Ok (r, p', w') \<and>
    tcp_sent p' w' = tcp_sent p w \<and> tcp_rcvd p' w' = tcp_rcvd p w \<and> tcp_input p' w' = tcp_input p w \<and> tp_sk p' = tp_sk p \<and>
    (\<forall>e. e \<noteq> tp_sk p \<longrightarrow> tcp_agree evl_inv registered e w w') \<and>
    tcp_work p' w' \<le> tcp_work p w \<and> broken_ok (tp_base p') \<and>
    (r < 0 \<and> broken (tp_base p') \<or>
     0 \<le> r \<and> fin_sent (tp_base p') \<and> tcp_inv evl_inv registered p' w' \<and>
     same_rx (tp_base p) (tp_base p'))"
proof -
  obtain r w1 where sd: "sk_shutdown (tp_sk p) w = (r, w1)"
    by (cases "sk_shutdown (tp_sk p) w") auto
  note report = sk_shutdown_report [OF sd]
  define f where "f = (if r < 0 then tag_pipe_as_broken (tp_base p)
    else (tp_base p)\<lparr>writable := False, fin_sent := True\<rparr>)"
  obtain p' w' where adj:
    "tcp_pipe_adjust_event_mask el (p\<lparr>tp_base := f\<rparr>) w1 = Ok (p', w')"
    "tp_base p' = f" "tp_sk p' = tp_sk p" "tp_hooked p'" "w_sock w' = w_sock w1"
    "\<forall>e. e \<noteq> tp_sk p \<longrightarrow> tcp_agree evl_inv registered e w w'"
    "flags_ok f \<Longrightarrow> ready f \<Longrightarrow> tcp_inv evl_inv registered p' w'"
    using adjust_mask [OF inv report(1,2), of f] by blast
  have "tcp_pipe_send_fin el p w = Ok (r, p', w')"
    using inv fin sd adj(1) by (simp add: tcp_pipe_send_fin_def tcp_inv_def f_def)
  moreover have "flags_ok (tp_base p)"
    using inv by (simp add: tcp_inv_def)
  then have "r < 0 \<and> broken f \<or> 0 \<le> r \<and> fin_sent f \<and> flags_ok f \<and> ready f \<and> same_rx (tp_base p) f"
    using report(6) rdy by (auto simp: f_def flags_ok_def same_rx_def)
  moreover have "broken_ok f"
    using \<open>flags_ok (tp_base p)\<close> by (auto simp: f_def broken_ok_def flags_ok_def)
  moreover have "tcp_work p' w' \<le> tcp_work p w"
    using report(4) by (auto simp: tcp_work_def adj f_def)
  ultimately show ?thesis
    using adj report(3-5) by (auto simp: tcp_sent_def tcp_rcvd_def tcp_input_def)
qed

text \<open>What an event does to the state bits, before the mask is adjusted: on a connected socket and on one that is connecting.\<close>

lemma tcp_event_ready:
  assumes inv: "tcp_inv evl_inv registered p w" and ev: "tcp_ev_ok p ev" and con: "ready (tp_base p)"
  obtains io f w1 where "tcp_pipe_on_activity el p ev w =
      bind_res (tcp_pipe_adjust_event_mask el (p\<lparr>tp_base := f\<rparr>) w1)
        (\<lambda>(p, w). if tp_hooked p then Ok (Some io, p, w) else Stop Null_dereference)"
    "w_evl w1 = w_evl w" "\<And>s. s \<noteq> tp_sk p \<Longrightarrow> w_sock w1 s = w_sock w s"
    "rx_log (w_sock w1 (tp_sk p)) = rx_log (w_sock w (tp_sk p))"
    "tx_log (w_sock w1 (tp_sk p)) = tx_log (w_sock w (tp_sk p))"
    "rx_script (w_sock w1 (tp_sk p)) = rx_script (w_sock w (tp_sk p))"
    "fin_sent f = fin_sent (tp_base p)" "event_report (Some io) (tp_base p) f"
    "broken f \<or> flags_ok f \<and> ready f"
proof -
  note evs = tcp_ev_ok_has [OF ev]
  have ok: "flags_ok (tp_base p)" using inv by (simp add: tcp_inv_def)
  have m: "tp_sk_mask p = tcp_wanted (tp_base p)"
    using inv con by (simp add: tcp_inv_def)
  then have rx: "has ev SK_EV_readable \<Longrightarrow> \<not> fin_rcvd (tp_base p)"
    and tx: "has ev SK_EV_writable \<Longrightarrow> \<not> fin_sent (tp_base p)"
    using evs(1,2) by (auto simp: word_flags)
  obtain io f where r: "tcp_ready_events (tp_base p) ev 0 = Ok (io, f)"
    "f = (tp_base p)\<lparr>readable := readable (tp_base p) \<or> has ev SK_EV_readable,
      writable := writable (tp_base p) \<or> has ev SK_EV_writable\<rparr>"
    "has io IO_EV_readable \<longleftrightarrow> has 0 IO_EV_readable \<or> has ev SK_EV_readable"
    "has io IO_EV_writable \<longleftrightarrow> has 0 IO_EV_writable \<or> has ev SK_EV_writable"
    "has io IO_EV_broken \<longleftrightarrow> has 0 IO_EV_broken" "has io IO_EV_ready \<longleftrightarrow> has 0 IO_EV_ready"
    using tcp_ready_events_Ok [OF rx tx, where io_in = 0] by blast
  show thesis
    by (rule that [of f w io]) (use con r ok evs m in
      \<open>auto simp: tcp_pipe_on_activity_def flags_ok_def event_report_def broken_ok_def word_flags\<close>)
qed

lemma tcp_event_connecting:
  assumes inv: "tcp_inv evl_inv registered p w" and ev: "tcp_ev_ok p ev" and con: "\<not> ready (tp_base p)"
  obtains io f w1 where "tcp_pipe_on_activity el p ev w =
      bind_res (tcp_pipe_adjust_event_mask el (p\<lparr>tp_base := f\<rparr>) w1)
        (\<lambda>(p, w). if tp_hooked p then Ok (Some io, p, w) else Stop Null_dereference)"
    "w_evl w1 = w_evl w" "\<And>s. s \<noteq> tp_sk p \<Longrightarrow> w_sock w1 s = w_sock w s"
    "rx_log (w_sock w1 (tp_sk p)) = rx_log (w_sock w (tp_sk p))"
    "tx_log (w_sock w1 (tp_sk p)) = tx_log (w_sock w (tp_sk p))"
    "rx_script (w_sock w1 (tp_sk p)) = rx_script (w_sock w (tp_sk p))"
    "fin_sent f = fin_sent (tp_base p)" "event_report (Some io) (tp_base p) f"
    "broken f \<or> flags_ok f \<and> ready f"
proof -
  note evs = tcp_ev_ok_has [OF ev]
  have m: "tp_sk_mask p = SK_EV_writable" "\<not> fin_sent (tp_base p)" "\<not> fin_rcvd (tp_base p)"
    "\<not> readable (tp_base p)" "\<not> writable (tp_base p)" "\<not> broken (tp_base p)"
    using inv con by (auto simp: tcp_inv_def flags_ok_def)
  obtain err w1 where so: "sk_error (tp_sk p) w = (err, w1)"
    by (cases "sk_error (tp_sk p) w") auto
  note report = sk_error_report [OF so]
  show thesis
  proof (cases "has ev SK_EV_error \<or> has ev SK_EV_writable \<and> err \<noteq> 0")
    case True
    show thesis
      by (rule that [of "tag_pipe_as_broken (tp_base p)" w1 IO_EV_broken])
         (use con True so report m evs(3) in
          \<open>auto simp: tcp_pipe_on_activity_def event_report_def broken_ok_def word_flags\<close>)
  next
    case fine: False
    let ?g = "(tp_base p)\<lparr>ready := True\<rparr>"
    have rx: "has ev SK_EV_readable \<Longrightarrow> \<not> fin_rcvd ?g"
      and tx: "has ev SK_EV_writable \<Longrightarrow> \<not> fin_sent ?g"
      using m by simp_all
    obtain io f where r: "tcp_ready_events ?g ev IO_EV_ready = Ok (io, f)"
      "f = ?g\<lparr>readable := readable ?g \<or> has ev SK_EV_readable,
        writable := writable ?g \<or> has ev SK_EV_writable\<rparr>"
      "has io IO_EV_readable \<longleftrightarrow> has IO_EV_ready IO_EV_readable \<or> has ev SK_EV_readable"
      "has io IO_EV_writable \<longleftrightarrow> has IO_EV_ready IO_EV_writable \<or> has ev SK_EV_writable"
      "has io IO_EV_broken \<longleftrightarrow> has IO_EV_ready IO_EV_broken"
      "has io IO_EV_ready \<longleftrightarrow> has IO_EV_ready IO_EV_ready"
      using tcp_ready_events_Ok [OF rx tx, where io_in = IO_EV_ready] by blast
    show thesis
      by (rule that [of f w1 io]) (use con fine so report r m evs in
        \<open>auto simp: tcp_pipe_on_activity_def flags_ok_def event_report_def broken_ok_def word_flags\<close>)
  qed
qed

lemma tcp_event_law:
  assumes inv: "tcp_inv evl_inv registered p w" and ev: "tcp_ev_ok p ev"
  shows "\<exists>up p' w'. tcp_pipe_on_activity el p ev w = Ok (up, p', w') \<and>
    event_report up (tp_base p) (tp_base p') \<and>
    tcp_sent p' w' = tcp_sent p w \<and> tcp_rcvd p' w' = tcp_rcvd p w \<and> tcp_input p' w' = tcp_input p w \<and>
    tp_sk p' = tp_sk p \<and> fin_sent (tp_base p') = fin_sent (tp_base p) \<and>
    (\<forall>e. e \<noteq> tp_sk p \<longrightarrow> tcp_agree evl_inv registered e w w') \<and>
    tcp_work p' w' \<le> Suc (tcp_work p w) \<and>
    (broken (tp_base p') \<or> tcp_inv evl_inv registered p' w')"
proof -
  obtain io f w1 where step: "tcp_pipe_on_activity el p ev w =
      bind_res (tcp_pipe_adjust_event_mask el (p\<lparr>tp_base := f\<rparr>) w1)
        (\<lambda>(p, w). if tp_hooked p then Ok (Some io, p, w) else Stop Null_dereference)"
    and w1: "w_evl w1 = w_evl w" "\<And>s. s \<noteq> tp_sk p \<Longrightarrow> w_sock w1 s = w_sock w s"
      "rx_log (w_sock w1 (tp_sk p)) = rx_log (w_sock w (tp_sk p))"
      "tx_log (w_sock w1 (tp_sk p)) = tx_log (w_sock w (tp_sk p))"
      "rx_script (w_sock w1 (tp_sk p)) = rx_script (w_sock w (tp_sk p))"
    and f: "fin_sent f = fin_sent (tp_base p)" "event_report (Some io) (tp_base p) f"
      "broken f \<or> flags_ok f \<and> ready f"
  proof (cases "ready (tp_base p)")
    case True
    show ?thesis by (rule tcp_event_ready [OF assms True]) (rule that)
  next
    case False
    show ?thesis by (rule tcp_event_connecting [OF assms False]) (rule that)
  qed
  obtain p' w' where adj:
    "tcp_pipe_adjust_event_mask el (p\<lparr>tp_base := f\<rparr>) w1 = Ok (p', w')"
    "tp_base p' = f" "tp_sk p' = tp_sk p" "tp_hooked p'" "w_sock w' = w_sock w1"
    "\<forall>e. e \<noteq> tp_sk p \<longrightarrow> tcp_agree evl_inv registered e w w'"
    "flags_ok f \<Longrightarrow> ready f \<Longrightarrow> tcp_inv evl_inv registered p' w'"
    using adjust_mask [OF inv w1(1,2), of f] by blast
  moreover have "tcp_work p' w' \<le> Suc (tcp_work p w)"
    using w1(5) by (simp add: tcp_work_def adj)
  ultimately show ?thesis
    using step w1(3-5) f by (auto simp: tcp_sent_def tcp_rcvd_def tcp_input_def)
qed

end

text \<open>A tcp pipe over any event loop that keeps its contract keeps the contract of a pipe.\<close>

sublocale event_loop_contract \<subseteq> tcp: pipe_contract
  "tcp_api el" "tcp_inv evl_inv registered" tcp_sent tcp_rcvd tcp_input
  "\<lambda>p. fin_sent (tp_base p)" tp_sk "tcp_agree evl_inv registered" tcp_ev_ok tcp_work 1 "2 ^ 31 - 1"
proof (unfold_locales, goal_cases)
  case (1 p w)
  then show ?case by (simp add: tcp_inv_def)
next
  case (2 p w)
  then show ?case by (simp add: tcp_inv_def flags_ok_def)
next
  case 3
  then show ?case by simp
next
  case 4
  then show ?case by simp
next
  case 5
  then show ?case by simp
next
  case (6 p w)
  then show ?case by (simp add: tcp_input_def tcp_rcvd_def)
next
  case 7
  then show ?case by (simp add: tcp_agree_def)
next
  case 8
  then show ?case by (simp add: tcp_agree_def)
next
  case (9 p w w')
  then show ?case
    by (simp add: tcp_inv_def tcp_agree_def tcp_sent_def tcp_rcvd_def tcp_input_def tcp_work_def)
next
  case (10 p w n)
  then show ?case using tcp_recv_law [of p w n] by simp
next
  case (11 p w bs)
  then show ?case using tcp_send_law [of p w bs] by force
next
  case (12 p w)
  then show ?case using tcp_send_fin_law [of p w] by simp
next
  case (13 p w ev)
  then show ?case using tcp_event_law [of p w ev] by simp
qed

end
