(* ===== verification/MapTree.thy ===== *)
theory MapTree
  imports Prelude "HOL-Library.Tree"
begin

text \<open>
  The binary tree map of \<open>data/src/map.c\<close>, on the pointer level: the items live in a
  memory and are linked through \<open>l\<close>, \<open>r\<close> and \<open>p\<close>.

  A \<open>map_item\<close> is embedded in a larger structure, which is why the record is extensible:
  \<open>struct_of\<close> is the identity on addresses.  A \<open>map_item **\<close> is one of three kinds
  of cell, the root of the map or a child of an item.  Reading or writing an item outside the
  memory is undefined behaviour.  The loops take a bound on the number of iterations.

  \<open>tree_at\<close> relates the cells to a tree; the lemmas show that \<open>map_find\<close>,
  \<open>map_add\<close>, \<open>map_walk\<close> and, for an item with at most one child, \<open>map_del\<close> are
  lookup, insertion, in-order successor and deletion on a search tree.  For an item with two
  children \<open>map_del\<close> is not: it writes the wrong parent pointers.
\<close>

section \<open>The code\<close>

record map_item =
  mi_l :: "nat option"
  mi_r :: "nat option"
  mi_p :: "nat option"

type_synonym 'i map_mem = "nat \<rightharpoonup> 'i"

record 'i map_head =
  comp :: "'i \<Rightarrow> 'i \<Rightarrow> int"
  root :: "nat option"

datatype slot = Root_slot | Left_slot nat | Right_slot nat

definition load_item :: "'z map_item_scheme map_mem \<Rightarrow> nat \<Rightarrow> 'z map_item_scheme res" where
  "load_item mem a = (case mem a of None \<Rightarrow> Stop Undefined_behaviour | Some i \<Rightarrow> Ok i)"

definition load_slot ::
  "'z map_item_scheme map_head \<Rightarrow> 'z map_item_scheme map_mem \<Rightarrow> slot \<Rightarrow> nat option res" where
  "load_slot head mem s =
     (case s of
        Root_slot \<Rightarrow> Ok (root head)
      | Left_slot a \<Rightarrow> bind_res (load_item mem a) (\<lambda>i. Ok (mi_l i))
      | Right_slot a \<Rightarrow> bind_res (load_item mem a) (\<lambda>i. Ok (mi_r i)))"

definition store_slot ::
  "'z map_item_scheme map_head \<Rightarrow> 'z map_item_scheme map_mem \<Rightarrow> slot \<Rightarrow> nat option \<Rightarrow>
   ('z map_item_scheme map_head \<times> 'z map_item_scheme map_mem) res" where
  "store_slot head mem s v =
     (case s of
        Root_slot \<Rightarrow> Ok (head\<lparr>root := v\<rparr>, mem)
      | Left_slot a \<Rightarrow> bind_res (load_item mem a) (\<lambda>i. Ok (head, mem(a \<mapsto> i\<lparr>mi_l := v\<rparr>)))
      | Right_slot a \<Rightarrow> bind_res (load_item mem a) (\<lambda>i. Ok (head, mem(a \<mapsto> i\<lparr>mi_r := v\<rparr>))))"

text \<open>The loop of \<open>_map_find\<close>, which returns the cell and the parent.\<close>

fun map_find_loop ::
  "nat \<Rightarrow> 'z map_item_scheme map_head \<Rightarrow> 'z map_item_scheme map_mem \<Rightarrow> 'z map_item_scheme \<Rightarrow>
   slot \<Rightarrow> nat option \<Rightarrow> (slot \<times> nat option) res" where
  "map_find_loop 0 head mem key p q = Stop Out_of_fuel"
| "map_find_loop (Suc n) head mem key p q =
     bind_res (load_slot head mem p)
       (\<lambda>v. case v of
          None \<Rightarrow> Ok (p, q)
        | Some a \<Rightarrow> bind_res (load_item mem a)
            (\<lambda>i. let r = comp head key i in
               if r = 0 then Ok (p, q)
               else map_find_loop n head mem key (if r < 0 then Left_slot a else Right_slot a) (Some a)))"

definition map_find_slot ::
  "nat \<Rightarrow> 'z map_item_scheme map_head \<Rightarrow> 'z map_item_scheme map_mem \<Rightarrow> 'z map_item_scheme \<Rightarrow>
   (slot \<times> nat option) res" where
  "map_find_slot n head mem key = map_find_loop n head mem key Root_slot None"

definition map_init :: "('i \<Rightarrow> 'i \<Rightarrow> int) \<Rightarrow> 'i map_head" where
  "map_init cmp = \<lparr>comp = cmp, root = None\<rparr>"

definition map_add_item ::
  "nat \<Rightarrow> 'z map_item_scheme map_head \<Rightarrow> 'z map_item_scheme map_mem \<Rightarrow> nat \<Rightarrow>
   (nat option \<times> 'z map_item_scheme map_head \<times> 'z map_item_scheme map_mem) res" where
  "map_add_item n head mem item =
     bind_res (load_item mem item) (\<lambda>k.
     bind_res (map_find_slot n head mem k) (\<lambda>(pp, p).
     bind_res (load_slot head mem pp) (\<lambda>v.
       case v of
         Some d \<Rightarrow> Ok (Some d, head, mem)
       | None \<Rightarrow>
           bind_res (store_slot head mem pp (Some item)) (\<lambda>(head, mem).
           bind_res (load_item mem item) (\<lambda>i.
             Ok (None, head, mem(item \<mapsto> i\<lparr>mi_p := p, mi_l := None, mi_r := None\<rparr>)))))))"

definition map_find ::
  "nat \<Rightarrow> 'z map_item_scheme map_head \<Rightarrow> 'z map_item_scheme map_mem \<Rightarrow> 'z map_item_scheme \<Rightarrow>
   nat option res" where
  "map_find n head mem key =
     bind_res (map_find_slot n head mem key) (\<lambda>(p, q). load_slot head mem p)"

text \<open>The loops \<open>while (p->l) p = p->l;\<close> and \<open>while (q->r) q = q->r;\<close>.\<close>

fun leftmost :: "nat \<Rightarrow> 'z map_item_scheme map_mem \<Rightarrow> nat \<Rightarrow> nat res" where
  "leftmost 0 mem a = Stop Out_of_fuel"
| "leftmost (Suc n) mem a =
     bind_res (load_item mem a)
       (\<lambda>i. case mi_l i of None \<Rightarrow> Ok a | Some b \<Rightarrow> leftmost n mem b)"

fun rightmost :: "nat \<Rightarrow> 'z map_item_scheme map_mem \<Rightarrow> nat \<Rightarrow> nat res" where
  "rightmost 0 mem a = Stop Out_of_fuel"
| "rightmost (Suc n) mem a =
     bind_res (load_item mem a)
       (\<lambda>i. case mi_r i of None \<Rightarrow> Ok a | Some b \<Rightarrow> rightmost n mem b)"

text \<open>\<open>*p = c; c->p = item->p;\<close> for a child \<open>c\<close> of \<open>item\<close>.\<close>

definition hoist_child ::
  "'z map_item_scheme map_head \<Rightarrow> 'z map_item_scheme map_mem \<Rightarrow> slot \<Rightarrow> nat \<Rightarrow> nat \<Rightarrow>
   ('z map_item_scheme map_head \<times> 'z map_item_scheme map_mem) res" where
  "hoist_child head mem p item c =
     bind_res (store_slot head mem p (Some c)) (\<lambda>(head, mem).
     bind_res (load_item mem item) (\<lambda>i.
     bind_res (load_item mem c) (\<lambda>j.
       Ok (head, mem(c \<mapsto> j\<lparr>mi_p := mi_p i\<rparr>)))))"

definition map_del ::
  "nat \<Rightarrow> 'z map_item_scheme map_head \<Rightarrow> 'z map_item_scheme map_mem \<Rightarrow> nat \<Rightarrow>
   (nat option \<times> 'z map_item_scheme map_head \<times> 'z map_item_scheme map_mem) res" where
  "map_del n head mem item =
     bind_res (load_item mem item) (\<lambda>i.
     bind_res (map_find_slot n head mem i) (\<lambda>(p, _).
     bind_res (load_slot head mem p) (\<lambda>v.
       if v \<noteq> Some item then Ok (None, head, mem)
       else
         bind_res
           (case (mi_l i, mi_r i) of
              (Some l, Some r) \<Rightarrow>
                bind_res (rightmost n mem l) (\<lambda>q.
                bind_res (load_item mem q) (\<lambda>j.
                  let mem = mem(q \<mapsto> j\<lparr>mi_r := Some r\<rparr>) in
                  bind_res (load_item mem item) (\<lambda>i.
                    hoist_child head (mem(item \<mapsto> i\<lparr>mi_p := Some q\<rparr>)) p item l)))
            | (Some l, None) \<Rightarrow> hoist_child head mem p item l
            | (None, Some r) \<Rightarrow> hoist_child head mem p item r
            | (None, None) \<Rightarrow> store_slot head mem p None)
           (\<lambda>(head, mem).
             bind_res (load_item mem item) (\<lambda>i.
               Ok (Some item, head, mem(item \<mapsto> i\<lparr>mi_l := None, mi_r := None, mi_p := None\<rparr>)))))))"

text \<open>The \<open>for (;;)\<close> loop of \<open>map_walk\<close>, which climbs to the parent.\<close>

fun climb :: "nat \<Rightarrow> 'z map_item_scheme map_mem \<Rightarrow> nat \<Rightarrow> nat option res" where
  "climb 0 mem now = Stop Out_of_fuel"
| "climb (Suc n) mem now =
     bind_res (load_item mem now)
       (\<lambda>i. case mi_p i of
          None \<Rightarrow> Ok None
        | Some p \<Rightarrow> bind_res (load_item mem p)
            (\<lambda>j. if mi_l j = Some now then Ok (Some p) else climb n mem p))"

definition map_walk ::
  "nat \<Rightarrow> 'z map_item_scheme map_head \<Rightarrow> 'z map_item_scheme map_mem \<Rightarrow> nat option \<Rightarrow>
   nat option res" where
  "map_walk n head mem now =
     (case now of
        None \<Rightarrow>
          (case root head of
             None \<Rightarrow> Ok None
           | Some a \<Rightarrow> bind_res (leftmost n mem a) (\<lambda>p. Ok (Some p)))
      | Some a \<Rightarrow>
          bind_res (load_item mem a)
            (\<lambda>i. case mi_r i of
               Some b \<Rightarrow> bind_res (leftmost n mem b) (\<lambda>p. Ok (Some p))
             | None \<Rightarrow> climb n mem a))"

section \<open>Cells and trees\<close>

text \<open>The cells reached from \<open>ptr\<close>, whose parent is \<open>par\<close>, form the tree.\<close>

fun tree_at :: "'z map_item_scheme map_mem \<Rightarrow> nat option \<Rightarrow> nat option \<Rightarrow> nat tree \<Rightarrow> bool" where
  "tree_at mem par ptr Leaf \<longleftrightarrow> ptr = None"
| "tree_at mem par ptr (Node l a r) \<longleftrightarrow>
     ptr = Some a \<and>
     (case mem a of
        None \<Rightarrow> False
      | Some i \<Rightarrow> mi_p i = par \<and> tree_at mem (Some a) (mi_l i) l \<and> tree_at mem (Some a) (mi_r i) r)"

text \<open>
  The search for a key with the comparison results \<open>c\<close>: the cell where it ends, the subtree
  found there, and the tree with another one in its place.
\<close>

fun descend :: "(nat \<Rightarrow> int) \<Rightarrow> nat tree \<Rightarrow> slot \<Rightarrow> nat option \<Rightarrow> slot \<times> nat option" where
  "descend c Leaf s q = (s, q)"
| "descend c (Node l a r) s q =
     (if c a = 0 then (s, q)
      else if c a < 0 then descend c l (Left_slot a) (Some a)
      else descend c r (Right_slot a) (Some a))"

fun stop_at :: "(nat \<Rightarrow> int) \<Rightarrow> nat tree \<Rightarrow> nat tree" where
  "stop_at c Leaf = Leaf"
| "stop_at c (Node l a r) =
     (if c a = 0 then Node l a r else if c a < 0 then stop_at c l else stop_at c r)"

fun graft :: "(nat \<Rightarrow> int) \<Rightarrow> nat tree \<Rightarrow> nat tree \<Rightarrow> nat tree" where
  "graft c Leaf u = u"
| "graft c (Node l a r) u =
     (if c a = 0 then u
      else if c a < 0 then Node (graft c l u) a r
      else Node l a (graft c r u))"

fun root_of :: "nat tree \<Rightarrow> nat option" where
  "root_of Leaf = None"
| "root_of (Node l a r) = Some a"

text \<open>What takes the place of an item with at most one child.\<close>

fun one_child :: "nat tree \<Rightarrow> bool" where
  "one_child Leaf \<longleftrightarrow> True"
| "one_child (Node l a r) \<longleftrightarrow> l = Leaf \<or> r = Leaf"

fun only_child :: "nat tree \<Rightarrow> nat tree" where
  "only_child Leaf = Leaf"
| "only_child (Node l a r) = (if l = Leaf then r else l)"

section \<open>Reading\<close>

lemma load_item_eq [simp]:
  "mem a = Some i \<Longrightarrow> load_item mem a = Ok i" "mem a = None \<Longrightarrow> load_item mem a = Stop Undefined_behaviour"
  by (simp_all add: load_item_def)

lemma load_slot_simps [simp]:
  "load_slot head mem Root_slot = Ok (root head)"
  "mem a = Some i \<Longrightarrow> load_slot head mem (Left_slot a) = Ok (mi_l i)"
  "mem a = Some i \<Longrightarrow> load_slot head mem (Right_slot a) = Ok (mi_r i)"
  by (simp_all add: load_slot_def)

lemma store_slot_simps [simp]:
  "store_slot head mem Root_slot v = Ok (head\<lparr>root := v\<rparr>, mem)"
  "mem a = Some i \<Longrightarrow> store_slot head mem (Left_slot a) v = Ok (head, mem(a \<mapsto> i\<lparr>mi_l := v\<rparr>))"
  "mem a = Some i \<Longrightarrow> store_slot head mem (Right_slot a) v = Ok (head, mem(a \<mapsto> i\<lparr>mi_r := v\<rparr>))"
  by (simp_all add: store_slot_def)

lemma tree_at_ptr: "tree_at mem par ptr t \<Longrightarrow> ptr = None \<longleftrightarrow> t = Leaf"
  by (cases t) auto

lemma tree_at_dom: "tree_at mem par ptr t \<Longrightarrow> a \<in> set_tree t \<Longrightarrow> \<exists>i. mem a = Some i"
  by (induction t arbitrary: par ptr) (auto split: option.splits)

lemma tree_at_cong:
  "(\<And>a. a \<in> set_tree t \<Longrightarrow> mem' a = mem a) \<Longrightarrow> tree_at mem' par ptr t = tree_at mem par ptr t"
  by (induction t arbitrary: par ptr) (auto split: option.split)

text \<open>The loop of \<open>_map_find\<close> ends within the height of the tree.\<close>

lemma map_find_loop_descend:
  "tree_at mem q v t \<Longrightarrow> load_slot head mem s = Ok v \<Longrightarrow> height t < n \<Longrightarrow>
   map_find_loop n head mem k s q = Ok (descend (\<lambda>a. comp head k (the (mem a))) t s q)"
proof (induction t arbitrary: n s q v)
  case Leaf
  then show ?case by (cases n) auto
next
  case (Node l a r)
  then obtain i where i: "v = Some a" "mem a = Some i"
    "tree_at mem (Some a) (mi_l i) l" "tree_at mem (Some a) (mi_r i) r"
    by (auto split: option.splits)
  obtain m where n: "n = Suc m" using Node.prems by (cases n) auto
  show ?case
    using Node.IH(1) [OF i(3), of "Left_slot a" m] Node.IH(2) [OF i(4), of "Right_slot a" m]
      Node.prems(2,3) i(1,2) n by (auto simp: Let_def)
qed

lemma load_descend:
  "tree_at mem par v t \<Longrightarrow> load_slot head mem s = Ok v \<Longrightarrow>
   load_slot head mem (fst (descend c t s q)) = Ok (root_of (stop_at c t))"
proof (induction t arbitrary: s q v par)
  case (Node l a r)
  then show ?case by (auto split: option.splits)
qed simp

lemma map_find_lookup:
  assumes "tree_at mem None (root head) t" "height t < n"
  shows "map_find n head mem k = Ok (root_of (stop_at (\<lambda>a. comp head k (the (mem a))) t))"
  using map_find_loop_descend [OF assms(1) _ assms(2), of head Root_slot k]
    load_descend [OF assms(1), of head Root_slot]
  by (auto simp: map_find_def map_find_slot_def split_def)

lemma leftmost_inorder:
  "tree_at mem par (Some a) t \<Longrightarrow> height t < n \<Longrightarrow> leftmost n mem a = Ok (hd (inorder t))"
proof (induction t arbitrary: n a par)
  case (Node l x r)
  then obtain i where i: "a = x" "mem x = Some i" "tree_at mem (Some x) (mi_l i) l"
    by (auto split: option.splits)
  obtain m where n: "n = Suc m" using Node.prems by (cases n) auto
  show ?case
  proof (cases l)
    case Leaf
    then show ?thesis using i n by simp
  next
    case (Node l' y r')
    then have "mi_l i = Some y" "inorder l \<noteq> []" using i(3) by auto
    then show ?thesis using Node.IH(1) [of "Some x" y m] i n Node.prems(2) by simp
  qed
qed simp

section \<open>Writing\<close>

text \<open>The cell of a slot, the item it belongs to, and what a store changes.\<close>

definition slot_owner :: "slot \<Rightarrow> nat option" where
  "slot_owner s = (case s of Root_slot \<Rightarrow> None | Left_slot a \<Rightarrow> Some a | Right_slot a \<Rightarrow> Some a)"

lemma slot_owner_simps [simp]:
  "slot_owner Root_slot = None" "slot_owner (Left_slot a) = Some a" "slot_owner (Right_slot a) = Some a"
  by (simp_all add: slot_owner_def)

lemma slot_owner_None [simp]: "slot_owner s = None \<longleftrightarrow> s = Root_slot"
  by (cases s) auto

lemma store_slot_frame:
  assumes "store_slot head mem s v = Ok (head', mem')"
  shows "comp head' = comp head" "s \<noteq> Root_slot \<Longrightarrow> head' = head"
    "slot_owner s \<noteq> Some a \<Longrightarrow> mem' a = mem a" "load_slot head' mem' s = Ok v"
  using assms by (cases s; auto simp: store_slot_def load_slot_def load_item_def split: option.splits)+

lemma store_slot_item:
  assumes "store_slot head mem s v = Ok (head', mem')" "mem a = Some i"
  obtains j where "mem' a = Some j" "mi_p j = mi_p i"
    "s \<noteq> Left_slot a \<Longrightarrow> mi_l j = mi_l i" "s \<noteq> Right_slot a \<Longrightarrow> mi_r j = mi_r i"
proof -
  have "\<exists>j. mem' a = Some j \<and> mi_p j = mi_p i \<and> (s \<noteq> Left_slot a \<longrightarrow> mi_l j = mi_l i) \<and>
    (s \<noteq> Right_slot a \<longrightarrow> mi_r j = mi_r i)"
    using assms by (cases s) (auto simp: store_slot_def load_item_def split: option.splits)
  then show ?thesis using that by blast
qed

lemma store_slot_Ok:
  assumes "load_slot head mem s = Ok v"
  obtains head' mem' where "store_slot head mem s w = Ok (head', mem')"
  using assms by (cases s) (auto simp: store_slot_def load_slot_def load_item_def split: option.splits)

lemma stop_at_subset: "set_tree (stop_at c t) \<subseteq> set_tree t"
  by (induction t) auto

lemma descend_slot:
  "descend c t s q = (s', q') \<Longrightarrow> s' = s \<and> q' = q \<or> slot_owner s' = q' \<and> q' \<in> Some ` set_tree t"
proof (induction t arbitrary: s q)
  case (Node l a r)
  consider "c a = 0" | (l) "c a < 0" | (r) "c a > 0" by linarith
  then show ?case
  proof cases
    case l
    then show ?thesis using Node.IH(1) [of "Left_slot a" "Some a"] Node.prems by auto
  next
    case r
    then show ?thesis using Node.IH(2) [of "Right_slot a" "Some a"] Node.prems by auto
  qed (use Node.prems in simp)
qed simp

lemma tree_at_store_outside:
  assumes "tree_at mem par v t" and store: "store_slot head mem s w = Ok (head1, mem1)"
    and "\<And>x. x \<in> set_tree t \<Longrightarrow> mem' x = mem1 x \<and> slot_owner s \<noteq> Some x"
  shows "tree_at mem' par v t"
  using assms(1,3) store_slot_frame(3) [OF store] by (intro iffD2 [OF tree_at_cong assms(1)]) auto

text \<open>
  Storing a subtree \<open>u\<close> in the cell where a search ended grafts it into the tree: this is the
  one fact behind insertion and deletion.
\<close>

lemma tree_at_graft:
  assumes "tree_at mem par v t" "distinct (inorder t)" "descend c t s par = (s', q')"
    and "load_slot head mem s = Ok v" "slot_owner s \<notin> Some ` set_tree t"
    and store: "store_slot head mem s' w = Ok (head1, mem1)"
    and same: "\<And>a. a \<in> set_tree t \<Longrightarrow> a \<notin> set_tree (stop_at c t) \<Longrightarrow> mem' a = mem1 a"
      "\<And>a. slot_owner s = Some a \<Longrightarrow> mem' a = mem1 a"
    and u: "tree_at mem' q' w u"
  shows "\<exists>v'. load_slot head1 mem' s = Ok v' \<and> tree_at mem' par v' (graft c t u)"
  using assms(1-5) same u
proof (induction t arbitrary: par v s)
  case Leaf
  have "load_slot head1 mem' s = load_slot head1 mem1 s"
    using Leaf.prems(7) by (cases s) (simp_all add: load_slot_def load_item_def)
  with Leaf store_slot_frame(4) [OF store] show ?case by simp
next
  case (Node l a r)
  obtain i where i: "v = Some a" "mem a = Some i" "mi_p i = par"
    "tree_at mem (Some a) (mi_l i) l" "tree_at mem (Some a) (mi_r i) r"
    using Node.prems(1) by (auto split: option.splits)
  have load_s: "load_slot head1 mem' s = load_slot head1 mem1 s"
    using Node.prems(7) by (cases s) (simp_all add: load_slot_def load_item_def)
  have outer: "load_slot head1 mem' s = Ok (Some a)"
    if "slot_owner s' \<noteq> slot_owner s" "s' \<noteq> Root_slot"
    using that load_s Node.prems(4) i(1) store_slot_frame(2,3) [OF store]
    by (cases s) (auto simp: load_slot_def load_item_def)
  consider "c a = 0" | (l) "c a < 0" | (r) "c a > 0" by linarith
  then show ?case
  proof cases
    case 1
    with Node.prems(3,8) load_s store_slot_frame(4) [OF store] show ?thesis by simp
  next
    case l
    then have d: "descend c l (Left_slot a) (Some a) = (s', q')" using Node.prems(3) by simp
    have at: "s' = Left_slot a \<or> slot_owner s' \<in> Some ` set_tree l"
      using descend_slot [OF d] by auto
    then have own: "slot_owner s' \<in> Some ` set_tree (Node l a r)" by auto
    have away: "s' \<noteq> Right_slot a" "slot_owner s' \<noteq> slot_owner s" "s' \<noteq> Root_slot"
    proof -
      show "s' \<noteq> Right_slot a" "s' \<noteq> Root_slot" using Node.prems(2) at by auto
      show "slot_owner s' \<noteq> slot_owner s" using own Node.prems(5) by metis
    qed
    have stop: "a \<notin> set_tree (stop_at c l)" "\<And>x. x \<in> set_tree r \<Longrightarrow> x \<notin> set_tree (stop_at c l)"
      using Node.prems(2) stop_at_subset [of c l] by auto
    obtain v' where v': "load_slot head1 mem' (Left_slot a) = Ok v'" "tree_at mem' (Some a) v' (graft c l u)"
      using Node.IH(1) [OF i(4) _ d] Node.prems(2,6,8) i(2) l stop_at_subset [of c l] by auto
    obtain j where j: "mem1 a = Some j" "mi_p j = par" "mi_r j = mi_r i"
      using store_slot_item [OF store i(2)] i(3) away(1) by metis
    have "tree_at mem' (Some a) (mi_r i) r"
    proof (rule tree_at_store_outside [OF i(5) store])
      show "mem' x = mem1 x \<and> slot_owner s' \<noteq> Some x" if "x \<in> set_tree r" for x
        using Node.prems(2) Node.prems(6) [of x] that stop(2) [of x] at l by auto
    qed
    moreover have "mem' a = Some j" using Node.prems(6) [of a] l j(1) stop(1) by simp
    ultimately show ?thesis using v' j l outer [OF away(2,3)] by simp
  next
    case r
    then have d: "descend c r (Right_slot a) (Some a) = (s', q')" using Node.prems(3) by simp
    have at: "s' = Right_slot a \<or> slot_owner s' \<in> Some ` set_tree r"
      using descend_slot [OF d] by auto
    then have own: "slot_owner s' \<in> Some ` set_tree (Node l a r)" by auto
    have away: "s' \<noteq> Left_slot a" "slot_owner s' \<noteq> slot_owner s" "s' \<noteq> Root_slot"
    proof -
      show "s' \<noteq> Left_slot a" "s' \<noteq> Root_slot" using Node.prems(2) at by auto
      show "slot_owner s' \<noteq> slot_owner s" using own Node.prems(5) by metis
    qed
    have stop: "a \<notin> set_tree (stop_at c r)" "\<And>x. x \<in> set_tree l \<Longrightarrow> x \<notin> set_tree (stop_at c r)"
      using Node.prems(2) stop_at_subset [of c r] by auto
    obtain v' where v': "load_slot head1 mem' (Right_slot a) = Ok v'" "tree_at mem' (Some a) v' (graft c r u)"
      using Node.IH(2) [OF i(5) _ d] Node.prems(2,6,8) i(2) r stop_at_subset [of c r] by auto
    obtain j where j: "mem1 a = Some j" "mi_p j = par" "mi_l j = mi_l i"
      using store_slot_item [OF store i(2)] i(3) away(1) by metis
    have "tree_at mem' (Some a) (mi_l i) l"
    proof (rule tree_at_store_outside [OF i(4) store])
      show "mem' x = mem1 x \<and> slot_owner s' \<noteq> Some x" if "x \<in> set_tree l" for x
        using Node.prems(2) Node.prems(6) [of x] that stop(2) [of x] at r by auto
    qed
    moreover have "mem' a = Some j" using Node.prems(6) [of a] r j(1) stop(1) by simp
    ultimately show ?thesis using v' j r outer [OF away(2,3)] by simp
  qed
qed

section \<open>Walking\<close>

text \<open>
  Inside a subtree the walk goes to the in-order successor; from the last item it climbs to
  the root of the subtree, from where it would go on.
\<close>

lemma map_walk_subtree:
  "tree_at mem par (Some z) t \<Longrightarrow> distinct (inorder t) \<Longrightarrow> a \<in> set_tree t \<Longrightarrow> height t < n \<Longrightarrow>
   \<exists>xs ys. inorder t = xs @ a # ys \<and>
     (ys \<noteq> [] \<longrightarrow> map_walk n head mem (Some a) = Ok (Some (hd ys))) \<and>
     (ys = [] \<longrightarrow> map_walk n head mem (Some a) = climb n mem a \<and>
       (\<exists>m. n < m + height t \<and> m \<le> n \<and> climb n mem a = climb m mem z))"
proof (induction t arbitrary: par z)
  case (Node l y r)
  obtain i where i: "y = z" "mem z = Some i" "mi_p i = par"
    "tree_at mem (Some z) (mi_l i) l" "tree_at mem (Some z) (mi_r i) r"
    using Node.prems(1) by (auto split: option.splits)
  consider (l) "a \<in> set_tree l" | (m) "a = z" | (r) "a \<in> set_tree r"
    using Node.prems(3) i(1) by auto
  then show ?case
  proof cases
    case l
    then obtain zl where zl: "mi_l i = Some zl" "root_of l = Some zl" using i(4) by (cases l) auto
    have at: "tree_at mem (Some z) (Some zl) l" using i(4) zl by simp
    have small: "distinct (inorder l)" "height l < n" using Node.prems(2,4) by auto
    obtain xs ys where IH: "inorder l = xs @ a # ys"
      "ys \<noteq> [] \<Longrightarrow> map_walk n head mem (Some a) = Ok (Some (hd ys))"
      "ys = [] \<Longrightarrow> map_walk n head mem (Some a) = climb n mem a \<and>
        (\<exists>m. n < m + height l \<and> m \<le> n \<and> climb n mem a = climb m mem zl)"
      using Node.IH(1) [OF at small(1) l small(2)] by blast
    have up: "climb m mem zl = Ok (Some z)" if "0 < m" for m
      using that at zl i(2) by (cases m; cases l) (auto split: option.splits)
    have "map_walk n head mem (Some a) = Ok (Some z)" if "ys = []"
    proof -
      obtain m where "n < m + height l" "map_walk n head mem (Some a) = climb m mem zl"
        using IH(3) \<open>ys = []\<close> by metis
      then show ?thesis using up [of m] Node.prems(4) by simp
    qed
    then show ?thesis
      using IH i(1) by - (rule exI [of _ xs], rule exI [of _ "ys @ z # inorder r"], cases ys, auto)
  next
    case m
    show ?thesis
    proof (cases r)
      case Leaf
      then show ?thesis
        using m i by - (rule exI [of _ "inorder l"], rule exI [of _ "[]"], auto simp: map_walk_def intro!: exI [of _ n])
    next
      case (Node r1 zr r2)
      then have "mi_r i = Some zr" "inorder r \<noteq> []" using i(5) by auto
      then have "map_walk n head mem (Some a) = Ok (Some (hd (inorder r)))"
        using leftmost_inorder [of mem "Some z" zr r n] i Node.prems(4) m by (simp add: map_walk_def)
      then show ?thesis
        using m i(1) \<open>inorder r \<noteq> []\<close> by - (rule exI [of _ "inorder l"], rule exI [of _ "inorder r"], auto)
    qed
  next
    case r
    then obtain zr where zr: "mi_r i = Some zr" "root_of r = Some zr" using i(5) by (cases r) auto
    have at: "tree_at mem (Some z) (Some zr) r" using i(5) zr by simp
    have small: "distinct (inorder r)" "height r < n" using Node.prems(2,4) by auto
    obtain xs ys where IH: "inorder r = xs @ a # ys"
      "ys \<noteq> [] \<Longrightarrow> map_walk n head mem (Some a) = Ok (Some (hd ys))"
      "ys = [] \<Longrightarrow> map_walk n head mem (Some a) = climb n mem a \<and>
        (\<exists>m. n < m + height r \<and> m \<le> n \<and> climb n mem a = climb m mem zr)"
      using Node.IH(2) [OF at small(1) r small(2)] by blast
    have "mi_l i \<noteq> Some zr"
      using i(4) zr(2) Node.prems(2) by (cases l; cases r) auto
    then have up: "climb (Suc m) mem zr = climb m mem z" for m
      using at zr i(2) by (cases r) (auto split: option.splits)
    have "\<exists>m. n < m + height (Node l y r) \<and> m \<le> n \<and> climb n mem a = climb m mem z" if "ys = []"
    proof -
      obtain m where m: "n < m + height r" "m \<le> n" "climb n mem a = climb m mem zr"
        using IH(3) \<open>ys = []\<close> by blast
      then obtain k where "m = Suc k" using Node.prems(4) by (cases m) auto
      with m up [of k] show ?thesis by (intro exI [of _ k]) auto
    qed
    then show ?thesis
      using IH i(1) by - (rule exI [of _ "inorder l @ z # xs"], rule exI [of _ ys], auto)
  qed
qed simp

lemma map_walk_next:
  assumes "tree_at mem None (root head) t" "distinct (inorder t)" "height t < n"
    and "inorder t = xs @ a # ys"
  shows "map_walk n head mem (Some a) = Ok (if ys = [] then None else Some (hd ys))"
proof -
  have a: "a \<in> set_tree t" using assms(4) by (metis in_set_conv_decomp set_inorder)
  then obtain z where z: "root head = Some z" using assms(1) by (cases t) auto
  obtain xs' ys' where w: "inorder t = xs' @ a # ys'"
    "ys' \<noteq> [] \<Longrightarrow> map_walk n head mem (Some a) = Ok (Some (hd ys'))"
    "ys' = [] \<Longrightarrow> map_walk n head mem (Some a) = climb n mem a"
    "ys' = [] \<Longrightarrow> \<exists>m. n < m + height t \<and> climb n mem a = climb m mem z"
    using map_walk_subtree [of mem None z t a n head] assms(1-3) a z by metis
  have "ys' = ys"
  proof -
    have "a \<notin> set xs" "a \<notin> set ys" using assms(2,4) by auto
    then show ?thesis using w(1) assms(4) append_Cons_eq_iff [of a xs ys xs' ys'] by simp
  qed
  have top: "climb m mem z = Ok None" if "0 < m" for m
    using that assms(1) z by (cases m; cases t) (auto split: option.splits)
  show ?thesis
  proof (cases "ys = []")
    case True
    then obtain m where "n < m + height t" "map_walk n head mem (Some a) = climb m mem z"
      using w(3,4) \<open>ys' = ys\<close> by auto
    then show ?thesis using top [of m] assms(3) True by simp
  qed (use w(2) \<open>ys' = ys\<close> in simp)
qed

lemma map_walk_first:
  assumes "tree_at mem None (root head) t" "height t < n"
  shows "map_walk n head mem None = Ok (if inorder t = [] then None else Some (hd (inorder t)))"
  using assms leftmost_inorder [of mem None _ t n]
  by (cases t) (auto simp: map_walk_def)

section \<open>The map operations on search trees\<close>

text \<open>What is left of an item when the links are taken away, and memories that agree on that.\<close>

definition strip :: "'z map_item_scheme \<Rightarrow> 'z map_item_scheme" where
  "strip i = i\<lparr>mi_l := None, mi_r := None, mi_p := None\<rparr>"

definition same_items :: "'z map_item_scheme map_mem \<Rightarrow> 'z map_item_scheme map_mem \<Rightarrow> bool" where
  "same_items mem mem' \<longleftrightarrow> (\<forall>a. map_option strip (mem' a) = map_option strip (mem a))"

text \<open>The map holds a search tree for the key \<open>key\<close>.\<close>

definition map_rep ::
  "('z map_item_scheme \<Rightarrow> int) \<Rightarrow> 'z map_item_scheme map_head \<Rightarrow> 'z map_item_scheme map_mem \<Rightarrow>
   nat tree \<Rightarrow> bool" where
  "map_rep key head mem t \<longleftrightarrow>
     tree_at mem None (root head) t \<and> sorted_wrt (<) (map (\<lambda>a. key (the (mem a))) (inorder t))"

lemma strip_links [simp]:
  "strip (i\<lparr>mi_l := v\<rparr>) = strip i" "strip (i\<lparr>mi_r := v\<rparr>) = strip i" "strip (i\<lparr>mi_p := v\<rparr>) = strip i"
  by (simp_all add: strip_def)

lemma same_items_refl [simp]: "same_items mem mem"
  by (simp add: same_items_def)

lemma same_items_trans: "same_items m1 m2 \<Longrightarrow> same_items m2 m3 \<Longrightarrow> same_items m1 m3"
  by (simp add: same_items_def)

lemma same_items_upd:
  "same_items mem mem' \<Longrightarrow> mem' a = Some i \<Longrightarrow> strip j = strip i \<Longrightarrow> same_items mem (mem'(a \<mapsto> j))"
  by (auto simp: same_items_def) (metis option.map(2))

lemma same_items_Some:
  "same_items mem mem' \<Longrightarrow> mem a = Some i \<Longrightarrow> \<exists>j. mem' a = Some j \<and> strip j = strip i"
  by (auto simp: same_items_def dest!: spec [of _ a])

lemma store_slot_same_items:
  "store_slot head mem s v = Ok (head', mem') \<Longrightarrow> same_items mem mem'"
  by (cases s)
    (auto simp: store_slot_def load_item_def intro!: same_items_upd split: option.splits)

text \<open>The in-order sequence around the place where a search ended.\<close>

lemma graft_inorder:
  assumes "sorted_wrt (<) (map K (inorder t))"
    and "\<And>a. a \<in> set_tree t \<Longrightarrow> (c a < 0 \<longleftrightarrow> k < K a) \<and> (c a = 0 \<longleftrightarrow> k = K a)"
  shows "\<exists>xs ys. inorder t = xs @ inorder (stop_at c t) @ ys \<and>
    (\<forall>u. inorder (graft c t u) = xs @ inorder u @ ys) \<and>
    (\<forall>a \<in> set xs. K a < (k :: int)) \<and> (\<forall>a \<in> set ys. k < K a)"
  using assms
proof (induction t)
  case (Node l a r)
  consider "c a = 0" | (l) "c a < 0" | (r) "c a > 0" by linarith
  then show ?case
  proof cases
    case 1
    then show ?thesis by - (rule exI [of _ "[]"], rule exI [of _ "[]"], simp)
  next
    case l
    then obtain xs ys where "inorder l = xs @ inorder (stop_at c l) @ ys"
      "\<forall>u. inorder (graft c l u) = xs @ inorder u @ ys"
      "\<forall>a \<in> set xs. K a < k" "\<forall>a \<in> set ys. k < K a"
      using Node.IH(1) Node.prems by (auto simp: sorted_wrt_append)
    with l Node.prems show ?thesis
      by - (rule exI [of _ xs], rule exI [of _ "ys @ a # inorder r"], auto simp: sorted_wrt_append)
  next
    case r
    then obtain xs ys where "inorder r = xs @ inorder (stop_at c r) @ ys"
      "\<forall>u. inorder (graft c r u) = xs @ inorder u @ ys"
      "\<forall>a \<in> set xs. K a < k" "\<forall>a \<in> set ys. k < K a"
      using Node.IH(2) Node.prems by (auto simp: sorted_wrt_append)
    moreover have "K a < k" using Node.prems(2) [of a] r by auto
    ultimately show ?thesis using r Node.prems
      by - (rule exI [of _ "inorder l @ a # xs"], rule exI [of _ ys], auto simp: sorted_wrt_append)
  qed
qed simp

lemma sorted_distinct: "sorted_wrt (<) (map (K :: nat \<Rightarrow> int) xs) \<Longrightarrow> distinct xs"
  by (induction xs) auto

lemma sorted_inj:
  "sorted_wrt (<) (map (K :: nat \<Rightarrow> int) xs) \<Longrightarrow> a \<in> set xs \<Longrightarrow> b \<in> set xs \<Longrightarrow> K a = K b \<Longrightarrow> a = b"
  by (induction xs) auto

lemma sorted_last:
  "sorted_wrt (<) (map (K :: nat \<Rightarrow> int) xs) \<Longrightarrow> a \<in> set xs \<Longrightarrow> K a \<le> K (last xs)"
  by (induction xs) (auto simp: order_less_imp_le)

lemma stop_at_root: "stop_at c t = Node l a r \<Longrightarrow> a \<in> set_tree t \<and> c a = 0"
  by (induction t) (auto split: if_splits)

lemma descend_slot_outside:
  assumes "descend c t Root_slot None = (s', q')" "distinct (inorder t)"
  shows "s' = Root_slot \<and> q' = None \<or>
    slot_owner s' = q' \<and> q' \<in> Some ` (set_tree t - set_tree (stop_at c t))"
proof -
  have "slot_owner s' = q' \<and> q' \<in> Some ` (set_tree t - set_tree (stop_at c t)) \<or> s' = s \<and> q' = q"
    if "descend c t s q = (s', q')" "distinct (inorder t)" for s q
    using that
  proof (induction t arbitrary: s q)
    case (Node l a r)
    consider "c a = 0" | (l) "c a < 0" | (r) "c a > 0" by linarith
    then show ?case
    proof cases
      case l
      have "a \<notin> set_tree (stop_at c l)" using Node.prems(2) stop_at_subset [of c l] by auto
      then show ?thesis
        using Node.IH(1) [of "Left_slot a" "Some a"] Node.prems l by auto
    next
      case r
      have "a \<notin> set_tree (stop_at c r)" using Node.prems(2) stop_at_subset [of c r] by auto
      then show ?thesis
        using Node.IH(2) [of "Right_slot a" "Some a"] Node.prems r by auto
    qed (use Node.prems in simp)
  qed simp
  with assms show ?thesis by blast
qed

lemma tree_at_stop:
  "tree_at mem par v t \<Longrightarrow> descend c t s par = (s', q') \<Longrightarrow>
   tree_at mem q' (root_of (stop_at c t)) (stop_at c t)"
proof (induction t arbitrary: par v s)
  case (Node l a r)
  then show ?case by (auto split: option.splits if_splits)
qed simp

text \<open>Items outside the tree, and the payload of an item, do not matter.\<close>

lemma map_rep_outside:
  "a \<notin> set_tree t \<Longrightarrow> map_rep key head (mem(a := v)) t = map_rep key head mem t"
proof -
  assume a: "a \<notin> set_tree t"
  then have "map (\<lambda>b. key (the ((mem(a := v)) b))) (inorder t) = map (\<lambda>b. key (the (mem b))) (inorder t)"
    by (intro map_cong refl) (auto simp flip: set_inorder)
  moreover have "tree_at (mem(a := v)) None (root head) t = tree_at mem None (root head) t"
    by (rule tree_at_cong) (use a in auto)
  ultimately show ?thesis
    unfolding map_rep_def by metis
qed

lemma tree_at_payload:
  assumes "mem a = Some i" "mi_l j = mi_l i" "mi_r j = mi_r i" "mi_p j = mi_p i"
  shows "tree_at (mem(a \<mapsto> j)) par v t = tree_at mem par v t"
  using assms by (induction t arbitrary: par v) (auto split: option.split)

lemma map_rep_payload:
  assumes "mem a = Some i" "mi_l j = mi_l i" "mi_r j = mi_r i" "mi_p j = mi_p i" "key j = key i"
  shows "map_rep key head (mem(a \<mapsto> j)) t = map_rep key head mem t"
proof -
  have "(\<lambda>b. key (the ((mem(a \<mapsto> j)) b))) = (\<lambda>b. key (the (mem b)))"
    using assms by auto
  then show ?thesis
    using tree_at_payload [of mem a i j] assms by (simp add: map_rep_def)
qed

text \<open>
  The order a map is built with: the comparison function agrees with a key that does not depend
  on the links.
\<close>

locale map_order =
  fixes cmp :: "'z map_item_scheme \<Rightarrow> 'z map_item_scheme \<Rightarrow> int"
    and key :: "'z map_item_scheme \<Rightarrow> int"
  assumes cmp_less: "cmp a b < 0 \<longleftrightarrow> key a < key b"
    and cmp_zero: "cmp a b = 0 \<longleftrightarrow> key a = key b"
    and key_strip: "key (strip a) = key a"
begin

lemma key_same: "same_items mem mem' \<Longrightarrow> mem a = Some i \<Longrightarrow> key (the (mem' a)) = key (the (mem a))"
  using same_items_Some [of mem mem' a i] key_strip by (metis option.sel)

lemma stop_at_key:
  assumes "map_rep key head mem t" "comp head = cmp"
  shows "stop_at (\<lambda>a. comp head k (the (mem a))) t = Leaf \<longleftrightarrow>
    (\<forall>a \<in> set_tree t. key (the (mem a)) \<noteq> key k)"
proof -
  obtain xs ys where "inorder t = xs @ inorder (stop_at (\<lambda>a. comp head k (the (mem a))) t) @ ys"
    "\<forall>a \<in> set xs. key (the (mem a)) < key k" "\<forall>a \<in> set ys. key k < key (the (mem a))"
    using graft_inorder [of "\<lambda>a. key (the (mem a))" t "\<lambda>a. comp head k (the (mem a))" "key k"]
      assms cmp_less cmp_zero by (auto simp: map_rep_def)
  moreover have "a \<in> set_tree t \<and> key (the (mem a)) = key k"
    if "stop_at (\<lambda>a. comp head k (the (mem a))) t = Node l a r" for l a r
    using stop_at_root [OF that] assms(2) cmp_zero by auto
  ultimately show ?thesis
    by (cases "stop_at (\<lambda>a. comp head k (the (mem a))) t")
      (auto simp flip: set_inorder)
qed

lemma map_find_law:
  assumes rep: "map_rep key head mem t" "comp head = cmp" "height t < n"
  obtains v where "map_find n head mem k = Ok v"
    "v = None \<longleftrightarrow> (\<forall>a \<in> set_tree t. key (the (mem a)) \<noteq> key k)"
    "\<And>a. v = Some a \<Longrightarrow> a \<in> set_tree t \<and> key (the (mem a)) = key k"
proof -
  let ?s = "stop_at (\<lambda>a. comp head k (the (mem a))) t"
  have 1: "map_find n head mem k = Ok (root_of ?s)"
    using map_find_lookup [OF _ rep(3), of mem head k] rep(1) by (simp add: map_rep_def)
  have 2: "root_of ?s = None \<longleftrightarrow> (\<forall>a \<in> set_tree t. key (the (mem a)) \<noteq> key k)"
    using stop_at_key [OF rep(1,2), of k] by (cases ?s) auto
  have 3: "a \<in> set_tree t \<and> key (the (mem a)) = key k" if "root_of ?s = Some a" for a
  proof -
    from that obtain l r where "?s = Node l a r" by (cases ?s) auto
    from stop_at_root [OF this] have "a \<in> set_tree t" "cmp k (the (mem a)) = 0"
      unfolding rep(2) by blast+
    then show ?thesis unfolding cmp_zero by metis
  qed
  show ?thesis by (rule that [OF 1 2]) (rule 3)
qed

text \<open>Grafting in terms of the map: the common part of insertion and deletion.\<close>

lemma map_graft:
  assumes rep: "map_rep key head mem t" "comp head = cmp"
    and d: "descend (\<lambda>a. comp head k (the (mem a))) t Root_slot None = (s', q')"
    and store: "store_slot head mem s' w = Ok (head1, mem1)"
    and same: "\<And>a. a \<in> set_tree t \<Longrightarrow> a \<notin> set_tree (stop_at (\<lambda>a. comp head k (the (mem a))) t) \<Longrightarrow>
      mem' a = mem1 a"
    and u: "tree_at mem' q' w u"
    and items: "same_items mem mem'" "\<And>a. a \<in> set_tree u \<Longrightarrow> mem a \<noteq> None"
      "sorted_wrt (<) (map (\<lambda>a. key (the (mem a))) (inorder u))"
    and keys: "\<And>a. a \<in> set_tree u \<Longrightarrow> key (the (mem a)) = key k \<or>
      a \<in> set_tree (stop_at (\<lambda>a. comp head k (the (mem a))) t)"
  obtains t' where "map_rep key head1 mem' t'" "comp head1 = cmp"
    "set_tree t' =
      set_tree t - set_tree (stop_at (\<lambda>a. comp head k (the (mem a))) t) \<union> set_tree u"
proof -
  let ?c = "\<lambda>a. comp head k (the (mem a))"
  have dist: "distinct (inorder t)"
    using rep(1) sorted_distinct by (auto simp: map_rep_def)
  obtain xs ys where ord: "inorder t = xs @ inorder (stop_at ?c t) @ ys"
    "\<And>u. inorder (graft ?c t u) = xs @ inorder u @ ys"
    "\<forall>a \<in> set xs. key (the (mem a)) < key k" "\<forall>a \<in> set ys. key k < key (the (mem a))"
    using graft_inorder [of "\<lambda>a. key (the (mem a))" t ?c "key k"] rep cmp_less cmp_zero
    by (auto simp: map_rep_def)
  have "tree_at mem' None (root head1) (graft ?c t u)"
    using tree_at_graft [OF _ dist d _ _ store _ _ u] rep(1) same by (auto simp: map_rep_def)
  moreover have "sorted_wrt (<) (map (\<lambda>a. key (the (mem a))) (inorder (graft ?c t u)))"
    using rep(1) ord items(3) keys
    by (fastforce simp: map_rep_def sorted_wrt_append simp flip: set_inorder)
  moreover have "key (the (mem' a)) = key (the (mem a))" if "a \<in> set_tree (graft ?c t u)" for a
  proof -
    have "a \<in> set_tree t \<or> a \<in> set_tree u"
      using that ord(1,2) by (auto simp flip: set_inorder)
    then have "mem a \<noteq> None"
      using items(2) tree_at_dom rep(1) by (fastforce simp: map_rep_def)
    then show ?thesis using key_same [OF items(1)] by auto
  qed
  then have "map (\<lambda>a. key (the (mem' a))) (inorder (graft ?c t u)) =
    map (\<lambda>a. key (the (mem a))) (inorder (graft ?c t u))"
    by (intro map_cong refl) (simp only: set_inorder)
  ultimately have "map_rep key head1 mem' (graft ?c t u)"
    unfolding map_rep_def by metis
  moreover have "set_tree (graft ?c t u) = set_tree t - set_tree (stop_at ?c t) \<union> set_tree u"
    using ord(1,2) dist by (auto simp flip: set_inorder)
  ultimately show ?thesis
    using that store_slot_frame(1) [OF store] rep(2) by simp
qed

lemma map_add_law:
  assumes rep: "map_rep key head mem t" "comp head = cmp" and n: "height t < n"
    and item: "mem item = Some i" "item \<notin> set_tree t"
    and new: "\<And>a. a \<in> set_tree t \<Longrightarrow> key (the (mem a)) \<noteq> key i"
  obtains head' mem' t' where "map_add_item n head mem item = Ok (None, head', mem')"
    "map_rep key head' mem' t'" "comp head' = cmp" "set_tree t' = insert item (set_tree t)"
    "same_items mem mem'"
proof -
  let ?c = "\<lambda>a. comp head i (the (mem a))"
  obtain s q where d: "descend ?c t Root_slot None = (s, q)" by fastforce
  have at: "tree_at mem None (root head) t" and dist: "distinct (inorder t)"
    using rep(1) sorted_distinct by (auto simp: map_rep_def)
  have leaf: "stop_at ?c t = Leaf"
    using stop_at_key [OF rep, of i] new by blast
  have load: "load_slot head mem s = Ok None"
    using load_descend [OF at, of head Root_slot ?c None] d leaf by simp
  then obtain head1 mem1 where store: "store_slot head mem s (Some item) = Ok (head1, mem1)"
    by (rule store_slot_Ok)
  have "slot_owner s \<noteq> Some item"
    using descend_slot_outside [OF d dist] item(2) by auto
  then have i1: "mem1 item = Some i"
    using store_slot_frame(3) [OF store] item(1) by simp
  let ?mem = "mem1(item \<mapsto> i\<lparr>mi_p := q, mi_l := None, mi_r := None\<rparr>)"
  have same: "same_items mem ?mem"
    by (rule same_items_upd [OF store_slot_same_items [OF store] i1]) simp
  obtain t' where t': "map_rep key head1 ?mem t'" "comp head1 = cmp"
    "set_tree t' = set_tree t - set_tree (stop_at ?c t) \<union> set_tree (Node Leaf item Leaf)"
    by (rule map_graft [OF rep d store _ _ same, of "Node Leaf item Leaf"])
      (use item leaf in auto)
  have "map_add_item n head mem item = Ok (None, head1, ?mem)"
    using map_find_loop_descend [OF at _ n, of head Root_slot i] d item(1) load store i1
    by (simp add: map_add_item_def map_find_slot_def)
  with t' same leaf show ?thesis using that by auto
qed

lemma map_add_dup:
  assumes rep: "map_rep key head mem t" "comp head = cmp" and n: "height t < n"
    and item: "mem item = Some i" and dup: "a \<in> set_tree t" "key (the (mem a)) = key i"
  obtains d where "map_add_item n head mem item = Ok (Some d, head, mem)" "d \<in> set_tree t"
    "key (the (mem d)) = key i"
proof -
  let ?c = "\<lambda>a. comp head i (the (mem a))"
  obtain s q where d: "descend ?c t Root_slot None = (s, q)" by fastforce
  have at: "tree_at mem None (root head) t"
    using rep(1) by (auto simp: map_rep_def)
  obtain l d r where node: "stop_at ?c t = Node l d r"
    using stop_at_key [OF rep, of i] dup by (cases "stop_at ?c t") auto
  have load: "load_slot head mem s = Ok (Some d)"
    using load_descend [OF at, of head Root_slot ?c None] d node by simp
  have "map_add_item n head mem item = Ok (Some d, head, mem)"
    using map_find_loop_descend [OF at _ n, of head Root_slot i] d item(1) load
    by (simp add: map_add_item_def map_find_slot_def)
  moreover have "d \<in> set_tree t" "key (the (mem d)) = key i"
    using stop_at_root [OF node] rep(2) cmp_zero [of i "the (mem d)"] by simp_all
  ultimately show ?thesis by (rule that)
qed

text \<open>A child taken up to the place of its parent.\<close>

lemma hoist_child_tree:
  assumes u: "tree_at mem (Some item) (Some a) u" "distinct (inorder u)" "item \<notin> set_tree u"
    and item: "mem item = Some i" "mi_p i = q"
    and store: "store_slot head mem s (Some a) = Ok (head1, mem1)"
    and m1: "\<And>b. b \<in> insert item (set_tree u) \<Longrightarrow> mem1 b = mem b"
  obtains j where "mem a = Some j" "a \<in> set_tree u"
    "hoist_child head mem s item a = Ok (head1, mem1(a \<mapsto> j\<lparr>mi_p := q\<rparr>))"
    "\<And>i'. tree_at (mem1(a \<mapsto> j\<lparr>mi_p := q\<rparr>, item \<mapsto> i')) q (Some a) u"
proof (cases u)
  case (Node ul b ur)
  then have b: "b = a" "a \<in> set_tree u" "a \<noteq> item" using u by (auto split: option.splits)
  obtain j where j: "mem a = Some j" "tree_at mem (Some a) (mi_l j) ul" "tree_at mem (Some a) (mi_r j) ur"
    using u(1) Node by (auto split: option.splits)
  have "hoist_child head mem s item a = Ok (head1, mem1(a \<mapsto> j\<lparr>mi_p := q\<rparr>))"
    using store m1 [of item] m1 [of a] b(2) item j(1) by (simp add: hoist_child_def)
  moreover have "tree_at (mem1(a \<mapsto> j\<lparr>mi_p := q\<rparr>, item \<mapsto> i')) (Some a) p v = tree_at mem (Some a) p v"
    if "set_tree v \<subseteq> set_tree u - {a}" for i' p v
    using that u(3) m1 by (intro tree_at_cong) auto
  then have "tree_at (mem1(a \<mapsto> j\<lparr>mi_p := q\<rparr>, item \<mapsto> i')) q (Some a) u" for i'
    using Node j b u(2) by auto
  ultimately show thesis by (intro that [OF j(1) b(2)])
qed (use u(1) in simp)

text \<open>The shared part of the branches of \<open>map_del\<close> for an item with at most one child.\<close>

lemma map_unlink:
  assumes rep: "map_rep key head mem t" "comp head = cmp"
    and d: "descend (\<lambda>a. comp head i (the (mem a))) t Root_slot None = (s, q)"
    and node: "stop_at (\<lambda>a. comp head i (the (mem a))) t = Node l item r" "l = Leaf \<or> r = Leaf"
    and item: "mem item = Some i"
  obtains head1 mem1 t' where
    "(case (mi_l i, mi_r i) of
        (Some l, Some r) \<Rightarrow> k l r
      | (Some l, None) \<Rightarrow> hoist_child head mem s item l
      | (None, Some r) \<Rightarrow> hoist_child head mem s item r
      | (None, None) \<Rightarrow> store_slot head mem s None) = Ok (head1, mem1)"
    "mem1 item = Some i" "comp head1 = cmp" "same_items mem mem1"
    "map_rep key head1 (mem1(item \<mapsto> i\<lparr>mi_l := None, mi_r := None, mi_p := None\<rparr>)) t'"
    "set_tree t' = set_tree t - {item}"
proof -
  note found = that
  let ?c = "\<lambda>a. comp head i (the (mem a))"
  let ?i = "i\<lparr>mi_l := None, mi_r := None, mi_p := None\<rparr>"
  have at: "tree_at mem None (root head) t" and dist: "distinct (inorder t)"
    using rep(1) sorted_distinct by (auto simp: map_rep_def)
  have load: "load_slot head mem s = Ok (Some item)"
    using load_descend [OF at, of head Root_slot ?c None] d node(1) by simp
  have sub: "tree_at mem q (Some item) (Node l item r)"
    using tree_at_stop [OF at d] node(1) by simp
  then have links: "mi_p i = q" "tree_at mem (Some item) (mi_l i) l" "tree_at mem (Some item) (mi_r i) r"
    using item by auto
  obtain xs ys where ord: "inorder t = xs @ inorder (stop_at ?c t) @ ys"
    using graft_inorder [of "\<lambda>a. key (the (mem a))" t ?c "key i"] rep cmp_less cmp_zero
    by (auto simp: map_rep_def)
  then have parts: "distinct (inorder l @ item # inorder r)"
    "sorted_wrt (<) (map (\<lambda>a. key (the (mem a))) (inorder l @ item # inorder r))"
    using dist rep(1) node(1) by (auto simp: map_rep_def sorted_wrt_append)
  have owner: "slot_owner s \<notin> Some ` set_tree (Node l item r)"
    using descend_slot_outside [OF d dist] node(1) by auto
  define u where "u = (if l = Leaf then r else l)"
  have du: "distinct (inorder u)" "item \<notin> set_tree u" "set_tree (Node l item r) = insert item (set_tree u)"
    using parts(1) node(2) by (auto simp: u_def)
  have su: "sorted_wrt (<) (map (\<lambda>a. key (the (mem a))) (inorder u))"
    using parts(2) by (auto simp: u_def sorted_wrt_append)
  have dom: "mem a \<noteq> None" if "a \<in> set_tree u" for a
    using that du(3) node(1) tree_at_dom [OF sub] by auto
  have finish: thesis if store: "store_slot head mem s (root_of u) = Ok (head1, mem1)"
      and result: "(case (mi_l i, mi_r i) of
        (Some l, Some r) \<Rightarrow> k l r
      | (Some l, None) \<Rightarrow> hoist_child head mem s item l
      | (None, Some r) \<Rightarrow> hoist_child head mem s item r
      | (None, None) \<Rightarrow> store_slot head mem s None) = Ok (head1, mem2)"
      and mem2: "mem2 item = Some i" "same_items mem mem2"
        "\<And>a. a \<notin> set_tree u \<Longrightarrow> mem2 a = mem1 a"
        "tree_at (mem2(item \<mapsto> ?i)) q (root_of u) u" for head1 mem1 mem2
  proof -
    have same: "same_items mem (mem2(item \<mapsto> ?i))"
      by (rule same_items_upd [OF mem2(2,1)]) simp
    obtain t' where "map_rep key head1 (mem2(item \<mapsto> ?i)) t'" "comp head1 = cmp"
      "set_tree t' = set_tree t - set_tree (stop_at ?c t) \<union> set_tree u"
      by (rule map_graft [OF rep d store _ mem2(4) same _ su]) (use dom du(3) node(1) mem2(3) in auto)
    moreover have "set_tree t - set_tree (stop_at ?c t) \<union> set_tree u = set_tree t - {item}"
      using du(2,3) node(1) stop_at_subset [of ?c t] by auto
    ultimately show ?thesis
      using found [OF result mem2(1) _ mem2(2)] by simp
  qed
  obtain head1 mem1 where store: "store_slot head mem s (root_of u) = Ok (head1, mem1)"
    by (rule store_slot_Ok [OF load])
  have m1: "mem1 a = mem a" if "a \<in> set_tree (Node l item r)" for a
    using that owner store_slot_frame(3) [OF store, of a] by auto
  show thesis
  proof (cases u)
    case Leaf
    then have "mi_l i = None" "mi_r i = None"
      using links(2,3) node(2) by (auto simp: u_def split: if_splits)
    then show ?thesis
      using finish [OF store, of mem1] store m1 item store_slot_same_items [OF store] Leaf by simp
  next
    case (Node ul a ur)
    have up: "tree_at mem (Some item) (Some a) u" and child:
      "mi_l i = (if l = Leaf then None else Some a)" "mi_r i = (if l = Leaf then Some a else None)"
      using links(2,3) Node node(2) by (auto simp: u_def split: if_splits)
    have store_a: "store_slot head mem s (Some a) = Ok (head1, mem1)" using store Node by simp
    have m1_u: "mem1 b = mem b" if "b \<in> insert item (set_tree u)" for b
      by (rule m1) (use that du(3) in blast)
    obtain j where j: "mem a = Some j" "a \<in> set_tree u"
      "hoist_child head mem s item a = Ok (head1, mem1(a \<mapsto> j\<lparr>mi_p := q\<rparr>))"
      "\<And>i'. tree_at (mem1(a \<mapsto> j\<lparr>mi_p := q\<rparr>, item \<mapsto> i')) q (Some a) u"
      by (rule hoist_child_tree [OF up du(1,2) item links(1) store_a m1_u]) (assumption, rule that)
    have "a \<noteq> item" using j(2) du(2) by auto
    then show ?thesis
      using finish [OF store, of "mem1(a \<mapsto> j\<lparr>mi_p := q\<rparr>)"] m1_u [of item] m1_u [of a] item j child Node
        same_items_upd [OF store_slot_same_items [OF store], of a j "j\<lparr>mi_p := q\<rparr>"] by auto
  qed
qed

lemma map_del_law:
  assumes rep: "map_rep key head mem t" "comp head = cmp" and n: "height t < n"
    and item: "mem item = Some i" "item \<in> set_tree t" and child: "mi_l i = None \<or> mi_r i = None"
  obtains head' mem' t' where "map_del n head mem item = Ok (Some item, head', mem')"
    "map_rep key head' mem' t'" "comp head' = cmp" "set_tree t' = set_tree t - {item}"
    "same_items mem mem'"
proof -
  let ?c = "\<lambda>a. comp head i (the (mem a))"
  obtain s q where d: "descend ?c t Root_slot None = (s, q)" by fastforce
  have at: "tree_at mem None (root head) t"
    using rep(1) by (auto simp: map_rep_def)
  obtain l d' r where node: "stop_at ?c t = Node l d' r"
    using stop_at_key [OF rep, of i] item by (cases "stop_at ?c t") auto
  have "d' \<in> set_tree t" "key (the (mem d')) = key (the (mem item))"
    using stop_at_root [OF node] rep(2) cmp_zero [of i "the (mem d')"] item(1) by simp_all
  then have "d' = item"
    using sorted_inj [of "\<lambda>a. key (the (mem a))" "inorder t" d' item] rep(1) item(2)
    by (simp add: map_rep_def)
  note node = node [unfolded this]
  have load: "load_slot head mem s = Ok (Some item)"
    using load_descend [OF at, of head Root_slot ?c None] d node(1) by simp
  have "l = Leaf \<or> r = Leaf"
    using tree_at_stop [OF at d] node item(1) child tree_at_ptr by fastforce
  then obtain head1 mem1 t' where m: "(case (mi_l i, mi_r i) of
      (Some l, Some r) \<Rightarrow>
        bind_res (rightmost n mem l) (\<lambda>q. bind_res (load_item mem q) (\<lambda>j.
          let mem = mem(q \<mapsto> j\<lparr>mi_r := Some r\<rparr>) in
          bind_res (load_item mem item) (\<lambda>i. hoist_child head (mem(item \<mapsto> i\<lparr>mi_p := Some q\<rparr>)) s item l)))
    | (Some l, None) \<Rightarrow> hoist_child head mem s item l
    | (None, Some r) \<Rightarrow> hoist_child head mem s item r
    | (None, None) \<Rightarrow> store_slot head mem s None) = Ok (head1, mem1)"
    "mem1 item = Some i" "comp head1 = cmp" "same_items mem mem1"
    "map_rep key head1 (mem1(item \<mapsto> i\<lparr>mi_l := None, mi_r := None, mi_p := None\<rparr>)) t'"
    "set_tree t' = set_tree t - {item}"
    by (rule map_unlink [OF rep d node _ item(1)])
  have "map_del n head mem item =
    Ok (Some item, head1, mem1(item \<mapsto> i\<lparr>mi_l := None, mi_r := None, mi_p := None\<rparr>))"
    using map_find_loop_descend [OF at _ n, of head Root_slot i] d item(1) load m(1,2)
    by (simp add: map_del_def map_find_slot_def)
  moreover have "same_items mem (mem1(item \<mapsto> i\<lparr>mi_l := None, mi_r := None, mi_p := None\<rparr>))"
    by (rule same_items_upd [OF m(4,2)]) simp
  ultimately show ?thesis using that m(3,5,6) by blast
qed

end

end
