(* ===== verification/EvlSelect.thy ===== *)
theory EvlSelect
  imports TcpPipe MapTree
begin

unbundle bit_operations_syntax

text \<open>
  The select()-based event loop of \<open>evl/src.linux/event_loop_select.c\<close>; \<open>EvlWin\<close> has
  the one of Windows.

  A \<open>select_sk\<close> extends \<open>map_item\<close>, so the map of sockets is the pointer structure of
  \<open>MapTree\<close> with the sockets themselves as items.  The state has the heap the sockets are
  allocated from: \<open>heap_garbage\<close> is what a fresh block contains and \<open>heap_full\<close> whether
  \<open>heap_malloc\<close> fails.  \<open>fd_set\<close> is a set of descriptors; \<open>FD_SET\<close> and \<open>FD_CLR\<close>
  outside \<open>FD_SETSIZE\<close> are undefined.

  \<open>evl_inv\<close> says that the map is a search tree on the descriptors, that the three sets hold
  exactly the sockets with the matching event mask, and that \<open>nfds\<close> is the highest
  descriptor plus one.  The operations keep it, which interprets \<open>event_loop_contract\<close>.
\<close>

section \<open>The code\<close>

record select_sk = map_item +
  ssk_sk :: int
  ssk_events :: uint
  ssk_cb :: nat
  ssk_have :: uint

record evl_select =
  evl_nfds :: int
  fds_r :: "int set"
  fds_w :: "int set"
  fds_x :: "int set"
  evl_sockets :: "select_sk map_head"
  map_touched :: bool
  in_callback :: bool
  dead :: bool
  evl_mem :: "select_sk map_mem"
  heap_next :: nat
  heap_garbage :: "nat \<Rightarrow> select_sk"
  heap_full :: bool

definition FD_SETSIZE :: int where "FD_SETSIZE = 1024"

text \<open>\<open>FD_SET\<close>, \<open>FD_CLR\<close> and \<open>FD_ISSET\<close> index a bit array of \<open>FD_SETSIZE\<close> bits.\<close>

definition FD_SET :: "int \<Rightarrow> int set \<Rightarrow> int set res" where
  "FD_SET sk s = (if 0 \<le> sk \<and> sk < FD_SETSIZE then Ok (insert sk s) else Stop Undefined_behaviour)"

definition FD_CLR :: "int \<Rightarrow> int set \<Rightarrow> int set res" where
  "FD_CLR sk s = (if 0 \<le> sk \<and> sk < FD_SETSIZE then Ok (s - {sk}) else Stop Undefined_behaviour)"

definition FD_ISSET :: "int \<Rightarrow> int set \<Rightarrow> bool res" where
  "FD_ISSET sk s = (if 0 \<le> sk \<and> sk < FD_SETSIZE then Ok (sk \<in> s) else Stop Undefined_behaviour)"

definition select_sk_comp :: "select_sk \<Rightarrow> select_sk \<Rightarrow> int" where
  "select_sk_comp a b = ssk_sk a - ssk_sk b"

text \<open>The bound on the loops over the map, which never holds more than \<open>FD_SETSIZE\<close> sockets.\<close>

definition evl_fuel :: nat where "evl_fuel = 1025"

definition find_select_sk :: "evl_select \<Rightarrow> int \<Rightarrow> nat option res" where
  "find_select_sk evl sk =
     (let foo = \<lparr>mi_l = None, mi_r = None, mi_p = None, ssk_sk = sk, ssk_events = 0, ssk_cb = 0,
                 ssk_have = 0\<rparr> in
      map_find evl_fuel (evl_sockets evl) (evl_mem evl) foo)"

definition alloc_select_sk :: "int \<Rightarrow> uint \<Rightarrow> nat \<Rightarrow> evl_select \<Rightarrow> nat option \<times> evl_select" where
  "alloc_select_sk sk events cb evl =
     (if heap_full evl then (None, evl)
      else let foo = heap_next evl in
        (Some foo,
         evl\<lparr>heap_next := Suc foo,
             evl_mem := (evl_mem evl)(foo \<mapsto>
               (heap_garbage evl foo)\<lparr>ssk_sk := sk, ssk_events := events, ssk_cb := cb\<rparr>)\<rparr>))"

definition evl_select_add_socket :: "int \<Rightarrow> uint \<Rightarrow> nat \<Rightarrow> evl_select \<Rightarrow> evl_select res" where
  "evl_select_add_socket sk events cb evl =
     (case alloc_select_sk sk events cb evl of
        (None, evl) \<Rightarrow> Ok evl
      | (Some ssk, evl) \<Rightarrow>
          bind_res (map_add_item evl_fuel (evl_sockets evl) (evl_mem evl) ssk) (\<lambda>(mi, head, mem).
          let evl = evl\<lparr>evl_sockets := head, evl_mem := mem\<rparr> in
          c_assert (mi = None)
            (bind_res (if has events SK_EV_readable then FD_SET sk (fds_r evl) else Ok (fds_r evl))
              (\<lambda>rs. bind_res (if has events SK_EV_writable then FD_SET sk (fds_w evl) else Ok (fds_w evl))
              (\<lambda>ws. bind_res (FD_SET sk (fds_x evl))
              (\<lambda>xs. Ok (evl\<lparr>fds_r := rs, fds_w := ws, fds_x := xs,
                  evl_nfds := (if sk \<ge> evl_nfds evl then sk + 1 else evl_nfds evl),
                  map_touched := True\<rparr>)))))))"

text \<open>One of the two pairs of tests that bring an \<open>fd_set\<close> up to date with the new mask.\<close>

definition update_fds :: "int \<Rightarrow> bool \<Rightarrow> bool \<Rightarrow> int set \<Rightarrow> int set res" where
  "update_fds sk want had s =
     bind_res (if want \<and> \<not> had then FD_SET sk s else Ok s)
       (\<lambda>s. if \<not> want \<and> had then FD_CLR sk s else Ok s)"

definition evl_select_mod_socket :: "int \<Rightarrow> uint \<Rightarrow> evl_select \<Rightarrow> evl_select res" where
  "evl_select_mod_socket sk events evl =
     bind_res (find_select_sk evl sk) (\<lambda>f.
       case f of None \<Rightarrow> Stop Assertion_failed
       | Some a \<Rightarrow>
           bind_res (load_item (evl_mem evl) a) (\<lambda>ssk.
           bind_res (update_fds sk (has events SK_EV_readable) (has (ssk_events ssk) SK_EV_readable) (fds_r evl))
             (\<lambda>rs. bind_res (update_fds sk (has events SK_EV_writable) (has (ssk_events ssk) SK_EV_writable) (fds_w evl))
             (\<lambda>ws. Ok (evl\<lparr>fds_r := rs, fds_w := ws,
                 evl_mem := (evl_mem evl)(a \<mapsto> ssk\<lparr>ssk_events := events\<rparr>)\<rparr>)))))"

text \<open>The loop that recalculates \<open>nfds\<close>, from the item \<open>mi\<close> on.\<close>

fun max_sk_loop :: "nat \<Rightarrow> evl_select \<Rightarrow> int \<Rightarrow> nat option \<Rightarrow> int \<Rightarrow> int res" where
  "max_sk_loop 0 evl sk mi max_sk = Stop Out_of_fuel"
| "max_sk_loop (Suc n) evl sk mi max_sk =
     bind_res (map_walk evl_fuel (evl_sockets evl) (evl_mem evl) mi) (\<lambda>mi.
       case mi of None \<Rightarrow> Ok max_sk
       | Some a \<Rightarrow> bind_res (load_item (evl_mem evl) a) (\<lambda>foo.
           if ssk_sk foo < max_sk then max_sk_loop n evl sk (Some a) max_sk
           else if ssk_sk foo = sk - 1 then Ok (ssk_sk foo)
           else max_sk_loop n evl sk (Some a) (ssk_sk foo)))"

definition evl_select_del_socket :: "int \<Rightarrow> evl_select \<Rightarrow> evl_select res" where
  "evl_select_del_socket sk evl =
     bind_res (find_select_sk evl sk) (\<lambda>f.
       case f of None \<Rightarrow> Stop Assertion_failed
       | Some a \<Rightarrow>
           bind_res (load_item (evl_mem evl) a) (\<lambda>ssk.
           bind_res (if has (ssk_events ssk) SK_EV_readable then FD_CLR sk (fds_r evl) else Ok (fds_r evl)) (\<lambda>rs.
           bind_res (if has (ssk_events ssk) SK_EV_writable then FD_CLR sk (fds_w evl) else Ok (fds_w evl)) (\<lambda>ws.
           bind_res (FD_CLR sk (fds_x evl)) (\<lambda>xs.
           bind_res (map_del evl_fuel (evl_sockets evl) (evl_mem evl) a) (\<lambda>(_, head, mem).
             let evl = evl\<lparr>fds_r := rs, fds_w := ws, fds_x := xs, evl_sockets := head,
                           evl_mem := mem(a := None)\<rparr> in
             bind_res (if evl_nfds evl = sk + 1
                       then bind_res (max_sk_loop evl_fuel evl sk None (-1)) (\<lambda>m. Ok (m + 1))
                       else Ok (evl_nfds evl)) (\<lambda>nfds.
               Ok (evl\<lparr>evl_nfds := nfds, map_touched := True\<rparr>))))))))"

text \<open>
  The loop in \<open>new_event_loop_select\<close> is built in memory from \<open>heap_malloc\<close>: the two flags
  it does not set keep what was there.
\<close>

definition new_event_loop_select :: "bool \<Rightarrow> bool \<Rightarrow> (nat \<Rightarrow> select_sk) \<Rightarrow> evl_select" where
  "new_event_loop_select junk_callback junk_dead garbage =
     \<lparr>evl_nfds = 0, fds_r = {}, fds_w = {}, fds_x = {}, evl_sockets = map_init select_sk_comp,
      map_touched = False, in_callback = junk_callback, dead = junk_dead,
      evl_mem = Map.empty, heap_next = 0, heap_garbage = garbage, heap_full = False\<rparr>"

definition evl_select_api :: "evl_select event_loop" where
  "evl_select_api =
     \<lparr>add_socket = evl_select_add_socket, mod_socket = evl_select_mod_socket,
      del_socket = evl_select_del_socket\<rparr>"

section \<open>The invariant\<close>

text \<open>The sockets registered for an event.\<close>

definition wanting :: "(int \<rightharpoonup> uint \<times> nat) \<Rightarrow> uint \<Rightarrow> int set" where
  "wanting reg f = {sk. case reg sk of None \<Rightarrow> False | Some (m, c) \<Rightarrow> has m f}"

definition evl_rep :: "evl_select \<Rightarrow> nat tree \<Rightarrow> (int \<rightharpoonup> uint \<times> nat) \<Rightarrow> bool" where
  "evl_rep e t reg \<longleftrightarrow>
     map_rep ssk_sk (evl_sockets e) (evl_mem e) t \<and> comp (evl_sockets e) = select_sk_comp \<and>
     dom (evl_mem e) = set_tree t \<and> (\<forall>a \<in> set_tree t. a < heap_next e) \<and> \<not> heap_full e \<and>
     (\<forall>sk m c. reg sk = Some (m, c) \<longleftrightarrow>
       (\<exists>a s. evl_mem e a = Some s \<and> ssk_sk s = sk \<and> ssk_events s = m \<and> ssk_cb s = c)) \<and>
     (\<forall>sk \<in> dom reg. 0 \<le> sk \<and> sk < FD_SETSIZE \<and> sk < evl_nfds e) \<and>
     (evl_nfds e = 0 \<or> evl_nfds e - 1 \<in> dom reg) \<and>
     fds_x e = dom reg \<and>
     fds_r e = wanting reg SK_EV_readable \<and>
     fds_w e = wanting reg SK_EV_writable"

definition evl_inv :: "evl_select \<Rightarrow> bool" where
  "evl_inv e \<longleftrightarrow> (\<exists>t reg. evl_rep e t reg)"

text \<open>What the loop has stored for a descriptor.\<close>

definition evl_registered :: "evl_select \<Rightarrow> int \<rightharpoonup> uint \<times> nat" where
  "evl_registered e sk =
     (case find_select_sk e sk of
        Inr (Some a) \<Rightarrow> map_option (\<lambda>s. (ssk_events s, ssk_cb s)) (evl_mem e a)
      | _ \<Rightarrow> None)"

definition evl_sk_valid :: "int \<Rightarrow> bool" where
  "evl_sk_valid sk \<longleftrightarrow> 0 \<le> sk \<and> sk < FD_SETSIZE"

text \<open>A socket whose item in the map has at most one child.\<close>

definition evl_del_ok :: "evl_select \<Rightarrow> int \<Rightarrow> bool" where
  "evl_del_ok e sk \<longleftrightarrow>
     (case find_select_sk e sk of
        Inr (Some a) \<Rightarrow>
          (case evl_mem e a of Some s \<Rightarrow> mi_l s = None \<or> mi_r s = None | None \<Rightarrow> False)
      | _ \<Rightarrow> False)"

section \<open>Lemmas\<close>

lemma wanting_upd [simp]:
  "wanting (reg(sk \<mapsto> (m, c))) f = (if has m f then insert sk (wanting reg f) else wanting reg f - {sk})"
  "wanting (reg(sk := None)) f = wanting reg f - {sk}"
  by (auto simp: wanting_def)

lemma wanting_empty [simp]: "wanting Map.empty f = {}"
  by (simp add: wanting_def)

lemma in_wanting:
  "reg sk = None \<Longrightarrow> sk \<notin> wanting reg f" "reg sk = Some (m, c) \<Longrightarrow> sk \<in> wanting reg f \<longleftrightarrow> has m f"
  by (simp_all add: wanting_def)

interpretation sel: map_order select_sk_comp ssk_sk
  by unfold_locales (auto simp: select_sk_comp_def strip_def)

lemma strip_ssk:
  "strip i = strip j \<Longrightarrow> ssk_sk i = ssk_sk j \<and> ssk_events i = ssk_events j \<and> ssk_cb i = ssk_cb j"
  by (cases i; cases j) (simp add: strip_def)

text \<open>The items in memory are the registered sockets.\<close>

abbreviation stores :: "select_sk map_mem \<Rightarrow> (int \<rightharpoonup> uint \<times> nat) \<Rightarrow> bool" where
  "stores mem reg \<equiv> \<forall>sk m c. reg sk = Some (m, c) \<longleftrightarrow>
     (\<exists>a s. mem a = Some s \<and> ssk_sk s = sk \<and> ssk_events s = m \<and> ssk_cb s = c)"

lemma same_items_ssk:
  assumes "same_items mem mem'"
  shows "(\<exists>a s. mem' a = Some s \<and> ssk_sk s = sk \<and> ssk_events s = m \<and> ssk_cb s = c) \<longleftrightarrow>
    (\<exists>a s. mem a = Some s \<and> ssk_sk s = sk \<and> ssk_events s = m \<and> ssk_cb s = c)"
proof -
  have "same_items mem' mem" using assms by (simp add: same_items_def)
  then show ?thesis using assms same_items_Some strip_ssk by metis
qed

lemma same_items_dom: "same_items mem mem' \<Longrightarrow> dom mem' = dom mem"
proof -
  assume same: "same_items mem mem'"
  have "(mem' a = None) = (mem a = None)" for a
    using same by (simp add: same_items_def) (metis option.map_disc_iff)
  then show ?thesis unfolding dom_def by simp
qed

lemma evl_rep_height:
  assumes "evl_rep e t reg"
  shows "height t < evl_fuel" "size t \<le> 1024"
proof -
  have rep: "sorted_wrt (<) (map (\<lambda>a. ssk_sk (the (evl_mem e a))) (inorder t))"
    using assms by (simp add: evl_rep_def map_rep_def)
  have "ssk_sk (the (evl_mem e a)) \<in> {0..<FD_SETSIZE}" if a: "a \<in> set_tree t" for a
  proof -
    obtain s where s: "evl_mem e a = Some s"
      using a assms unfolding evl_rep_def dom_def by blast
    then have "reg (ssk_sk s) = Some (ssk_events s, ssk_cb s)"
      using assms by (auto simp: evl_rep_def)
    then have "ssk_sk s \<in> dom reg" by blast
    then show ?thesis using assms s by (simp add: evl_rep_def)
  qed
  then have "set (map (\<lambda>a. ssk_sk (the (evl_mem e a))) (inorder t)) \<subseteq> {0..<FD_SETSIZE}"
    by auto
  moreover have "distinct (map (\<lambda>a. ssk_sk (the (evl_mem e a))) (inorder t))"
    using rep by (simp add: strict_sorted_iff)
  ultimately have "length (inorder t) \<le> card {0..<FD_SETSIZE}"
    using distinct_card [of "map (\<lambda>a. ssk_sk (the (evl_mem e a))) (inorder t)"]
      card_mono [of "{0..<FD_SETSIZE}"] by (metis finite_atLeastLessThan_int length_map)
  then show "size t \<le> 1024" by (simp add: FD_SETSIZE_def)
  then show "height t < evl_fuel"
    using height_le_size_tree [of t] by (simp add: evl_fuel_def)
qed

lemma evl_rep_find:
  assumes "evl_rep e t reg"
  shows "\<exists>v. find_select_sk e sk = Ok v \<and> (v = None \<longleftrightarrow> reg sk = None) \<and>
    (\<forall>a. v = Some a \<longrightarrow> a \<in> set_tree t \<and>
      (\<exists>s. evl_mem e a = Some s \<and> ssk_sk s = sk \<and> reg sk = Some (ssk_events s, ssk_cb s)))"
proof -
  let ?foo = "\<lparr>mi_l = None, mi_r = None, mi_p = None, ssk_sk = sk, ssk_events = 0, ssk_cb = 0,
    ssk_have = 0\<rparr>"
  have rep: "map_rep ssk_sk (evl_sockets e) (evl_mem e) t" "comp (evl_sockets e) = select_sk_comp"
    and dom: "dom (evl_mem e) = set_tree t"
    and reg: "\<And>sk m c. reg sk = Some (m, c) \<longleftrightarrow>
       (\<exists>a s. evl_mem e a = Some s \<and> ssk_sk s = sk \<and> ssk_events s = m \<and> ssk_cb s = c)"
    using assms by (simp_all add: evl_rep_def)
  obtain v where v: "map_find evl_fuel (evl_sockets e) (evl_mem e) ?foo = Ok v"
    "v = None \<longleftrightarrow> (\<forall>a \<in> set_tree t. ssk_sk (the (evl_mem e a)) \<noteq> ssk_sk ?foo)"
    "\<And>a. v = Some a \<Longrightarrow> a \<in> set_tree t \<and> ssk_sk (the (evl_mem e a)) = ssk_sk ?foo"
    by (rule sel.map_find_law [OF rep evl_rep_height(1) [OF assms], of ?foo]) (rule that)
  have "v = None \<longleftrightarrow> reg sk = None"
  proof
    assume "v = None"
    then show "reg sk = None" using v(2) reg dom by (cases "reg sk") force+
  next
    assume none: "reg sk = None"
    show "v = None"
    proof (rule ccontr)
      assume "v \<noteq> None"
      then obtain a where a: "v = Some a" by blast
      then obtain s where "evl_mem e a = Some s" "ssk_sk s = sk"
        using v(3) [OF a] dom by (force simp: dom_def)
      then show False using reg none by force
    qed
  qed
  moreover have "\<exists>s. evl_mem e a = Some s \<and> ssk_sk s = sk \<and> reg sk = Some (ssk_events s, ssk_cb s)"
    if va: "v = Some a" for a
  proof -
    obtain s where "evl_mem e a = Some s" "ssk_sk s = sk"
      using v(3) [OF va] dom by (force simp: dom_def)
    then show ?thesis using reg by blast
  qed
  ultimately show ?thesis
    using v(1,3) by (auto simp: find_select_sk_def Let_def)
qed

lemma evl_rep_registered: "evl_rep e t reg \<Longrightarrow> evl_registered e = reg"
proof
  fix sk assume "evl_rep e t reg"
  from evl_rep_find [OF this, of sk] show "evl_registered e sk = reg sk"
    by (auto simp: evl_registered_def split: option.split)
qed

lemma evl_repI:
  assumes "map_rep ssk_sk (evl_sockets e) (evl_mem e) t" "comp (evl_sockets e) = select_sk_comp"
    "dom (evl_mem e) = set_tree t" "\<And>a. a \<in> set_tree t \<Longrightarrow> a < heap_next e" "\<not> heap_full e"
    "\<And>sk m c. reg sk = Some (m, c) \<longleftrightarrow>
       (\<exists>a s. evl_mem e a = Some s \<and> ssk_sk s = sk \<and> ssk_events s = m \<and> ssk_cb s = c)"
    "\<And>sk. sk \<in> dom reg \<Longrightarrow> 0 \<le> sk \<and> sk < FD_SETSIZE \<and> sk < evl_nfds e"
    "evl_nfds e = 0 \<or> evl_nfds e - 1 \<in> dom reg"
    "fds_x e = dom reg"
    "fds_r e = wanting reg SK_EV_readable"
    "fds_w e = wanting reg SK_EV_writable"
  shows "evl_rep e t reg"
  unfolding evl_rep_def using assms by blast

lemma evl_rep_fresh: "evl_rep e t reg \<Longrightarrow> heap_next e \<notin> set_tree t"
  by (auto simp: evl_rep_def)

lemma evl_repE:
  assumes "evl_rep e t reg"
  obtains "map_rep ssk_sk (evl_sockets e) (evl_mem e) t" "comp (evl_sockets e) = select_sk_comp"
    "dom (evl_mem e) = set_tree t" "\<And>a. a \<in> set_tree t \<Longrightarrow> a < heap_next e" "\<not> heap_full e"
    "stores (evl_mem e) reg" "\<And>sk. sk \<in> dom reg \<Longrightarrow> 0 \<le> sk \<and> sk < FD_SETSIZE \<and> sk < evl_nfds e"
    "evl_nfds e = 0 \<or> evl_nfds e - 1 \<in> dom reg" "fds_x e = dom reg"
    "fds_r e = wanting reg SK_EV_readable" "fds_w e = wanting reg SK_EV_writable"
  using assms by (simp add: evl_rep_def)

lemma stores_same: "stores mem reg \<Longrightarrow> same_items mem mem' \<Longrightarrow> stores mem' reg"
  using same_items_ssk [of mem mem'] by simp

text \<open>A new item, an item with another mask, and an item less.\<close>

lemma stores_insert:
  assumes "stores mem reg" "mem a = None" "reg (ssk_sk i) = None"
  shows "stores (mem(a \<mapsto> i)) (reg(ssk_sk i \<mapsto> (ssk_events i, ssk_cb i)))"
proof (intro allI)
  fix k n d
  have "(\<exists>b s. (mem(a \<mapsto> i)) b = Some s \<and> ssk_sk s = k \<and> ssk_events s = n \<and> ssk_cb s = d) \<longleftrightarrow>
    (k = ssk_sk i \<and> n = ssk_events i \<and> d = ssk_cb i) \<or>
    (\<exists>b s. mem b = Some s \<and> ssk_sk s = k \<and> ssk_events s = n \<and> ssk_cb s = d)"
    using assms(2) by (auto split: if_splits) (metis option.distinct(1))+
  moreover have "reg k = Some (n, d) \<longleftrightarrow> (\<exists>b s. mem b = Some s \<and> ssk_sk s = k \<and> ssk_events s = n \<and> ssk_cb s = d)"
    using assms(1) by blast
  ultimately show "(reg(ssk_sk i \<mapsto> (ssk_events i, ssk_cb i))) k = Some (n, d) \<longleftrightarrow>
    (\<exists>b s. (mem(a \<mapsto> i)) b = Some s \<and> ssk_sk s = k \<and> ssk_events s = n \<and> ssk_cb s = d)"
    using assms(3) by (auto simp del: split_paired_Ex)
qed

lemma stores_update:
  assumes "stores mem reg" and a: "mem a = Some s"
    and only: "\<And>b s'. mem b = Some s' \<Longrightarrow> ssk_sk s' = ssk_sk s \<Longrightarrow> b = a"
  shows "stores (mem(a \<mapsto> s\<lparr>ssk_events := m\<rparr>)) (reg(ssk_sk s \<mapsto> (m, ssk_cb s)))"
proof (intro allI)
  fix k n d
  let ?has = "\<lambda>mem b s'. mem b = Some s' \<and> ssk_sk s' = k \<and> ssk_events s' = n \<and> ssk_cb s' = d"
  have reg: "reg k = Some (n, d) \<longleftrightarrow> (\<exists>b s'. ?has mem b s')" using assms(1) by blast
  show "(reg(ssk_sk s \<mapsto> (m, ssk_cb s))) k = Some (n, d) \<longleftrightarrow> (\<exists>b s'. ?has (mem(a \<mapsto> s\<lparr>ssk_events := m\<rparr>)) b s')"
  proof (cases "k = ssk_sk s")
    case True
    then have "?has (mem(a \<mapsto> s\<lparr>ssk_events := m\<rparr>)) b s' \<longleftrightarrow>
      b = a \<and> s' = s\<lparr>ssk_events := m\<rparr> \<and> n = m \<and> d = ssk_cb s" for b s'
      using only [of b s'] by auto
    then show ?thesis using True by (auto simp del: fun_upd_apply) auto
  next
    case False
    then have "?has (mem(a \<mapsto> s\<lparr>ssk_events := m\<rparr>)) b s' \<longleftrightarrow> ?has mem b s'" for b s'
      using a by auto
    then show ?thesis using False reg by simp
  qed
qed

lemma stores_delete:
  assumes "stores mem reg" and a: "mem a = Some s"
    and only: "\<And>b s'. mem b = Some s' \<Longrightarrow> ssk_sk s' = ssk_sk s \<Longrightarrow> b = a"
  shows "stores (mem(a := None)) (reg(ssk_sk s := None))"
proof (intro allI)
  fix k n d
  let ?has = "\<lambda>mem b s'. mem b = Some s' \<and> ssk_sk s' = k \<and> ssk_events s' = n \<and> ssk_cb s' = d"
  have reg: "reg k = Some (n, d) \<longleftrightarrow> (\<exists>b s'. ?has mem b s')" using assms(1) by blast
  have "?has (mem(a := None)) b s' \<longleftrightarrow> k \<noteq> ssk_sk s \<and> ?has mem b s'" for b s'
    using a only [of b s'] by auto
  then show "(reg(ssk_sk s := None)) k = Some (n, d) \<longleftrightarrow> (\<exists>b s'. ?has (mem(a := None)) b s')"
    using reg by simp
qed

lemma evl_rep_only:
  assumes "evl_rep e t reg" "evl_mem e a = Some s" "evl_mem e b = Some s'" "ssk_sk s' = ssk_sk s"
  shows "b = a"
  using sorted_inj [of "\<lambda>a. ssk_sk (the (evl_mem e a))" "inorder t" b a] assms
  by (auto simp: evl_rep_def map_rep_def)

lemma evl_add_law:
  assumes rep: "evl_rep e t reg" and sk: "0 \<le> sk" "sk < FD_SETSIZE" and new: "reg sk = None"
  shows "\<exists>e' t'. evl_select_add_socket sk m c e = Ok e' \<and> evl_rep e' t' (reg(sk \<mapsto> (m, c))) \<and>
    map_touched e' \<and> in_callback e' = in_callback e \<and> dead e' = dead e"
proof -
  let ?a = "heap_next e"
  let ?i = "(heap_garbage e ?a)\<lparr>ssk_sk := sk, ssk_events := m, ssk_cb := c\<rparr>"
  let ?mem = "(evl_mem e)(?a \<mapsto> ?i)"
  have fresh: "?a \<notin> set_tree t" by (rule evl_rep_fresh [OF rep])
  have map: "map_rep ssk_sk (evl_sockets e) ?mem t" "comp (evl_sockets e) = select_sk_comp"
    and room: "\<not> heap_full e" and item: "?mem ?a = Some ?i" and mem_a: "evl_mem e ?a = None"
    using rep fresh by (auto simp: evl_rep_def map_rep_outside [OF fresh])
  have diff: "ssk_sk (the (?mem a)) \<noteq> ssk_sk ?i" if a: "a \<in> set_tree t" for a
  proof -
    have "a \<in> dom (evl_mem e)" "stores (evl_mem e) reg" using a rep by (simp_all add: evl_rep_def)
    then obtain s where s: "evl_mem e a = Some s" "reg (ssk_sk s) = Some (ssk_events s, ssk_cb s)" by blast
    then show ?thesis using a fresh new by auto
  qed
  obtain head' mem' t' where add: "map_add_item evl_fuel (evl_sockets e) ?mem ?a = Ok (None, head', mem')"
    "map_rep ssk_sk head' mem' t'" "comp head' = select_sk_comp" "set_tree t' = insert ?a (set_tree t)"
    "same_items ?mem mem'"
    by (rule sel.map_add_law [OF map evl_rep_height(1) [OF rep] item fresh]) (erule diff, rule that)
  let ?e = "e\<lparr>heap_next := Suc ?a, evl_mem := mem', evl_sockets := head',
    fds_r := (if has m SK_EV_readable then insert sk (fds_r e) else fds_r e),
    fds_w := (if has m SK_EV_writable then insert sk (fds_w e) else fds_w e),
    fds_x := insert sk (fds_x e),
    evl_nfds := (if sk \<ge> evl_nfds e then sk + 1 else evl_nfds e), map_touched := True\<rparr>"
  have run: "evl_select_add_socket sk m c e = Ok ?e"
    using room add(1) sk
    by (auto simp: evl_select_add_socket_def alloc_select_sk_def Let_def FD_SET_def c_assert_def)
  have "stores ?mem (reg(sk \<mapsto> (m, c)))"
    using stores_insert [where mem = "evl_mem e" and reg = reg and a = ?a and i = ?i] rep mem_a new by (simp add: evl_rep_def)
  then have regs: "stores mem' (reg(sk \<mapsto> (m, c)))" by (rule stores_same) (rule add(5))
  from rep have "evl_rep ?e t' (reg(sk \<mapsto> (m, c)))"
  proof (cases rule: evl_repE)
    case 1
    have "dom mem' = set_tree t'" using same_items_dom [OF add(5)] add(4) 1(3) by auto
    moreover have "0 \<le> k \<and> k < FD_SETSIZE \<and> k < evl_nfds ?e" if "k \<in> dom (reg(sk \<mapsto> (m, c)))" for k
      using 1(7) [of k] that sk by (cases "k = sk") auto
    moreover have "evl_nfds ?e = 0 \<or> evl_nfds ?e - 1 \<in> dom (reg(sk \<mapsto> (m, c)))" using 1(8) by auto
    moreover have "b < heap_next ?e" if "b \<in> set_tree t'" for b using that add(4) 1(4) [of b] by auto
    ultimately show ?thesis
      by (intro evl_repI) (use regs 1(5,9-11) add(2,3) in_wanting(1) [of reg sk, OF new] in simp_all)
  qed
  with run show ?thesis by fastforce
qed

lemma update_fds_Ok:
  assumes "0 \<le> sk" "sk < FD_SETSIZE" "had \<longleftrightarrow> sk \<in> s"
  shows "update_fds sk want had s = Ok (if want then insert sk s else s - {sk})"
  using assms by (auto simp: update_fds_def FD_SET_def FD_CLR_def)

lemma evl_mod_law:
  assumes rep: "evl_rep e t reg" and old: "reg sk = Some (m, c)"
  shows "\<exists>e'. evl_select_mod_socket sk m' e = Ok e' \<and> evl_rep e' t (reg(sk \<mapsto> (m', c))) \<and>
    map_touched e' = map_touched e \<and> in_callback e' = in_callback e \<and> dead e' = dead e"
proof -
  obtain a s where f: "find_select_sk e sk = Ok (Some a)" "a \<in> set_tree t" "evl_mem e a = Some s"
    "ssk_sk s = sk" "ssk_events s = m" "ssk_cb s = c"
    using evl_rep_find [OF rep, of sk] old by auto
  let ?s = "s\<lparr>ssk_events := m'\<rparr>"
  let ?e = "e\<lparr>fds_r := wanting (reg(sk \<mapsto> (m', c))) SK_EV_readable,
    fds_w := wanting (reg(sk \<mapsto> (m', c))) SK_EV_writable, evl_mem := (evl_mem e)(a \<mapsto> ?s)\<rparr>"
  from rep have "evl_select_mod_socket sk m' e = Ok ?e \<and> evl_rep ?e t (reg(sk \<mapsto> (m', c)))"
  proof (cases rule: evl_repE)
    case 1
    have sk: "0 \<le> sk" "sk < FD_SETSIZE" using 1(7) old by blast+
    have "map_rep ssk_sk (evl_sockets e) ((evl_mem e)(a \<mapsto> ?s)) t"
      using 1(1) map_rep_payload [of "evl_mem e" a s ?s ssk_sk "evl_sockets e" t] f(3) by simp
    moreover have "stores ((evl_mem e)(a \<mapsto> ?s)) (reg(sk \<mapsto> (m', c)))"
      using stores_update [OF 1(6) f(3) evl_rep_only [OF rep f(3)], where m = m'] f(4,6) by simp
    moreover have "dom (reg(sk \<mapsto> (m', c))) = dom reg" "dom ((evl_mem e)(a \<mapsto> ?s)) = set_tree t"
      using old f(2) 1(3) by auto
    ultimately have "evl_rep ?e t (reg(sk \<mapsto> (m', c)))"
      by (intro evl_repI) (use 1(2,4,5,7-9) in \<open>simp_all del: fun_upd_apply dom_fun_upd\<close>)
    moreover have "evl_select_mod_socket sk m' e = Ok ?e"
      using f 1(10,11) sk in_wanting(2) [of reg sk m c, OF old]
      by (simp add: evl_select_mod_socket_def update_fds_Ok)
    ultimately show ?thesis by blast
  qed
  then show ?thesis by fastforce
qed

text \<open>The walk that recalculates \<open>nfds\<close> ends with the largest descriptor.\<close>

lemma max_sk_loop_max:
  assumes "map_rep ssk_sk (evl_sockets e) (evl_mem e) t" "height t < evl_fuel"
    and dom: "\<And>a. a \<in> set_tree t \<Longrightarrow> \<exists>s. evl_mem e a = Some s \<and> 0 \<le> ssk_sk s \<and> ssk_sk s < sk"
    and "inorder t = xs @ ys" "length ys < n"
  shows "max_sk_loop n e sk (if xs = [] then None else Some (last xs))
      (if xs = [] then -1 else ssk_sk (the (evl_mem e (last xs)))) =
    Ok (if inorder t = [] then -1 else ssk_sk (the (evl_mem e (last (inorder t)))))"
  using assms(4,5)
proof (induction ys arbitrary: xs n)
  case Nil
  have tr: "tree_at (evl_mem e) None (root (evl_sockets e)) t"
    "sorted_wrt (<) (map (\<lambda>a. ssk_sk (the (evl_mem e a))) (inorder t))"
    using assms(1) by (simp_all add: map_rep_def)
  obtain m where n: "n = Suc m" using Nil.prems by (cases n) auto
  have "map_walk evl_fuel (evl_sockets e) (evl_mem e) (if xs = [] then None else Some (last xs)) = Ok None"
    using map_walk_first [OF tr(1) assms(2)] map_walk_next [OF tr(1) sorted_distinct [OF tr(2)] assms(2), of "butlast xs" "last xs" "[]"]
      Nil.prems by auto
  with n Nil.prems show ?case by simp
next
  case (Cons b ys)
  let ?k = "\<lambda>a. ssk_sk (the (evl_mem e a))"
  have tr: "tree_at (evl_mem e) None (root (evl_sockets e)) t" "sorted_wrt (<) (map ?k (inorder t))"
    using assms(1) by (simp_all add: map_rep_def)
  obtain m where n: "n = Suc m" "length ys < m" using Cons.prems by (cases n) auto
  have walk: "map_walk evl_fuel (evl_sockets e) (evl_mem e) (if xs = [] then None else Some (last xs)) = Ok (Some b)"
    using map_walk_first [OF tr(1) assms(2)] map_walk_next [OF tr(1) sorted_distinct [OF tr(2)] assms(2), of "butlast xs" "last xs" "b # ys"]
      Cons.prems by (cases xs rule: rev_cases) auto
  have "b \<in> set_tree t" using Cons.prems(1) by (simp flip: set_inorder)
  then obtain s where s: "evl_mem e b = Some s" "0 \<le> ssk_sk s" "ssk_sk s < sk" using dom by blast
  have up: "\<not> ssk_sk s < (if xs = [] then -1 else ?k (last xs))"
    using tr(2) Cons.prems(1) s by (cases xs rule: rev_cases) (auto simp: sorted_wrt_append)
  have end_here: "ys = []" if "ssk_sk s = sk - 1"
  proof (cases ys)
    case (Cons c zs)
    then have "c \<in> set_tree t" "?k b < ?k c"
      using Cons.prems(1) tr(2) by (auto simp: sorted_wrt_append simp flip: set_inorder)
    then show ?thesis using dom [of c] s that by auto
  qed
  show ?case
  proof (cases "ssk_sk s = sk - 1")
    case True
    then show ?thesis using n walk s up end_here Cons.prems(1) by simp
  next
    case False
    then show ?thesis
      using n walk s up Cons.IH [of "xs @ [b]" m] Cons.prems(1) by simp
  qed
qed

text \<open>What \<open>del_socket\<close> makes of \<open>nfds\<close>, for the items that are left.\<close>

definition nfds_after :: "select_sk map_mem \<Rightarrow> nat tree \<Rightarrow> int \<Rightarrow> int \<Rightarrow> int" where
  "nfds_after mem t sk nfds = (if nfds = sk + 1
     then (if inorder t = [] then -1 else ssk_sk (the (mem (last (inorder t))))) + 1 else nfds)"

lemma nfds_after_bounds:
  assumes map: "map_rep ssk_sk head mem t" and dom: "dom mem = set_tree t" and st: "stores mem (reg(sk := None))"
    and below: "\<And>k. k \<in> dom reg \<Longrightarrow> k < nfds" and nfds: "nfds = 0 \<or> nfds - 1 \<in> dom reg"
  shows "k \<in> dom (reg(sk := None)) \<Longrightarrow> k < nfds_after mem t sk nfds"
    and "nfds_after mem t sk nfds = 0 \<or> nfds_after mem t sk nfds - 1 \<in> dom (reg(sk := None))"
proof -
  assume k: "k \<in> dom (reg(sk := None))"
  then obtain m d where m: "(reg(sk := None)) k = Some (m, d)" by auto
  from st m obtain b s where b: "mem b = Some s" "ssk_sk s = k" by blast
  then have "b \<in> set_tree t" using dom by blast
  then have "k \<le> ssk_sk (the (mem (last (inorder t))))" "inorder t \<noteq> []"
    using sorted_last [of "\<lambda>x. ssk_sk (the (mem x))" "inorder t" b] map b
    by (auto simp: map_rep_def simp flip: set_inorder)
  moreover have "k < nfds" using k by (intro below) (auto split: if_splits)
  ultimately show "k < nfds_after mem t sk nfds" by (simp add: nfds_after_def)
next
  show "nfds_after mem t sk nfds = 0 \<or> nfds_after mem t sk nfds - 1 \<in> dom (reg(sk := None))"
  proof (cases "nfds = sk + 1 \<and> inorder t \<noteq> []")
    case True
    then have "last (inorder t) \<in> dom mem" using last_in_set [of "inorder t"] dom by simp
    then obtain s where s: "mem (last (inorder t)) = Some s" by blast
    with st have "ssk_sk s \<in> dom (reg(sk := None))" by blast
    then show ?thesis using True s by (simp add: nfds_after_def del: fun_upd_apply)
  next
    case False
    then show ?thesis using nfds by (auto simp: nfds_after_def)
  qed
qed

lemma max_sk_after:
  assumes map: "map_rep ssk_sk (evl_sockets e) (evl_mem e) t" and dom: "dom (evl_mem e) = set_tree t"
    and st: "stores (evl_mem e) (reg(sk := None))" and size: "card (set_tree t) \<le> 1024"
    and below: "\<And>k. k \<in> dom reg \<Longrightarrow> 0 \<le> k \<and> k \<le> sk"
  shows "max_sk_loop evl_fuel e sk None (-1) =
    Ok (if inorder t = [] then -1 else ssk_sk (the (evl_mem e (last (inorder t)))))"
proof -
  have "length (inorder t) = card (set_tree t)"
    using distinct_card [of "inorder t"] sorted_distinct map by (fastforce simp: map_rep_def)
  then have len: "height t < evl_fuel" "length (inorder t) < evl_fuel"
    using size height_le_size_tree [of t] by (simp_all add: evl_fuel_def)
  have "\<exists>s. evl_mem e b = Some s \<and> 0 \<le> ssk_sk s \<and> ssk_sk s < sk" if b: "b \<in> set_tree t" for b
  proof -
    obtain s where s: "evl_mem e b = Some s" using b dom by blast
    with st have "(reg(sk := None)) (ssk_sk s) = Some (ssk_events s, ssk_cb s)" by blast
    then have "ssk_sk s \<noteq> sk" "ssk_sk s \<in> dom reg" by (auto split: if_splits)
    with s below [of "ssk_sk s"] show ?thesis by auto
  qed
  then show ?thesis
    using max_sk_loop_max [of e t sk "[]" "inorder t" evl_fuel] map len by simp
qed

lemma evl_del_law:
  assumes rep: "evl_rep e t reg" and old: "reg sk = Some (m, c)" and ok: "evl_del_ok e sk"
  shows "\<exists>e' t'. evl_select_del_socket sk e = Ok e' \<and> evl_rep e' t' (reg(sk := None)) \<and>
    map_touched e' \<and> in_callback e' = in_callback e \<and> dead e' = dead e"
proof -
  obtain a s where f: "find_select_sk e sk = Ok (Some a)" "a \<in> set_tree t" "evl_mem e a = Some s"
    "ssk_sk s = sk" "ssk_events s = m" "ssk_cb s = c"
    using evl_rep_find [OF rep, of sk] old by auto
  have child: "mi_l s = None \<or> mi_r s = None" using ok f(1,3) by (simp add: evl_del_ok_def)
  from rep show ?thesis
  proof (cases rule: evl_repE)
    case 1
    have sk: "0 \<le> sk" "sk < FD_SETSIZE" using 1(7) old by blast+
    obtain head' mem' t' where del: "map_del evl_fuel (evl_sockets e) (evl_mem e) a = Ok (Some a, head', mem')"
      "map_rep ssk_sk head' mem' t'" "comp head' = select_sk_comp" "set_tree t' = set_tree t - {a}"
      "same_items (evl_mem e) mem'"
      by (rule sel.map_del_law [OF 1(1,2) evl_rep_height(1) [OF rep] f(3,2) child]) (rule that)
    let ?reg = "reg(sk := None)" and ?mem = "mem'(a := None)"
    let ?e1 = "e\<lparr>fds_r := wanting ?reg SK_EV_readable, fds_w := wanting ?reg SK_EV_writable,
      fds_x := dom ?reg, evl_sockets := head', evl_mem := ?mem\<rparr>"
    let ?e = "?e1\<lparr>evl_nfds := nfds_after ?mem t' sk (evl_nfds e), map_touched := True\<rparr>"
    have map: "map_rep ssk_sk head' ?mem t'" using del(2,4) by (simp add: map_rep_outside)
    have dom: "dom ?mem = set_tree t'" using same_items_dom [OF del(5)] del(4) 1(3) by auto
    have st: "stores ?mem ?reg"
      using stores_same [OF stores_delete [OF 1(6) f(3) evl_rep_only [OF rep f(3)]], where mem' = ?mem] del(5) f(4)
      by (simp add: same_items_def)
    have "card (set_tree t') \<le> card (set_tree t)" using del(4) by (simp add: card_mono)
    also have "\<dots> \<le> 1024" using card_length [of "inorder t"] evl_rep_height(2) [OF rep] by simp
    finally have card: "card (set_tree t') \<le> 1024" .
    have "max_sk_loop evl_fuel ?e1 sk None (-1) =
        Ok (if inorder t' = [] then -1 else ssk_sk (the (?mem (last (inorder t')))))" if n: "evl_nfds e = sk + 1"
    proof -
      have "0 \<le> k \<and> k \<le> sk" if "k \<in> dom reg" for k using 1(7) [OF that] n by simp
      with max_sk_after [of ?e1 t' reg sk] map dom st card show ?thesis
        by (simp del: fun_upd_apply max_sk_loop.simps)
    qed
    then have "evl_select_del_socket sk e = Ok ?e"
      using f(1,3,5) sk del(1) in_wanting(2) [of reg sk m c, OF old] 1(9-11)
      by (auto simp: evl_select_del_socket_def FD_CLR_def nfds_after_def Let_def simp del: max_sk_loop.simps)
    moreover have "k < nfds_after ?mem t' sk (evl_nfds e)" if "k \<in> dom ?reg" for k
      using nfds_after_bounds(1) [OF map dom st _ 1(8) that] 1(7) by blast
    moreover have "nfds_after ?mem t' sk (evl_nfds e) = 0 \<or> nfds_after ?mem t' sk (evl_nfds e) - 1 \<in> dom ?reg"
      using nfds_after_bounds(2) [OF map dom st _ 1(8)] 1(7) by blast
    moreover have "0 \<le> k \<and> k < FD_SETSIZE" if "k \<in> dom ?reg" for k using 1(7) [of k] that by (auto split: if_splits)
    ultimately have "evl_rep ?e t' ?reg"
      by (intro evl_repI) (use map dom st del(3,4) 1(4,5) in \<open>simp_all del: fun_upd_apply dom_fun_upd\<close>)
    with \<open>evl_select_del_socket sk e = Ok ?e\<close> show ?thesis by fastforce
  qed
qed

text \<open>The select() loop keeps the contract of an event loop.\<close>

interpretation evl: event_loop_contract
  evl_select_api evl_inv evl_registered evl_sk_valid evl_del_ok
proof (unfold_locales, goal_cases)
  case (1 e sk m c)
  then obtain t reg where rep: "evl_rep e t reg" by (auto simp: evl_inv_def)
  obtain e' t' where "evl_select_add_socket sk m c e = Ok e'" "evl_rep e' t' (reg(sk \<mapsto> (m, c)))"
    using evl_add_law [OF rep, of sk m c] 1 evl_rep_registered [OF rep]
    by (auto simp: evl_sk_valid_def)
  then show ?case
    using evl_rep_registered [OF rep] evl_rep_registered by (auto simp: evl_select_api_def evl_inv_def)
next
  case (2 e sk m c m')
  then obtain t reg where rep: "evl_rep e t reg" by (auto simp: evl_inv_def)
  obtain e' where "evl_select_mod_socket sk m' e = Ok e'" "evl_rep e' t (reg(sk \<mapsto> (m', c)))"
    using evl_mod_law [OF rep, of sk m c m'] 2 evl_rep_registered [OF rep] by auto
  then show ?case
    using evl_rep_registered [OF rep] evl_rep_registered by (auto simp: evl_select_api_def evl_inv_def)
next
  case (3 e sk m c)
  then obtain t reg where rep: "evl_rep e t reg" by (auto simp: evl_inv_def)
  obtain e' t' where "evl_select_del_socket sk e = Ok e'" "evl_rep e' t' (reg(sk := None))"
    using evl_del_law [OF rep, of sk m c] 3 evl_rep_registered [OF rep] by auto
  then show ?case
    using evl_rep_registered [OF rep] evl_rep_registered by (auto simp: evl_select_api_def evl_inv_def)
qed

lemma evl_new_inv: "evl_rep (new_event_loop_select jc jd g) Leaf Map.empty"
  by (simp add: evl_rep_def new_event_loop_select_def map_init_def map_rep_def)

end
