(* ===== verification/Bridge.thy ===== *)
theory Bridge
  imports Pipe
begin

unbundle bit_operations_syntax

text \<open>
  The bridge of \<open>io/src/io_bridge.c\<close>: two pipes, each relayed into the other.

  A direction is a pair of streams, the source and the destination; the functions take both
  and return them updated.  The two pipes may be of different kinds, so each stream comes with
  its own function pointers.  \<open>on_shutdown\<close> is the last thing the callback does: the model
  returns its argument, or \<open>None\<close> when it is not called.  The loop of \<open>br_bridge_relay\<close>
  takes a bound on its iterations, which is shown to be reached by no pipe with less work left.

  The invariant says that, in each direction, what was received is what was sent plus what the
  destination holds back, and that a FIN was passed on exactly when one was received.
\<close>

section \<open>The code\<close>

record 'p br_stream =
  st_pipe :: 'p
  st_pending :: "io_buffer option"
  recv_size :: nat
  st_tx :: u64
  st_rx :: u64
  st_congestions :: u64

text \<open>\<open>br_evl\<close> and \<open>br_hooked\<close> are whether \<open>br->evl\<close> and \<open>on_shutdown\<close> are set.\<close>

record ('p, 'q) br_bridge =
  br_evl :: bool
  br_hooked :: bool
  br_dead :: bool
  br_l :: "'p br_stream"
  br_r :: "'q br_stream"

definition br_stream_flush ::
  "('p, 'w) io_pipe \<Rightarrow> 'p br_stream \<Rightarrow> 'w \<Rightarrow> (int \<times> 'p br_stream \<times> 'w) res" where
  "br_stream_flush io dst w =
     (case st_pending dst of
        None \<Rightarrow> Stop Assertion_failed
      | Some buf \<Rightarrow>
          c_assert (writable (pipe_flags io (st_pipe dst)))
            (bind_res (pipe_send io (st_pipe dst) (buf_bytes buf) w) (\<lambda>(bytes, q, w).
              let dst = dst\<lparr>st_pipe := q\<rparr>;
                  dst = (if bytes < c_int (buf_size buf) \<or> \<not> writable (pipe_flags io q)
                         then dst\<lparr>st_congestions := st_congestions dst + 1\<rparr> else dst)
              in if bytes < 0 then
                   c_assert (\<not> writable (pipe_flags io q))
                     (Ok (if broken (pipe_flags io q) then -1 else 0, dst, w))
                 else
                   let dst = dst\<lparr>st_tx := st_tx dst + word_of_int bytes\<rparr>
                   in if bytes < c_int (buf_size buf) then
                        c_assert (\<not> writable (pipe_flags io q))
                          (Ok (0, dst\<lparr>st_pending := Some (buf_consume (nat bytes) buf)\<rparr>, w))
                      else Ok (0, dst\<lparr>st_pending := None\<rparr>, w))))"

text \<open>The sending half of \<open>br_bridge_rx_tx\<close>, with the bytes just received in \<open>buf\<close>.\<close>

definition br_bridge_tx ::
  "('q, 'w) io_pipe \<Rightarrow> 'q br_stream \<Rightarrow> io_buffer \<Rightarrow> 'w \<Rightarrow>
   (int \<times> 'q br_stream \<times> io_buffer option \<times> 'w) res" where
  "br_bridge_tx dio dst buf w =
     bind_res (pipe_send dio (st_pipe dst) (take (buf_size buf) (buf_data buf)) w) (\<lambda>(bytes, q, w).
       let dst = dst\<lparr>st_pipe := q\<rparr>;
           dst = (if bytes < c_int (buf_size buf) \<or> \<not> writable (pipe_flags dio q)
                  then dst\<lparr>st_congestions := st_congestions dst + 1\<rparr> else dst);
           dst = (if 0 < bytes then dst\<lparr>st_tx := st_tx dst + word_of_int bytes\<rparr> else dst)
       in if c_size bytes = buf_size buf then Ok (0, dst, Some buf, w)
          else if bytes < 0 \<and> broken (pipe_flags dio q) then Ok (-1, dst, Some buf, w)
          else let bytes = (if bytes < 0 then 0 else bytes) in
            c_assert (bytes < c_int (buf_size buf)) (c_assert (\<not> writable (pipe_flags dio q))
              (Ok (0, dst\<lparr>st_pending := Some (buf_consume (nat bytes) buf)\<rparr>, None, w))))"

definition br_bridge_rx_tx ::
  "('p, 'w) io_pipe \<Rightarrow> ('q, 'w) io_pipe \<Rightarrow> 'p br_stream \<Rightarrow> 'q br_stream \<Rightarrow> io_buffer option \<Rightarrow> 'w \<Rightarrow>
   (int \<times> 'p br_stream \<times> 'q br_stream \<times> io_buffer option \<times> 'w) res" where
  "br_bridge_rx_tx sio dio src dst space w =
     c_assert (readable (pipe_flags sio (st_pipe src)) \<and> writable (pipe_flags dio (st_pipe dst)))
     (c_assert (st_pending dst = None)
     (case space of
        None \<Rightarrow> Stop Assertion_failed
      | Some buf \<Rightarrow>
          c_assert (recv_size src \<le> capacity buf)
            (bind_res (pipe_recv sio (st_pipe src) (recv_size src) w) (\<lambda>(bytes, bs, p, w).
              let src = src\<lparr>st_pipe := p\<rparr>;
                  buf = buf\<lparr>buf_data := bs @ drop (length bs) (buf_data buf)\<rparr>
              in if bytes < 0 then
                   Ok (if broken (pipe_flags sio p) then -1 else 0, src, dst, Some buf, w)
                 else if bytes = 0 then
                   c_assert (fin_rcvd (pipe_flags sio p))
                   (c_assert (\<not> fin_sent (pipe_flags dio (st_pipe dst)))
                     (bind_res (pipe_send_fin dio (st_pipe dst) w) (\<lambda>(r, q, w).
                       Ok (if r < 0 \<and> broken (pipe_flags dio q) then -1 else 0,
                           src, dst\<lparr>st_pipe := q\<rparr>, Some buf, w))))
                 else
                   bind_res (br_bridge_tx dio dst (buf\<lparr>buf_size := nat bytes\<rparr>) w)
                     (\<lambda>(r, dst, space, w).
                       Ok (r, src\<lparr>st_rx := st_rx src + word_of_int bytes\<rparr>, dst, space, w))))))"

fun br_relay_loop ::
  "nat \<Rightarrow> ('p, 'w) io_pipe \<Rightarrow> ('q, 'w) io_pipe \<Rightarrow> 'p br_stream \<Rightarrow> 'q br_stream \<Rightarrow> io_buffer option \<Rightarrow>
   'w \<Rightarrow> (int \<times> 'p br_stream \<times> 'q br_stream \<times> 'w) res" where
  "br_relay_loop 0 sio dio src dst buf w = Stop Out_of_fuel"
| "br_relay_loop (Suc n) sio dio src dst buf w =
     (if readable (pipe_flags sio (st_pipe src)) \<and> writable (pipe_flags dio (st_pipe dst))
      then bind_res (br_bridge_rx_tx sio dio src dst buf w) (\<lambda>(r, src, dst, buf, w).
        if r < 0 then Ok (-1, src, dst, w)
        else c_assert (buf \<noteq> None \<or> \<not> writable (pipe_flags dio (st_pipe dst)))
          (br_relay_loop n sio dio src dst buf w))
      else Ok (0, src, dst, w))"

definition br_bridge_relay ::
  "nat \<Rightarrow> ('p, 'w) io_pipe \<Rightarrow> ('q, 'w) io_pipe \<Rightarrow> 'p br_stream \<Rightarrow> 'q br_stream \<Rightarrow> 'w \<Rightarrow>
   (int \<times> 'p br_stream \<times> 'q br_stream \<times> 'w) res" where
  "br_bridge_relay n sio dio src dst w =
     (let size = (if recv_size dst < recv_size src then recv_size src else recv_size dst) in
      bind_res (alloc_io_buffer size None 0) (\<lambda>buf. br_relay_loop n sio dio src dst (Some buf) w))"

text \<open>
  The callback.  The three blocks run one after the other until one fails, which is the jump to
  \<open>err\<close>: \<open>br_step\<close> runs a block unless an earlier one failed.
\<close>

definition br_on_writable ::
  "nat \<Rightarrow> ('p, 'w) io_pipe \<Rightarrow> ('q, 'w) io_pipe \<Rightarrow> 'p br_stream \<Rightarrow> 'q br_stream \<Rightarrow> 'w \<Rightarrow>
   (int \<times> 'p br_stream \<times> 'q br_stream \<times> 'w) res" where
  "br_on_writable n io pio self peer w =
     c_assert (writable (pipe_flags io (st_pipe self)))
       (bind_res
         (if st_pending self \<noteq> None then br_stream_flush io self w else Ok (0, self, w))
         (\<lambda>(r, self, w).
           if r < 0 then Ok (-1, self, peer, w)
           else if writable (pipe_flags io (st_pipe self)) then
             bind_res (br_bridge_relay n pio io peer self w)
               (\<lambda>(r, peer, self, w). Ok (if r < 0 then -1 else 0, self, peer, w))
           else Ok (0, self, peer, w)))"

definition br_on_readable ::
  "nat \<Rightarrow> ('p, 'w) io_pipe \<Rightarrow> ('q, 'w) io_pipe \<Rightarrow> 'p br_stream \<Rightarrow> 'q br_stream \<Rightarrow> 'w \<Rightarrow>
   (int \<times> 'p br_stream \<times> 'q br_stream \<times> 'w) res" where
  "br_on_readable n io pio self peer w =
     (if writable (pipe_flags pio (st_pipe peer)) then br_bridge_relay n io pio self peer w
      else Ok (0, self, peer, w))"

definition br_step ::
  "bool \<Rightarrow> ('p br_stream \<Rightarrow> 'q br_stream \<Rightarrow> 'w \<Rightarrow> (int \<times> 'p br_stream \<times> 'q br_stream \<times> 'w) res) \<Rightarrow>
   (int \<times> 'p br_stream \<times> 'q br_stream \<times> 'w) \<Rightarrow> (int \<times> 'p br_stream \<times> 'q br_stream \<times> 'w) res" where
  "br_step go f s =
     (case s of (r, self, peer, w) \<Rightarrow> if r < 0 \<or> \<not> go then Ok s else f self peer w)"

definition br_stream_on_activity ::
  "nat \<Rightarrow> ('p, 'w) io_pipe \<Rightarrow> ('q, 'w) io_pipe \<Rightarrow> bool \<Rightarrow> 'p br_stream \<Rightarrow> 'q br_stream \<Rightarrow> uint \<Rightarrow> 'w \<Rightarrow>
   (bool option \<times> bool \<times> 'p br_stream \<times> 'q br_stream \<times> 'w) res" where
  "br_stream_on_activity n io pio dead self peer events w =
     (if dead then Ok (None, dead, self, peer, w)
      else
        bind_res (br_step (has events IO_EV_writable) (br_on_writable n io pio) (0, self, peer, w))
        (\<lambda>s. bind_res (br_step (has events IO_EV_readable) (br_on_readable n io pio) s)
        (\<lambda>(r, self, peer, w).
          if r < 0 \<or> has events IO_EV_broken then Ok (Some False, True, self, peer, w)
          else if fin_sent (pipe_flags pio (st_pipe peer)) \<and> fin_rcvd (pipe_flags pio (st_pipe peer))
          then Ok (Some True, True, self, peer, w)
          else Ok (None, False, self, peer, w))))"

text \<open>An event on the left or on the right pipe, through the pipe and the callback.\<close>

definition br_event_l ::
  "nat \<Rightarrow> ('p, 'w) io_pipe \<Rightarrow> ('q, 'w) io_pipe \<Rightarrow> ('p, 'q) br_bridge \<Rightarrow> uint \<Rightarrow> 'w \<Rightarrow>
   (bool option \<times> ('p, 'q) br_bridge \<times> 'w) res" where
  "br_event_l n lio rio br ev w =
     bind_res (pipe_event lio (st_pipe (br_l br)) ev w) (\<lambda>(up, p, w).
       let self = (br_l br)\<lparr>st_pipe := p\<rparr> in
       case up of
         None \<Rightarrow> Ok (None, br\<lparr>br_l := self\<rparr>, w)
       | Some events \<Rightarrow>
           bind_res (br_stream_on_activity n lio rio (br_dead br) self (br_r br) events w)
             (\<lambda>(shut, dead, l, r, w). Ok (shut, br\<lparr>br_dead := dead, br_l := l, br_r := r\<rparr>, w)))"

definition br_event_r ::
  "nat \<Rightarrow> ('p, 'w) io_pipe \<Rightarrow> ('q, 'w) io_pipe \<Rightarrow> ('p, 'q) br_bridge \<Rightarrow> uint \<Rightarrow> 'w \<Rightarrow>
   (bool option \<times> ('p, 'q) br_bridge \<times> 'w) res" where
  "br_event_r n lio rio br ev w =
     bind_res (pipe_event rio (st_pipe (br_r br)) ev w) (\<lambda>(up, p, w).
       let self = (br_r br)\<lparr>st_pipe := p\<rparr> in
       case up of
         None \<Rightarrow> Ok (None, br\<lparr>br_r := self\<rparr>, w)
       | Some events \<Rightarrow>
           bind_res (br_stream_on_activity n rio lio (br_dead br) self (br_l br) events w)
             (\<lambda>(shut, dead, r, l, w). Ok (shut, br\<lparr>br_dead := dead, br_l := l, br_r := r\<rparr>, w)))"

definition br_bridge_init ::
  "('p, 'w) io_pipe \<Rightarrow> ('q, 'w) io_pipe \<Rightarrow> ('p, 'q) br_bridge \<Rightarrow> 'w \<Rightarrow> (('p, 'q) br_bridge \<times> 'w) res" where
  "br_bridge_init lio rio br w =
     c_assert (\<not> br_evl br) (c_assert (br_hooked br)
       (bind_res (pipe_init lio (st_pipe (br_l br)) w) (\<lambda>(p, w).
        bind_res (pipe_init rio (st_pipe (br_r br)) w) (\<lambda>(q, w).
          Ok (br\<lparr>br_evl := True, br_l := (br_l br)\<lparr>st_pipe := p\<rparr>, br_r := (br_r br)\<lparr>st_pipe := q\<rparr>\<rparr>, w)))))"

definition br_stream_cleanup :: "('p, 'w) io_pipe \<Rightarrow> 'p br_stream \<Rightarrow> 'w \<Rightarrow> 'w res" where
  "br_stream_cleanup io st w = pipe_discard io (st_pipe st) w"

definition br_bridge_discard ::
  "('p, 'w) io_pipe \<Rightarrow> ('q, 'w) io_pipe \<Rightarrow> ('p, 'q) br_bridge \<Rightarrow> 'w \<Rightarrow> 'w res" where
  "br_bridge_discard lio rio br w =
     bind_res (br_stream_cleanup lio (br_l br) w) (br_stream_cleanup rio (br_r br))"

definition br_setup_stream :: "('p, 'w) io_pipe \<Rightarrow> 'p \<Rightarrow> 'p br_stream" where
  "br_setup_stream io p =
     \<lparr>st_pipe = pipe_hook io p, st_pending = None, recv_size = 1024 * 1024, st_tx = 0, st_rx = 0,
      st_congestions = 0\<rparr>"

text \<open>The user sets \<open>on_shutdown\<close> on the new bridge.\<close>

definition new_io_bridge :: "('p, 'w) io_pipe \<Rightarrow> ('q, 'w) io_pipe \<Rightarrow> 'p \<Rightarrow> 'q \<Rightarrow> ('p, 'q) br_bridge" where
  "new_io_bridge lio rio l r =
     \<lparr>br_evl = False, br_hooked = False, br_dead = False,
      br_l = br_setup_stream lio l, br_r = br_setup_stream rio r\<rparr>"

section \<open>The invariant\<close>

text \<open>
  One direction: the bytes received from the source, those sent to the destination, what the
  destination's stream holds back, and the two ends of the FIN.
\<close>

definition br_link ::
  "nat \<Rightarrow> byte list \<Rightarrow> byte list \<Rightarrow> io_buffer option \<Rightarrow> bool \<Rightarrow> bool \<Rightarrow> bool \<Rightarrow> bool" where
  "br_link lim rcv snt pend fin_in fin_out wr \<longleftrightarrow>
     rcv = snt @ pending_bytes pend \<and> (fin_in \<longleftrightarrow> fin_out) \<and>
     (case pend of
        None \<Rightarrow> True
      | Some b \<Rightarrow> wf_buf b \<and> 0 < buf_size b \<and> buf_size b \<le> lim \<and> \<not> wr \<and> \<not> fin_out)"

text \<open>
  What the bridge's theorems need to know of each of its pipes: its function pointers and the
  parameters of \<open>pipe_contract\<close>.
\<close>

record ('p, 'w, 'e) pipe_view =
  v_api :: "('p, 'w) io_pipe"
  v_inv :: "'p \<Rightarrow> 'w \<Rightarrow> bool"
  v_sent :: "'p \<Rightarrow> 'w \<Rightarrow> byte list"
  v_rcvd :: "'p \<Rightarrow> 'w \<Rightarrow> byte list"
  v_input :: "'p \<Rightarrow> 'w \<Rightarrow> byte list"
  v_fin :: "'p \<Rightarrow> bool"
  v_ep :: "'p \<Rightarrow> 'e"
  v_agree :: "'e \<Rightarrow> 'w \<Rightarrow> 'w \<Rightarrow> bool"
  v_ev :: "'p \<Rightarrow> uint \<Rightarrow> bool"
  v_work :: "'p \<Rightarrow> 'w \<Rightarrow> nat"
  v_min :: nat
  v_lim :: nat

text \<open>
  The invariant of one direction, with the two counters and the sizes of the reads, and that of
  the bridge.  Between events neither direction has data it could read and space to write it to.
\<close>

definition br_direction ::
  "('p, 'w, 'e) pipe_view \<Rightarrow> ('q, 'w, 'e) pipe_view \<Rightarrow> 'p br_stream \<Rightarrow> 'q br_stream \<Rightarrow> 'w \<Rightarrow> bool" where
  "br_direction V U s d w \<longleftrightarrow>
     br_link (v_lim U) (v_rcvd V (st_pipe s) w) (v_sent U (st_pipe d) w) (st_pending d)
       (fin_rcvd (pipe_flags (v_api V) (st_pipe s))) (v_fin U (st_pipe d))
       (writable (pipe_flags (v_api U) (st_pipe d))) \<and>
     st_rx s = word_of_nat (length (v_rcvd V (st_pipe s) w)) \<and>
     st_tx d = word_of_nat (length (v_sent U (st_pipe d) w)) \<and>
     v_min V \<le> recv_size s \<and> recv_size s \<le> v_lim V \<and> recv_size s \<le> v_lim U \<and>
     \<not> (readable (pipe_flags (v_api V) (st_pipe s)) \<and> writable (pipe_flags (v_api U) (st_pipe d)))"

definition br_inv ::
  "('p, 'w, 'e) pipe_view \<Rightarrow> ('q, 'w, 'e) pipe_view \<Rightarrow> ('p, 'q) br_bridge \<Rightarrow> 'w \<Rightarrow> bool" where
  "br_inv V U br w \<longleftrightarrow>
     \<not> br_dead br \<and> v_inv V (st_pipe (br_l br)) w \<and> v_inv U (st_pipe (br_r br)) w \<and>
     v_ep V (st_pipe (br_l br)) \<noteq> v_ep U (st_pipe (br_r br)) \<and>
     br_direction V U (br_l br) (br_r br) w \<and> br_direction U V (br_r br) (br_l br) w"

text \<open>What the two sides have been sent is a prefix of what the other side delivered.\<close>

definition br_prefixes ::
  "('p, 'w, 'e) pipe_view \<Rightarrow> ('q, 'w, 'e) pipe_view \<Rightarrow> ('p, 'q) br_bridge \<Rightarrow> 'w \<Rightarrow> bool" where
  "br_prefixes V U br w \<longleftrightarrow>
     (\<exists>lost. v_rcvd V (st_pipe (br_l br)) w = v_sent U (st_pipe (br_r br)) w @ lost) \<and>
     (\<exists>lost. v_rcvd U (st_pipe (br_r br)) w = v_sent V (st_pipe (br_l br)) w @ lost)"

text \<open>Both peers have sent all they had, and it has all been passed on.\<close>

definition br_complete ::
  "('p, 'w, 'e) pipe_view \<Rightarrow> ('q, 'w, 'e) pipe_view \<Rightarrow> ('p, 'q) br_bridge \<Rightarrow> 'w \<Rightarrow> bool" where
  "br_complete V U br w \<longleftrightarrow>
     v_rcvd V (st_pipe (br_l br)) w = v_sent U (st_pipe (br_r br)) w \<and>
     v_rcvd U (st_pipe (br_r br)) w = v_sent V (st_pipe (br_l br)) w \<and>
     fin_rcvd (pipe_flags (v_api V) (st_pipe (br_l br))) \<and> v_fin V (st_pipe (br_l br)) \<and>
     fin_rcvd (pipe_flags (v_api U) (st_pipe (br_r br))) \<and> v_fin U (st_pipe (br_r br))"

text \<open>What an event leaves alone: the streams of the two peers and all other endpoints.\<close>

definition br_kept ::
  "('p, 'w, 'e) pipe_view \<Rightarrow> ('q, 'w, 'e) pipe_view \<Rightarrow> ('p, 'q) br_bridge \<Rightarrow> 'w \<Rightarrow>
   ('p, 'q) br_bridge \<Rightarrow> 'w \<Rightarrow> bool" where
  "br_kept V U br w br' w' \<longleftrightarrow>
     v_input V (st_pipe (br_l br')) w' = v_input V (st_pipe (br_l br)) w \<and>
     v_input U (st_pipe (br_r br')) w' = v_input U (st_pipe (br_r br)) w \<and>
     v_ep V (st_pipe (br_l br')) = v_ep V (st_pipe (br_l br)) \<and>
     v_ep U (st_pipe (br_r br')) = v_ep U (st_pipe (br_r br)) \<and>
     (\<forall>e. e \<noteq> v_ep V (st_pipe (br_l br)) \<longrightarrow> e \<noteq> v_ep U (st_pipe (br_r br)) \<longrightarrow> v_agree V e w w')"

text \<open>The events of a bridge, and a number of iterations its loops never reach.\<close>

datatype br_side = Left_side | Right_side

definition br_event ::
  "nat \<Rightarrow> ('p, 'w) io_pipe \<Rightarrow> ('q, 'w) io_pipe \<Rightarrow> br_side \<Rightarrow> ('p, 'q) br_bridge \<Rightarrow> uint \<Rightarrow> 'w \<Rightarrow>
   (bool option \<times> ('p, 'q) br_bridge \<times> 'w) res" where
  "br_event n lio rio side br ev w =
     (case side of Left_side \<Rightarrow> br_event_l n lio rio br ev w | Right_side \<Rightarrow> br_event_r n lio rio br ev w)"

definition br_ev_ok ::
  "('p, 'w, 'e) pipe_view \<Rightarrow> ('q, 'w, 'e) pipe_view \<Rightarrow> br_side \<Rightarrow> ('p, 'q) br_bridge \<Rightarrow> uint \<Rightarrow> bool" where
  "br_ev_ok V U side br ev =
     (case side of
        Left_side \<Rightarrow> v_ev V (st_pipe (br_l br)) ev
      | Right_side \<Rightarrow> v_ev U (st_pipe (br_r br)) ev)"

definition br_fuel ::
  "('p, 'w, 'e) pipe_view \<Rightarrow> ('q, 'w, 'e) pipe_view \<Rightarrow> ('p, 'q) br_bridge \<Rightarrow> 'w \<Rightarrow> nat" where
  "br_fuel V U br w = v_work V (st_pipe (br_l br)) w + v_work U (st_pipe (br_r br)) w + 2"

text \<open>
  The states a bridge goes through: events on either pipe, in any order, interleaved with
  whatever the rest of the program does to other endpoints.
\<close>

inductive br_reach ::
  "('p, 'w, 'e) pipe_view \<Rightarrow> ('q, 'w, 'e) pipe_view \<Rightarrow> ('p, 'q) br_bridge \<Rightarrow> 'w \<Rightarrow>
   ('p, 'q) br_bridge \<Rightarrow> 'w \<Rightarrow> bool"
  for V U br0 w0 where
  start: "br_reach V U br0 w0 br0 w0"
| event: "br_reach V U br0 w0 br w \<Longrightarrow> br_ev_ok V U side br ev \<Longrightarrow>
    br_event (br_fuel V U br w) (v_api V) (v_api U) side br ev w = Ok (None, br', w') \<Longrightarrow>
    br_reach V U br0 w0 br' w'"
| other: "br_reach V U br0 w0 br w \<Longrightarrow> v_agree V (v_ep V (st_pipe (br_l br))) w w' \<Longrightarrow>
    v_agree U (v_ep U (st_pipe (br_r br))) w w' \<Longrightarrow> br_reach V U br0 w0 br w'"

text \<open>A bridge seen from the other side.\<close>

definition mirror :: "('p, 'q) br_bridge \<Rightarrow> ('q, 'p) br_bridge" where
  "mirror br = \<lparr>br_evl = br_evl br, br_hooked = br_hooked br, br_dead = br_dead br,
                br_l = br_r br, br_r = br_l br\<rparr>"

lemma mirror_sel [simp]:
  "mirror (mirror br) = br" "br_dead (mirror br) = br_dead br"
  "br_l (mirror br) = br_r br" "br_r (mirror br) = br_l br"
  by (simp_all add: mirror_def)

lemma event_mirror:
  "br_event_r n sio dio br ev w =
   bind_res (br_event_l n dio sio (mirror br) ev w) (\<lambda>(shut, br, w). Ok (shut, mirror br, w))"
  by (cases br) (auto simp: br_event_l_def br_event_r_def mirror_def bind_res_def Let_def
      split: sum.splits option.splits prod.splits)

section \<open>One direction\<close>

lemma counter_add:
  "0 \<le> r \<Longrightarrow> (word_of_nat (a + nat r) :: u64) = word_of_nat a + word_of_int r"
  by (cases r) auto

lemma counter_take:
  assumes "0 \<le> r" "r \<le> int (length bs)"
  shows "(word_of_nat (length (xs @ take (nat r) bs)) :: u64) = word_of_nat (length xs) + word_of_int r"
proof -
  have "length (xs @ take (nat r) bs) = length xs + nat r" using assms by simp
  with counter_add [OF assms(1)] show ?thesis by metis
qed

text \<open>Two pipes of one world with different endpoints, the first relayed into the second.\<close>

locale relay_pair =
  src: pipe_contract sapi sinv ssent srcvd sinput sfin sep agree sev swork smin slim +
  dst: pipe_contract dapi dinv dsent drcvd dinput dfin dep agree dev dwork dmin dlim
  for sapi :: "('p, 'w) io_pipe" and sinv ssent srcvd sinput sfin and sep :: "'p \<Rightarrow> 'e"
    and agree :: "'e \<Rightarrow> 'w \<Rightarrow> 'w \<Rightarrow> bool" and sev swork smin slim
    and dapi :: "('q, 'w) io_pipe" and dinv dsent drcvd dinput dfin and dep :: "'q \<Rightarrow> 'e"
    and dev dwork dmin dlim
begin

text \<open>The invariant of the two pipes, and of the direction from the source to the destination.\<close>

abbreviation ends_ok :: "'p br_stream \<Rightarrow> 'q br_stream \<Rightarrow> 'w \<Rightarrow> bool" where
  "ends_ok s d w \<equiv> sinv (st_pipe s) w \<and> dinv (st_pipe d) w \<and> sep (st_pipe s) \<noteq> dep (st_pipe d)"

abbreviation link_at :: "bool \<Rightarrow> 'p br_stream \<Rightarrow> 'q br_stream \<Rightarrow> 'w \<Rightarrow> bool" where
  "link_at wr s d w \<equiv>
     br_link dlim (srcvd (st_pipe s) w) (dsent (st_pipe d) w) (st_pending d)
       (fin_rcvd (pipe_flags sapi (st_pipe s))) (dfin (st_pipe d)) wr \<and>
     st_rx s = word_of_nat (length (srcvd (st_pipe s) w)) \<and>
     st_tx d = word_of_nat (length (dsent (st_pipe d) w)) \<and>
     smin \<le> recv_size s \<and> recv_size s \<le> slim \<and> recv_size s \<le> dlim"

abbreviation link_ok :: "'p br_stream \<Rightarrow> 'q br_stream \<Rightarrow> 'w \<Rightarrow> bool" where
  "link_ok s d w \<equiv> link_at (writable (pipe_flags dapi (st_pipe d))) s d w"

text \<open>What a direction leaves alone, and what it has left when it fails.\<close>

abbreviation unmoved :: "'p br_stream \<Rightarrow> 'q br_stream \<Rightarrow> 'w \<Rightarrow> 'p br_stream \<Rightarrow> 'q br_stream \<Rightarrow> 'w \<Rightarrow> bool" where
  "unmoved s d w s' d' w' \<equiv>
     ssent (st_pipe s') w' = ssent (st_pipe s) w \<and> drcvd (st_pipe d') w' = drcvd (st_pipe d) w \<and>
     sinput (st_pipe s') w' = sinput (st_pipe s) w \<and> dinput (st_pipe d') w' = dinput (st_pipe d) w \<and>
     sep (st_pipe s') = sep (st_pipe s) \<and> dep (st_pipe d') = dep (st_pipe d) \<and>
     sfin (st_pipe s') = sfin (st_pipe s) \<and>
     st_pending s' = st_pending s \<and> recv_size s' = recv_size s \<and> recv_size d' = recv_size d \<and>
     st_tx s' = st_tx s \<and> st_rx d' = st_rx d \<and> dwork (st_pipe d') w' \<le> dwork (st_pipe d) w"

abbreviation failed :: "'p br_stream \<Rightarrow> 'q br_stream \<Rightarrow> 'w \<Rightarrow> bool" where
  "failed s d w \<equiv>
     (\<exists>lost. srcvd (st_pipe s) w = dsent (st_pipe d) w @ lost) \<and>
     (broken (pipe_flags sapi (st_pipe s)) \<or> broken (pipe_flags dapi (st_pipe d)))"

text \<open>The source's other direction and the destination's other direction keep their state bits.\<close>

abbreviation bits_kept :: "'p br_stream \<Rightarrow> 'q br_stream \<Rightarrow> 'p br_stream \<Rightarrow> 'q br_stream \<Rightarrow> bool" where
  "bits_kept s d s' d' \<equiv>
     same_tx (pipe_flags sapi (st_pipe s)) (pipe_flags sapi (st_pipe s')) \<and>
     same_rx (pipe_flags dapi (st_pipe d)) (pipe_flags dapi (st_pipe d'))"

lemma link_no_pending:
  "link_ok s d w \<Longrightarrow> writable (pipe_flags dapi (st_pipe d)) \<Longrightarrow> st_pending d = None"
  by (auto simp: br_link_def split: option.splits)

text \<open>A write to the destination, of pending or of new bytes \<open>bs\<close>.\<close>

lemma send_step:
  assumes ends: "ends_ok s d w" and wr: "writable (pipe_flags dapi (st_pipe d))"
    and bs: "0 < length bs" "length bs \<le> dlim"
  obtains r q w' where "pipe_send dapi (st_pipe d) bs w = Ok (r, q, w')"
    "-1 \<le> r" "r \<le> int (length bs)" "r < int (length bs) \<Longrightarrow> \<not> writable (pipe_flags dapi q)"
    "0 \<le> r \<Longrightarrow> \<not> broken (pipe_flags dapi q)"
    "dsent q w' = dsent (st_pipe d) w @ take (nat r) bs" "drcvd q w' = drcvd (st_pipe d) w \<and> dinput q w' = dinput (st_pipe d) w"
    "dep q = dep (st_pipe d)" "dfin q = dfin (st_pipe d)" "\<not> dfin q"
    "srcvd (st_pipe s) w' = srcvd (st_pipe s) w" "ssent (st_pipe s) w' = ssent (st_pipe s) w \<and> sinput (st_pipe s) w' = sinput (st_pipe s) w"
    "swork (st_pipe s) w' = swork (st_pipe s) w"
    "\<And>e. e \<noteq> dep (st_pipe d) \<Longrightarrow> agree e w w'" "dwork q w' \<le> dwork (st_pipe d) w"
    "broken (pipe_flags dapi q) \<or> sinv (st_pipe s) w' \<and> dinv q w' \<and>
      same_rx (pipe_flags dapi (st_pipe d)) (pipe_flags dapi q)"
proof -
  obtain r q w' where c: "pipe_send dapi (st_pipe d) bs w = Ok (r, q, w')"
    "send_report (length bs) r (pipe_flags dapi q)"
    "dsent q w' = dsent (st_pipe d) w @ take (nat r) bs" "drcvd q w' = drcvd (st_pipe d) w \<and> dinput q w' = dinput (st_pipe d) w"
    "dep q = dep (st_pipe d)" "dfin q = dfin (st_pipe d)"
    "\<forall>e. e \<noteq> dep (st_pipe d) \<longrightarrow> agree e w w'" "dwork q w' \<le> dwork (st_pipe d) w"
    "broken (pipe_flags dapi q) \<or> dinv q w' \<and> same_rx (pipe_flags dapi (st_pipe d)) (pipe_flags dapi q)"
    using dst.send_law [OF _ wr bs] ends by blast
  have "agree (sep (st_pipe s)) w w'" using c(7) ends by blast
  with ends have own: "sinv (st_pipe s) w' \<and> ssent (st_pipe s) w' = ssent (st_pipe s) w \<and> sinput (st_pipe s) w' = sinput (st_pipe s) w \<and>
      srcvd (st_pipe s) w' = srcvd (st_pipe s) w \<and> swork (st_pipe s) w' = swork (st_pipe s) w"
    using src.own by blast
  have "\<not> dfin (st_pipe d)" using dst.fin_asked_not_writable ends wr by blast
  with c own show ?thesis
    by (intro that [of r q w']) (auto simp: send_report_def)
qed

text \<open>\<open>br_stream_flush\<close>, called when the writable bit has just been raised.\<close>

lemma flush_law:
  assumes ends: "ends_ok s d w" and link: "link_at False s d w" and pend: "st_pending d = Some b"
    and wr: "writable (pipe_flags dapi (st_pipe d))"
  obtains r d' w' where "br_stream_flush dapi d w = Ok (r, d', w')"
    "unmoved s d w s d' w'" "\<And>e. e \<noteq> dep (st_pipe d) \<Longrightarrow> agree e w w'"
    "r = -1 \<and> failed s d' w' \<or>
     r = 0 \<and> ends_ok s d' w' \<and> link_ok s d' w' \<and> bits_kept s d s d' \<and>
       swork (st_pipe s) w' = swork (st_pipe s) w"
proof -
  have b: "wf_buf b" "0 < buf_size b" "buf_size b \<le> dlim" "\<not> dfin (st_pipe d)"
    "srcvd (st_pipe s) w = dsent (st_pipe d) w @ buf_bytes b"
    using link pend by (simp_all add: br_link_def)
  have len: "length (buf_bytes b) = buf_size b" using b(1) by simp
  obtain r q w' where c: "pipe_send dapi (st_pipe d) (buf_bytes b) w = Ok (r, q, w')"
    "-1 \<le> r" "r \<le> int (length (buf_bytes b))"
    "r < int (length (buf_bytes b)) \<Longrightarrow> \<not> writable (pipe_flags dapi q)"
    "0 \<le> r \<Longrightarrow> \<not> broken (pipe_flags dapi q)"
    "dsent q w' = dsent (st_pipe d) w @ take (nat r) (buf_bytes b)" "drcvd q w' = drcvd (st_pipe d) w \<and> dinput q w' = dinput (st_pipe d) w"
    "dep q = dep (st_pipe d)" "dfin q = dfin (st_pipe d)" "\<not> dfin q"
    "srcvd (st_pipe s) w' = srcvd (st_pipe s) w" "ssent (st_pipe s) w' = ssent (st_pipe s) w \<and> sinput (st_pipe s) w' = sinput (st_pipe s) w"
    "swork (st_pipe s) w' = swork (st_pipe s) w"
    "\<And>e. e \<noteq> dep (st_pipe d) \<Longrightarrow> agree e w w'" "dwork q w' \<le> dwork (st_pipe d) w"
    "broken (pipe_flags dapi q) \<or> sinv (st_pipe s) w' \<and> dinv q w' \<and>
      same_rx (pipe_flags dapi (st_pipe d)) (pipe_flags dapi q)"
    by (rule send_step [OF ends wr, of "buf_bytes b"]) (use b len in simp_all)
  have small: "c_int (buf_size b) = int (buf_size b)"
    using b(3) dst.lim_small by (simp add: c_simps)
  let ?cong = "\<lambda>d :: 'q br_stream. if r < int (buf_size b) \<or> \<not> writable (pipe_flags dapi q)
    then d\<lparr>st_congestions := st_congestions d + 1\<rparr> else d"
  show thesis
  proof (cases "r < 0")
    case True
    then have r: "r = -1" "\<not> writable (pipe_flags dapi q)" using c(2,4) by auto
    have call: "br_stream_flush dapi d w =
      Ok (if broken (pipe_flags dapi q) then -1 else 0, ?cong (d\<lparr>st_pipe := q\<rparr>), w')"
      using pend wr c(1) r small by (simp add: br_stream_flush_def Let_def c_assert_def)
    show thesis
      by (rule that [OF call]) (use c b link pend ends r in \<open>auto simp: br_link_def same_tx_def\<close>)
  next
    case False
    let ?d = "(?cong (d\<lparr>st_pipe := q\<rparr>))\<lparr>st_tx := st_tx d + word_of_int r,
      st_pending := (if r < int (buf_size b) then Some (buf_consume (nat r) b) else None)\<rparr>"
    have call: "br_stream_flush dapi d w = Ok (0, ?d, w')"
      using pend wr c(1,4) False small len by (auto simp: br_stream_flush_def Let_def c_assert_def)
    have "link_ok s ?d w'"
      using link c(3,4,6,9-11) b False len pend counter_take [of r "buf_bytes b" "dsent (st_pipe d) w"]
      by (auto simp: br_link_def)
    then show thesis
      by (intro that [OF call]) (use c ends False in \<open>auto simp: same_tx_def\<close>)
  qed
qed

text \<open>A read from the source.\<close>

lemma recv_step:
  assumes ends: "ends_ok s d w" and rd: "readable (pipe_flags sapi (st_pipe s))"
    and n: "smin \<le> n" "n \<le> slim"
  obtains r bs p w' where "pipe_recv sapi (st_pipe s) n w = Ok (r, bs, p, w')"
    "recv_report n r bs (pipe_flags sapi (st_pipe s)) (pipe_flags sapi p)"
    "srcvd p w' = srcvd (st_pipe s) w @ bs" "ssent p w' = ssent (st_pipe s) w \<and> sinput p w' = sinput (st_pipe s) w"
    "sep p = sep (st_pipe s)" "sfin p = sfin (st_pipe s)" "swork p w' + length bs < swork (st_pipe s) w"
    "dsent (st_pipe d) w' = dsent (st_pipe d) w" "drcvd (st_pipe d) w' = drcvd (st_pipe d) w \<and> dinput (st_pipe d) w' = dinput (st_pipe d) w"
    "dinv (st_pipe d) w' \<and> dwork (st_pipe d) w' = dwork (st_pipe d) w" "\<And>e. e \<noteq> sep (st_pipe s) \<Longrightarrow> agree e w w'"
    "broken (pipe_flags sapi p) \<or> sinv p w' \<and> same_tx (pipe_flags sapi (st_pipe s)) (pipe_flags sapi p)"
proof -
  obtain r bs p w' where c: "pipe_recv sapi (st_pipe s) n w = Ok (r, bs, p, w')"
    "recv_report n r bs (pipe_flags sapi (st_pipe s)) (pipe_flags sapi p)"
    "srcvd p w' = srcvd (st_pipe s) w @ bs" "ssent p w' = ssent (st_pipe s) w \<and> sinput p w' = sinput (st_pipe s) w"
    "sep p = sep (st_pipe s)" "sfin p = sfin (st_pipe s)" "\<forall>e. e \<noteq> sep (st_pipe s) \<longrightarrow> agree e w w'"
    "swork p w' + length bs < swork (st_pipe s) w"
    "broken (pipe_flags sapi p) \<or> sinv p w' \<and> same_tx (pipe_flags sapi (st_pipe s)) (pipe_flags sapi p)"
    using src.recv_law [OF _ rd n] ends by blast
  have "agree (dep (st_pipe d)) w w'" using c(7) ends by metis
  with ends have own: "dinv (st_pipe d) w' \<and> dsent (st_pipe d) w' = dsent (st_pipe d) w \<and>
      drcvd (st_pipe d) w' = drcvd (st_pipe d) w \<and> dinput (st_pipe d) w' = dinput (st_pipe d) w \<and> dwork (st_pipe d) w' = dwork (st_pipe d) w"
    using dst.own by blast
  with c show ?thesis by (intro that [of r bs p w']) blast+
qed

text \<open>Passing a FIN on.\<close>

lemma fin_step:
  assumes ends: "ends_ok s d w" and wr: "writable (pipe_flags dapi (st_pipe d))"
  obtains r q w' where "pipe_send_fin dapi (st_pipe d) w = Ok (r, q, w')"
    "dsent q w' = dsent (st_pipe d) w" "drcvd q w' = drcvd (st_pipe d) w \<and> dinput q w' = dinput (st_pipe d) w" "dep q = dep (st_pipe d)"
    "srcvd (st_pipe s) w' = srcvd (st_pipe s) w" "ssent (st_pipe s) w' = ssent (st_pipe s) w \<and> sinput (st_pipe s) w' = sinput (st_pipe s) w"
    "swork (st_pipe s) w' = swork (st_pipe s) w"
    "\<And>e. e \<noteq> dep (st_pipe d) \<Longrightarrow> agree e w w'" "dwork q w' \<le> dwork (st_pipe d) w"
    "r < 0 \<and> broken (pipe_flags dapi q) \<or>
     0 \<le> r \<and> dfin q \<and> sinv (st_pipe s) w' \<and> dinv q w' \<and>
       same_rx (pipe_flags dapi (st_pipe d)) (pipe_flags dapi q)"
proof -
  have pre: "\<not> dfin (st_pipe d)" "ready (pipe_flags dapi (st_pipe d))"
    using dst.fin_asked_not_writable dst.flags [of "st_pipe d" w] ends wr by (auto simp: flags_ok_def)
  obtain r q w' where c: "pipe_send_fin dapi (st_pipe d) w = Ok (r, q, w')"
    "dsent q w' = dsent (st_pipe d) w" "drcvd q w' = drcvd (st_pipe d) w \<and> dinput q w' = dinput (st_pipe d) w" "dep q = dep (st_pipe d)"
    "\<forall>e. e \<noteq> dep (st_pipe d) \<longrightarrow> agree e w w'" "dwork q w' \<le> dwork (st_pipe d) w"
    "r < 0 \<and> broken (pipe_flags dapi q) \<or>
     0 \<le> r \<and> dfin q \<and> dinv q w' \<and> same_rx (pipe_flags dapi (st_pipe d)) (pipe_flags dapi q)"
    using dst.send_fin_law [OF _ pre] ends by blast
  have "agree (sep (st_pipe s)) w w'" using c(5) ends by blast
  with ends have own: "sinv (st_pipe s) w' \<and> ssent (st_pipe s) w' = ssent (st_pipe s) w \<and> sinput (st_pipe s) w' = sinput (st_pipe s) w \<and>
      srcvd (st_pipe s) w' = srcvd (st_pipe s) w \<and> swork (st_pipe s) w' = swork (st_pipe s) w"
    using src.own by blast
  with c show ?thesis by (intro that [of r q w']) blast+
qed

text \<open>
  \<open>br_bridge_tx\<close>: the bytes in the buffer have been received and counted for the source, but
  not sent yet.
\<close>

lemma tx_law:
  assumes ends: "ends_ok s d w" and wr: "writable (pipe_flags dapi (st_pipe d))"
    and pend: "st_pending d = None" and buf: "wf_buf b" "buf_head b = 0" "0 < buf_size b" "buf_size b \<le> dlim"
    and got: "srcvd (st_pipe s) w = dsent (st_pipe d) w @ take (buf_size b) (buf_data b)"
    and fin: "\<not> fin_rcvd (pipe_flags sapi (st_pipe s))"
    and count: "st_rx s = word_of_nat (length (srcvd (st_pipe s) w))"
      "st_tx d = word_of_nat (length (dsent (st_pipe d) w))"
      "smin \<le> recv_size s \<and> recv_size s \<le> slim \<and> recv_size s \<le> dlim"
  obtains r d' space w' where "br_bridge_tx dapi d b w = Ok (r, d', space, w')"
    "unmoved s d w s d' w'" "\<And>e. e \<noteq> dep (st_pipe d) \<Longrightarrow> agree e w w'"
    "r = -1 \<and> failed s d' w' \<or>
     r = 0 \<and> ends_ok s d' w' \<and> link_ok s d' w' \<and> bits_kept s d s d' \<and>
       swork (st_pipe s) w' = swork (st_pipe s) w \<and>
       (space = Some b \<or> space = None \<and> \<not> writable (pipe_flags dapi (st_pipe d')))"
proof -
  let ?bs = "take (buf_size b) (buf_data b)"
  have bytes: "buf_bytes b = ?bs" using buf(2) by (simp add: buf_bytes_def)
  have len: "length ?bs = buf_size b" using length_buf_bytes [OF buf(1)] bytes by simp
  obtain r q w' where c: "pipe_send dapi (st_pipe d) ?bs w = Ok (r, q, w')"
    "-1 \<le> r" "r \<le> int (length ?bs)" "r < int (length ?bs) \<Longrightarrow> \<not> writable (pipe_flags dapi q)"
    "0 \<le> r \<Longrightarrow> \<not> broken (pipe_flags dapi q)"
    "dsent q w' = dsent (st_pipe d) w @ take (nat r) ?bs" "drcvd q w' = drcvd (st_pipe d) w \<and> dinput q w' = dinput (st_pipe d) w"
    "dep q = dep (st_pipe d)" "dfin q = dfin (st_pipe d)" "\<not> dfin q"
    "srcvd (st_pipe s) w' = srcvd (st_pipe s) w" "ssent (st_pipe s) w' = ssent (st_pipe s) w \<and> sinput (st_pipe s) w' = sinput (st_pipe s) w"
    "swork (st_pipe s) w' = swork (st_pipe s) w"
    "\<And>e. e \<noteq> dep (st_pipe d) \<Longrightarrow> agree e w w'" "dwork q w' \<le> dwork (st_pipe d) w"
    "broken (pipe_flags dapi q) \<or> sinv (st_pipe s) w' \<and> dinv q w' \<and>
      same_rx (pipe_flags dapi (st_pipe d)) (pipe_flags dapi q)"
    by (rule send_step [OF ends wr, of ?bs]) (use buf(3,4) len in simp_all)
  have small: "c_int (buf_size b) = int (buf_size b)" "buf_size b < 2 ^ 31"
    using buf(4) dst.lim_small by (simp_all add: c_simps)
  have size_eq: "c_size r = buf_size b \<longleftrightarrow> r = int (buf_size b)"
    using c(2,3) len small(2) buf(3) by (cases "r = -1") (auto simp: c_simps)
  let ?cong = "\<lambda>d :: 'q br_stream. if r < int (buf_size b) \<or> \<not> writable (pipe_flags dapi q)
    then d\<lparr>st_congestions := st_congestions d + 1\<rparr> else d"
  let ?d = "?cong (d\<lparr>st_pipe := q\<rparr>)"
  note tail = counter_take [of r ?bs "dsent (st_pipe d) w"]
  consider (broken) "r = -1" "broken (pipe_flags dapi q)" | (kept) "r = -1" "\<not> broken (pipe_flags dapi q)"
    | (all) "r = int (buf_size b)" | (part) "0 \<le> r" "r < int (buf_size b)"
    using c(2,3) len by fastforce
  then show thesis
  proof cases
    case broken
    have "br_bridge_tx dapi d b w = Ok (-1, ?d, Some b, w')"
      using c(1) broken small size_eq by (simp add: br_bridge_tx_def Let_def)
    from that [OF this] show thesis using broken c pend got ends by auto
  next
    case kept
    have call: "br_bridge_tx dapi d b w = Ok (0, ?d\<lparr>st_pending := Some (buf_consume 0 b)\<rparr>, None, w')"
      using c(1,4) kept small size_eq buf(3) len by (simp add: br_bridge_tx_def Let_def c_assert_def)
    have link: "link_ok s (?d\<lparr>st_pending := Some (buf_consume 0 b)\<rparr>) w'"
      using c kept buf got fin count bytes by (auto simp: br_link_def)
    show thesis
      by (rule that [OF call]) (use link c kept ends in \<open>auto simp: same_tx_def\<close>)
  next
    case all
    have call: "br_bridge_tx dapi d b w = Ok (0, ?d\<lparr>st_tx := st_tx d + word_of_int r\<rparr>, Some b, w')"
      using c(1) all small size_eq buf(3) by (simp add: br_bridge_tx_def Let_def)
    have link: "link_ok s (?d\<lparr>st_tx := st_tx d + word_of_int r\<rparr>) w'"
      using c all got fin count pend len tail by (auto simp: br_link_def)
    show thesis
      by (rule that [OF call]) (use link c all ends in \<open>auto simp: same_tx_def\<close>)
  next
    case part
    let ?t = "(if 0 < r then ?d\<lparr>st_tx := st_tx d + word_of_int r\<rparr> else ?d)\<lparr>st_pending := Some (buf_consume (nat r) b)\<rparr>"
    have call: "br_bridge_tx dapi d b w = Ok (0, ?t, None, w')"
      using c(1,4) part small size_eq len by (auto simp: br_bridge_tx_def Let_def c_assert_def)
    have split: "?bs = take (nat r) (buf_data b) @ drop (nat r) ?bs"
      using append_take_drop_id [of "nat r" ?bs] part by (simp add: min_def nat_le_iff)
    have link: "link_ok s ?t w'"
      using c part buf got fin count bytes len tail split by (auto simp: br_link_def)
    show thesis
      by (rule that [OF call]) (use link c part ends len in \<open>auto simp: same_tx_def\<close>)
  qed
qed

abbreviation space_ok :: "'p br_stream \<Rightarrow> 'q br_stream \<Rightarrow> io_buffer option \<Rightarrow> bool" where
  "space_ok s d space \<equiv>
     (case space of None \<Rightarrow> \<not> writable (pipe_flags dapi (st_pipe d))
      | Some b \<Rightarrow> wf_buf b \<and> buf_head b = 0 \<and> recv_size s \<le> capacity b)"

abbreviation took :: "'p br_stream \<Rightarrow> 'q br_stream \<Rightarrow> 'w \<Rightarrow> byte list \<Rightarrow> 'p \<Rightarrow> 'w \<Rightarrow> bool" where
  "took s d w bs p w' \<equiv>
     srcvd p w' = srcvd (st_pipe s) w @ bs \<and>
     (ssent p w' = ssent (st_pipe s) w \<and> sinput p w' = sinput (st_pipe s) w) \<and>
     sep p = sep (st_pipe s) \<and> sfin p = sfin (st_pipe s) \<and> swork p w' + length bs < swork (st_pipe s) w \<and>
     dsent (st_pipe d) w' = dsent (st_pipe d) w \<and>
     (drcvd (st_pipe d) w' = drcvd (st_pipe d) w \<and> dinput (st_pipe d) w' = dinput (st_pipe d) w) \<and>
     (dinv (st_pipe d) w' \<and> dwork (st_pipe d) w' = dwork (st_pipe d) w) \<and>
     (\<forall>e. e \<noteq> sep (st_pipe s) \<longrightarrow> agree e w w')"

lemma link_even:
  assumes ends: "ends_ok s d w" and link: "link_ok s d w"
    and rd: "readable (pipe_flags sapi (st_pipe s))" and wr: "writable (pipe_flags dapi (st_pipe d))"
  shows "st_pending d = None" "srcvd (st_pipe s) w = dsent (st_pipe d) w" "\<not> dfin (st_pipe d)"
    "\<not> fin_sent (pipe_flags dapi (st_pipe d))" "\<not> fin_rcvd (pipe_flags sapi (st_pipe s))"
proof -
  show pend: "st_pending d = None" by (rule link_no_pending [OF link wr])
  show "srcvd (st_pipe s) w = dsent (st_pipe d) w" "\<not> dfin (st_pipe d)"
    "\<not> fin_sent (pipe_flags dapi (st_pipe d))" "\<not> fin_rcvd (pipe_flags sapi (st_pipe s))"
    using link pend ends wr rd dst.fin_asked_not_writable dst.flags src.flags
    by (fastforce simp: br_link_def flags_ok_def)+
qed

text \<open>A turn in which the source ends, and one in which it has data.\<close>

lemma rx_fin_law:
  assumes ends: "ends_ok s d w" and link: "link_ok s d w"
    and rd: "readable (pipe_flags sapi (st_pipe s))" and wr: "writable (pipe_flags dapi (st_pipe d))"
    and buf: "wf_buf b" "buf_head b = 0" "recv_size s \<le> capacity b"
    and call: "pipe_recv sapi (st_pipe s) (recv_size s) w = Ok (0, [], p, w1)" and took: "took s d w [] p w1"
    and fin: "\<not> broken (pipe_flags sapi p)" "fin_rcvd (pipe_flags sapi p)"
    and keep: "sinv p w1" "same_tx (pipe_flags sapi (st_pipe s)) (pipe_flags sapi p)"
  obtains r s' d' space w' where "br_bridge_rx_tx sapi dapi s d (Some b) w = Ok (r, s', d', space, w')"
    "unmoved s d w s' d' w'" "\<And>e. e \<noteq> sep (st_pipe s) \<Longrightarrow> e \<noteq> dep (st_pipe d) \<Longrightarrow> agree e w w'"
    "r = -1 \<and> failed s' d' w' \<or>
     r = 0 \<and> ends_ok s' d' w' \<and> link_ok s' d' w' \<and> bits_kept s d s' d' \<and>
       swork (st_pipe s') w' < swork (st_pipe s) w \<and> space_ok s' d' space"
proof -
  let ?s = "s\<lparr>st_pipe := p\<rparr>"
  note even = link_even [OF ends link rd wr]
  have ends1: "ends_ok ?s d w1" using took keep ends fin by simp
  obtain r2 q w2 where f: "pipe_send_fin dapi (st_pipe d) w1 = Ok (r2, q, w2)"
    "dsent q w2 = dsent (st_pipe d) w1" "drcvd q w2 = drcvd (st_pipe d) w1 \<and> dinput q w2 = dinput (st_pipe d) w1" "dep q = dep (st_pipe d)"
    "srcvd (st_pipe ?s) w2 = srcvd (st_pipe ?s) w1" "ssent (st_pipe ?s) w2 = ssent (st_pipe ?s) w1 \<and> sinput (st_pipe ?s) w2 = sinput (st_pipe ?s) w1"
    "swork (st_pipe ?s) w2 = swork (st_pipe ?s) w1"
    "\<And>e. e \<noteq> dep (st_pipe d) \<Longrightarrow> agree e w1 w2" "dwork q w2 \<le> dwork (st_pipe d) w1"
    "r2 < 0 \<and> broken (pipe_flags dapi q) \<or>
     0 \<le> r2 \<and> dfin q \<and> sinv (st_pipe ?s) w2 \<and> dinv q w2 \<and>
       same_rx (pipe_flags dapi (st_pipe d)) (pipe_flags dapi q)"
    by (rule fin_step [OF ends1 wr]) (rule that)
  have call: "br_bridge_rx_tx sapi dapi s d (Some b) w =
    Ok (if r2 < 0 \<and> broken (pipe_flags dapi q) then -1 else 0, ?s, d\<lparr>st_pipe := q\<rparr>, Some b, w2)"
    using rd wr buf call f(1) even fin(2) by (simp add: br_bridge_rx_tx_def c_assert_def Let_def)
  have ag: "agree e w w2" if "e \<noteq> sep (st_pipe s)" "e \<noteq> dep (st_pipe d)" for e
    using src.agree_trans [OF _ f(8)] took that by blast
  show thesis
    by (rule that [OF call _ ag])
      (use took keep f fin ends link even buf in \<open>auto simp: br_link_def\<close>)
qed

lemma rx_data_law:
  assumes ends: "ends_ok s d w" and link: "link_ok s d w"
    and rd: "readable (pipe_flags sapi (st_pipe s))" and wr: "writable (pipe_flags dapi (st_pipe d))"
    and buf: "wf_buf b" "buf_head b = 0" "recv_size s \<le> capacity b"
    and call: "pipe_recv sapi (st_pipe s) (recv_size s) w = Ok (int (length bs), bs, p, w1)" and took: "took s d w bs p w1"
    and data: "bs \<noteq> []" "length bs \<le> recv_size s" "\<not> broken (pipe_flags sapi p)"
      "fin_rcvd (pipe_flags sapi p) = fin_rcvd (pipe_flags sapi (st_pipe s))"
    and keep: "sinv p w1" "same_tx (pipe_flags sapi (st_pipe s)) (pipe_flags sapi p)"
  obtains r s' d' space w' where "br_bridge_rx_tx sapi dapi s d (Some b) w = Ok (r, s', d', space, w')"
    "unmoved s d w s' d' w'" "\<And>e. e \<noteq> sep (st_pipe s) \<Longrightarrow> e \<noteq> dep (st_pipe d) \<Longrightarrow> agree e w w'"
    "r = -1 \<and> failed s' d' w' \<or>
     r = 0 \<and> ends_ok s' d' w' \<and> link_ok s' d' w' \<and> bits_kept s d s' d' \<and>
       swork (st_pipe s') w' < swork (st_pipe s) w \<and> space_ok s' d' space"
proof -
  note even = link_even [OF ends link rd wr]
  let ?b1 = "b\<lparr>buf_data := bs @ drop (length bs) (buf_data b), buf_size := length bs\<rparr>"
    and ?s1 = "s\<lparr>st_pipe := p, st_rx := st_rx s + word_of_int (int (length bs))\<rparr>"
  have b1: "wf_buf ?b1" "buf_head ?b1 = 0" "0 < buf_size ?b1" "buf_size ?b1 \<le> dlim"
    "take (buf_size ?b1) (buf_data ?b1) = bs"
    using buf data link by (auto simp: wf_buf_def)
  have ends1: "ends_ok ?s1 d w1" using took keep data ends by simp
  have count: "st_rx ?s1 = word_of_nat (length (srcvd (st_pipe ?s1) w1))"
    using link took by simp
  have got: "srcvd (st_pipe ?s1) w1 = dsent (st_pipe d) w1 @ take (buf_size ?b1) (buf_data ?b1)"
    using took even b1(5) by simp
  have more: "\<not> fin_rcvd (pipe_flags sapi (st_pipe ?s1))"
    "st_tx d = word_of_nat (length (dsent (st_pipe d) w1))"
    "smin \<le> recv_size ?s1 \<and> recv_size ?s1 \<le> slim \<and> recv_size ?s1 \<le> dlim"
    using data even link took by simp_all
  obtain r2 d' space w2 where t: "br_bridge_tx dapi d ?b1 w1 = Ok (r2, d', space, w2)"
    "unmoved ?s1 d w1 ?s1 d' w2" "\<And>e. e \<noteq> dep (st_pipe d) \<Longrightarrow> agree e w1 w2"
    "r2 = -1 \<and> failed ?s1 d' w2 \<or>
     r2 = 0 \<and> ends_ok ?s1 d' w2 \<and> link_ok ?s1 d' w2 \<and> bits_kept ?s1 d ?s1 d' \<and>
       swork (st_pipe ?s1) w2 = swork (st_pipe ?s1) w1 \<and>
       (space = Some ?b1 \<or> space = None \<and> \<not> writable (pipe_flags dapi (st_pipe d')))"
    by (rule tx_law [OF ends1 wr even(1) b1(1-4) got more(1) count more(2,3)]) (rule that)
  have call: "br_bridge_rx_tx sapi dapi s d (Some b) w = Ok (r2, ?s1, d', space, w2)"
    using rd wr buf call data t(1) even(1) by (simp add: br_bridge_rx_tx_def c_assert_def Let_def)
  have ag: "agree e w w2" if "e \<noteq> sep (st_pipe s)" "e \<noteq> dep (st_pipe d)" for e
    using src.agree_trans [OF _ t(3)] took that by blast
  have unm: "unmoved s d w ?s1 d' w2" using took t(2) by simp
  have "wf_buf ?b1" "recv_size ?s1 \<le> capacity ?b1" using b1(1) buf(3) by simp_all
  then have final: "r2 = -1 \<and> failed ?s1 d' w2 \<or>
    r2 = 0 \<and> ends_ok ?s1 d' w2 \<and> link_ok ?s1 d' w2 \<and> bits_kept s d ?s1 d' \<and>
      swork (st_pipe ?s1) w2 < swork (st_pipe s) w \<and> space_ok ?s1 d' space"
    using t(4) took keep(2) b1(2) by (elim disjE conjE) simp_all
  show thesis by (rule that [OF call unm]) (rule ag, assumption+, rule final)
qed

lemma rx_tx_law:
  assumes ends: "ends_ok s d w" and link: "link_ok s d w"
    and rd: "readable (pipe_flags sapi (st_pipe s))" and wr: "writable (pipe_flags dapi (st_pipe d))"
    and buf: "wf_buf b" "buf_head b = 0" "recv_size s \<le> capacity b"
  obtains r s' d' space w' where "br_bridge_rx_tx sapi dapi s d (Some b) w = Ok (r, s', d', space, w')"
    "unmoved s d w s' d' w'" "\<And>e. e \<noteq> sep (st_pipe s) \<Longrightarrow> e \<noteq> dep (st_pipe d) \<Longrightarrow> agree e w w'"
    "r = -1 \<and> failed s' d' w' \<or>
     r = 0 \<and> ends_ok s' d' w' \<and> link_ok s' d' w' \<and> bits_kept s d s' d' \<and>
       swork (st_pipe s') w' < swork (st_pipe s) w \<and> space_ok s' d' space"
proof -
  note even = link_even [OF ends link rd wr]
  have size: "smin \<le> recv_size s" "recv_size s \<le> slim" using link by simp_all
  obtain r bs p w1 where call: "pipe_recv sapi (st_pipe s) (recv_size s) w = Ok (r, bs, p, w1)"
    and report: "recv_report (recv_size s) r bs (pipe_flags sapi (st_pipe s)) (pipe_flags sapi p)"
    and took: "took s d w bs p w1"
    and keep: "broken (pipe_flags sapi p) \<or> sinv p w1 \<and> same_tx (pipe_flags sapi (st_pipe s)) (pipe_flags sapi p)"
    by (rule recv_step [OF ends rd size]) (rule that; blast)
  consider (err) "r < 0" "bs = []" "fin_rcvd (pipe_flags sapi p) = fin_rcvd (pipe_flags sapi (st_pipe s))"
    | (fin) "r = 0" "bs = []" "\<not> broken (pipe_flags sapi p)" "fin_rcvd (pipe_flags sapi p)"
    | (data) "bs \<noteq> []" "r = int (length bs)" "length bs \<le> recv_size s" "\<not> broken (pipe_flags sapi p)"
        "fin_rcvd (pipe_flags sapi p) = fin_rcvd (pipe_flags sapi (st_pipe s))"
    using report by (auto simp: recv_report_def)
  then show thesis
  proof cases
    case err
    have out: "br_bridge_rx_tx sapi dapi s d (Some b) w =
      Ok (if broken (pipe_flags sapi p) then -1 else 0, s\<lparr>st_pipe := p\<rparr>, d, Some b, w1)"
      using rd wr buf call err even(1) by (simp add: br_bridge_rx_tx_def c_assert_def Let_def)
    show thesis
      by (rule that [OF out]) (use took keep err ends link even buf in \<open>auto simp: same_rx_def\<close>)
  next
    case fin
    then have c: "pipe_recv sapi (st_pipe s) (recv_size s) w = Ok (0, [], p, w1)" "took s d w [] p w1"
      "sinv p w1" "same_tx (pipe_flags sapi (st_pipe s)) (pipe_flags sapi p)"
      using call took keep by auto
    show thesis by (rule rx_fin_law [OF ends link rd wr buf c(1,2) fin(3,4) c(3,4)]) (rule that)
  next
    case data
    then have c: "pipe_recv sapi (st_pipe s) (recv_size s) w = Ok (int (length bs), bs, p, w1)"
      "sinv p w1" "same_tx (pipe_flags sapi (st_pipe s)) (pipe_flags sapi p)"
      using call keep by auto
    show thesis by (rule rx_data_law [OF ends link rd wr buf c(1) took data(1,3-5) c(2,3)]) (rule that)
  qed
qed

text \<open>What a block of the callback achieves for the direction it works on.\<close>

abbreviation moved :: "'p br_stream \<Rightarrow> 'q br_stream \<Rightarrow> 'w \<Rightarrow> int \<Rightarrow> 'p br_stream \<Rightarrow> 'q br_stream \<Rightarrow> 'w \<Rightarrow> bool" where
  "moved s d w r s' d' w' \<equiv>
     unmoved s d w s' d' w' \<and>
     (\<forall>e. e \<noteq> sep (st_pipe s) \<longrightarrow> e \<noteq> dep (st_pipe d) \<longrightarrow> agree e w w') \<and>
     (r = -1 \<and> failed s' d' w' \<or>
      r = 0 \<and> ends_ok s' d' w' \<and> link_ok s' d' w' \<and> bits_kept s d s' d' \<and>
        swork (st_pipe s') w' \<le> swork (st_pipe s) w)"

lemma same_trans:
  "same_tx f g \<Longrightarrow> same_tx g h \<Longrightarrow> same_tx f h" "same_rx f g \<Longrightarrow> same_rx g h \<Longrightarrow> same_rx f h"
  by (auto simp: same_tx_def same_rx_def)

lemma moved_refl:
  "ends_ok s d w \<Longrightarrow> link_ok s d w \<Longrightarrow> moved s d w 0 s d w"
  using src.agree_refl by (simp add: same_tx_def same_rx_def)

lemma moved_split:
  assumes "moved s d w r s' d' w'"
  obtains (fail) "r = -1" "failed s' d' w'"
    | (fine) "r = 0" "ends_ok s' d' w'" "link_ok s' d' w'" "bits_kept s d s' d'"
      "swork (st_pipe s') w' \<le> swork (st_pipe s) w"
  using assms by blast

lemma moved_trans:
  assumes first: "moved s d w 0 s1 d1 w1" and second: "moved s1 d1 w1 r s2 d2 w2"
  shows "moved s d w r s2 d2 w2"
proof -
  note u = conjunct1 [OF first] conjunct1 [OF second]
  note v = conjunct2 [OF first] conjunct2 [OF second]
  have "unmoved s d w s2 d2 w2" using u by simp
  moreover have "agree e w w2" if "e \<noteq> sep (st_pipe s)" "e \<noteq> dep (st_pipe d)" for e
  proof -
    have "agree e w w1" using conjunct1 [OF v(1)] that by blast
    moreover have "agree e w1 w2" using conjunct1 [OF v(2)] that u(1) by simp
    ultimately show ?thesis by (rule src.agree_trans)
  qed
  moreover have fine: "bits_kept s d s1 d1" "swork (st_pipe s1) w1 \<le> swork (st_pipe s) w"
    using conjunct2 [OF v(1)] by simp_all
  have "r = -1 \<and> failed s2 d2 w2 \<or>
    r = 0 \<and> ends_ok s2 d2 w2 \<and> link_ok s2 d2 w2 \<and> bits_kept s d s2 d2 \<and>
      swork (st_pipe s2) w2 \<le> swork (st_pipe s) w"
  proof -
    consider "r = -1 \<and> failed s2 d2 w2"
      | (ok) "r = 0" "ends_ok s2 d2 w2" "link_ok s2 d2 w2" "bits_kept s1 d1 s2 d2"
        "swork (st_pipe s2) w2 \<le> swork (st_pipe s1) w1"
      using conjunct2 [OF v(2)] by blast
    then show ?thesis
    proof cases
      case ok
      have "bits_kept s d s2 d2" using same_trans fine(1) ok(4) by blast
      with ok fine(2) le_trans show ?thesis by blast
    qed blast
  qed
  ultimately show ?thesis by blast
qed

lemma flush_moved:
  assumes "ends_ok s d w" "link_at False s d w" "st_pending d = Some b"
    and "writable (pipe_flags dapi (st_pipe d))"
  obtains r d' w' where "br_stream_flush dapi d w = Ok (r, d', w')" "moved s d w r s d' w'"
proof -
  obtain r d' w' where c: "br_stream_flush dapi d w = Ok (r, d', w')" "unmoved s d w s d' w'"
    "\<And>e. e \<noteq> dep (st_pipe d) \<Longrightarrow> agree e w w'"
    "r = -1 \<and> failed s d' w' \<or>
     r = 0 \<and> ends_ok s d' w' \<and> link_ok s d' w' \<and> bits_kept s d s d' \<and>
       swork (st_pipe s) w' = swork (st_pipe s) w"
    by (rule flush_law [OF assms]) (rule that)
  have "\<forall>e. e \<noteq> sep (st_pipe s) \<longrightarrow> e \<noteq> dep (st_pipe d) \<longrightarrow> agree e w w'" using c(3) by blast
  with c(2,4) have "moved s d w r s d' w'" using eq_imp_le by blast
  with c(1) show ?thesis by (rule that)
qed

text \<open>The loop ends: every turn uses up some of the work the source has left.\<close>

lemma relay_loop_law:
  "ends_ok s d w \<Longrightarrow> link_ok s d w \<Longrightarrow> space_ok s d space \<Longrightarrow> swork (st_pipe s) w < n \<Longrightarrow>
   \<exists>r s' d' w'. br_relay_loop n sapi dapi s d space w = Ok (r, s', d', w') \<and>
     moved s d w r s' d' w' \<and>
     (r = 0 \<longrightarrow> \<not> (readable (pipe_flags sapi (st_pipe s')) \<and> writable (pipe_flags dapi (st_pipe d'))))"
proof (induction n arbitrary: s d w space)
  case (Suc n)
  show ?case
  proof (cases "readable (pipe_flags sapi (st_pipe s)) \<and> writable (pipe_flags dapi (st_pipe d))")
    case False
    then show ?thesis using moved_refl [OF Suc.prems(1,2)] by auto
  next
    case True
    then obtain b where b: "space = Some b" "wf_buf b" "buf_head b = 0" "recv_size s \<le> capacity b"
      using Suc.prems(3) by (cases space) auto
    obtain r s1 d1 space1 w1 where t: "br_bridge_rx_tx sapi dapi s d (Some b) w = Ok (r, s1, d1, space1, w1)"
      "unmoved s d w s1 d1 w1" "\<And>e. e \<noteq> sep (st_pipe s) \<Longrightarrow> e \<noteq> dep (st_pipe d) \<Longrightarrow> agree e w w1"
      "r = -1 \<and> failed s1 d1 w1 \<or>
       r = 0 \<and> ends_ok s1 d1 w1 \<and> link_ok s1 d1 w1 \<and> bits_kept s d s1 d1 \<and>
         swork (st_pipe s1) w1 < swork (st_pipe s) w \<and> space_ok s1 d1 space1"
      by (rule rx_tx_law [OF Suc.prems(1,2) _ _ b(2-4)]) (use True in \<open>blast+\<close>)
    from t(4) show ?thesis
    proof
      assume "r = -1 \<and> failed s1 d1 w1"
      then show ?thesis using True b(1) t(1-3) by auto
    next
      assume ok: "r = 0 \<and> ends_ok s1 d1 w1 \<and> link_ok s1 d1 w1 \<and> bits_kept s d s1 d1 \<and>
         swork (st_pipe s1) w1 < swork (st_pipe s) w \<and> space_ok s1 d1 space1"
      then obtain r' s' d' w' where l: "br_relay_loop n sapi dapi s1 d1 space1 w1 = Ok (r', s', d', w')"
        "moved s1 d1 w1 r' s' d' w'"
        "r' = 0 \<longrightarrow> \<not> (readable (pipe_flags sapi (st_pipe s')) \<and> writable (pipe_flags dapi (st_pipe d')))"
        using Suc.IH [where s = s1 and d = d1 and w = w1 and space = space1] Suc.prems(4) by force
      have "moved s d w 0 s1 d1 w1" using t(2,3) ok by auto
      from moved_trans [OF this l(2)] l(1,3) show ?thesis
        using True b(1) t(1) ok by (auto simp: c_assert_def split: option.splits)
    qed
  qed
qed simp

lemma relay_law:
  assumes "ends_ok s d w" "link_ok s d w" "swork (st_pipe s) w < n"
  obtains r s' d' w' where "br_bridge_relay n sapi dapi s d w = Ok (r, s', d', w')"
    "moved s d w r s' d' w'"
    "r = 0 \<Longrightarrow> \<not> (readable (pipe_flags sapi (st_pipe s')) \<and> writable (pipe_flags dapi (st_pipe d')))"
proof -
  let ?size = "if recv_size d < recv_size s then recv_size s else recv_size d"
  let ?b = "\<lparr>capacity = ?size, buf_head = 0, buf_size = 0, buf_data = replicate ?size 0\<rparr>"
  have "space_ok s d (Some ?b)" by (simp add: wf_buf_def)
  from relay_loop_law [OF assms(1,2) this assms(3)] show ?thesis
    using that by (auto simp: br_bridge_relay_def alloc_io_buffer_None Let_def)
qed

end

section \<open>Both directions\<close>

text \<open>The pipe an event is for, \<open>s\<close>, and its peer, \<open>d\<close>, each relayed into the other.\<close>

locale bridge_pipes =
  out: relay_pair sapi sinv ssent srcvd sinput sfin sep agree sev swork smin slim
    dapi dinv dsent drcvd dinput dfin dep dev dwork dmin dlim +
  ret: relay_pair dapi dinv dsent drcvd dinput dfin dep agree dev dwork dmin dlim
    sapi sinv ssent srcvd sinput sfin sep sev swork smin slim
  for sapi :: "('p, 'w) io_pipe" and sinv ssent srcvd sinput sfin and sep :: "'p \<Rightarrow> 'e"
    and agree :: "'e \<Rightarrow> 'w \<Rightarrow> 'w \<Rightarrow> bool" and sev swork smin slim
    and dapi :: "('q, 'w) io_pipe" and dinv dsent drcvd dinput dfin and dep :: "'q \<Rightarrow> 'e"
    and dev dwork dmin dlim
begin

abbreviation both_ok :: "'p br_stream \<Rightarrow> 'q br_stream \<Rightarrow> 'w \<Rightarrow> bool" where
  "both_ok s d w \<equiv> out.ends_ok s d w \<and> out.link_ok s d w \<and> ret.link_ok d s w"

text \<open>On failure, each side has still been sent a prefix of what the other side delivered.\<close>

abbreviation prefixes :: "'p br_stream \<Rightarrow> 'q br_stream \<Rightarrow> 'w \<Rightarrow> bool" where
  "prefixes s d w \<equiv>
     (\<exists>lost. srcvd (st_pipe s) w = dsent (st_pipe d) w @ lost) \<and>
     (\<exists>lost. drcvd (st_pipe d) w = ssent (st_pipe s) w @ lost)"

lemma both_prefixes: "out.link_at wr s d w \<Longrightarrow> ret.link_at wr' d s w \<Longrightarrow> prefixes s d w"
  by (auto simp: br_link_def)

text \<open>No operation changes what the two peers send, or anything outside the two pipes.\<close>

abbreviation kept :: "'p br_stream \<Rightarrow> 'q br_stream \<Rightarrow> 'w \<Rightarrow> 'p br_stream \<Rightarrow> 'q br_stream \<Rightarrow> 'w \<Rightarrow> bool" where
  "kept s d w s' d' w' \<equiv>
     sinput (st_pipe s') w' = sinput (st_pipe s) w \<and> dinput (st_pipe d') w' = dinput (st_pipe d) w \<and>
     sep (st_pipe s') = sep (st_pipe s) \<and> dep (st_pipe d') = dep (st_pipe d) \<and>
     (\<forall>e. e \<noteq> sep (st_pipe s) \<longrightarrow> e \<noteq> dep (st_pipe d) \<longrightarrow> agree e w w')"

lemma kept_refl: "kept s d w s d w"
  using out.src.agree_refl by blast

lemma kept_trans:
  assumes "kept s d w s1 d1 w1" "kept s1 d1 w1 s2 d2 w2"
  shows "kept s d w s2 d2 w2"
proof -
  have "agree e w w2" if "e \<noteq> sep (st_pipe s)" "e \<noteq> dep (st_pipe d)" for e
  proof (rule out.src.agree_trans)
    show "agree e w w1" using assms(1) that by blast
    show "agree e w1 w2" using assms that by simp
  qed
  with assms show ?thesis by simp
qed

lemma moved_kept:
  "out.moved s d w r s' d' w' \<Longrightarrow> kept s d w s' d' w'"
  by blast

lemma kept_flip:
  "sinput (st_pipe s') w' = sinput (st_pipe s) w \<Longrightarrow> dinput (st_pipe d') w' = dinput (st_pipe d) w \<Longrightarrow>
   sep (st_pipe s') = sep (st_pipe s) \<Longrightarrow> dep (st_pipe d') = dep (st_pipe d) \<Longrightarrow>
   \<forall>e. e \<noteq> dep (st_pipe d) \<longrightarrow> e \<noteq> sep (st_pipe s) \<longrightarrow> agree e w w' \<Longrightarrow> kept s d w s' d' w'"
  by blast

text \<open>A direction is idle when nothing can be read, or nothing written.\<close>

abbreviation idle_out :: "'p br_stream \<Rightarrow> 'q br_stream \<Rightarrow> bool" where
  "idle_out s d \<equiv> \<not> (readable (pipe_flags sapi (st_pipe s)) \<and> writable (pipe_flags dapi (st_pipe d)))"

abbreviation idle_ret :: "'p br_stream \<Rightarrow> 'q br_stream \<Rightarrow> bool" where
  "idle_ret s d \<equiv> \<not> (readable (pipe_flags dapi (st_pipe d)) \<and> writable (pipe_flags sapi (st_pipe s)))"

lemma moved_bits:
  assumes "out.moved s d w r s' d' w'" "r = 0"
  shows "writable (pipe_flags sapi (st_pipe s')) = writable (pipe_flags sapi (st_pipe s))"
    "readable (pipe_flags dapi (st_pipe d')) = readable (pipe_flags dapi (st_pipe d))"
proof -
  have "out.bits_kept s d s' d'" by (cases rule: out.moved_split [OF assms(1)]) (use assms(2) in auto)
  then show "writable (pipe_flags sapi (st_pipe s')) = writable (pipe_flags sapi (st_pipe s))"
    "readable (pipe_flags dapi (st_pipe d')) = readable (pipe_flags dapi (st_pipe d))"
    by (simp_all add: same_tx_def same_rx_def)
qed

text \<open>Moving bytes in one direction leaves the other direction's link as it is.\<close>

lemma moved_keeps_other:
  assumes "out.moved s d w r s' d' w'" "ret.link_at wr d s w"
  shows "r = 0 \<Longrightarrow> ret.link_at wr d' s' w' \<and> writable (pipe_flags sapi (st_pipe s')) = writable (pipe_flags sapi (st_pipe s))"
    and "r = -1 \<Longrightarrow> prefixes s' d' w'"
proof -
  have u: "out.unmoved s d w s' d' w'" using assms(1) by blast
  show "ret.link_at wr d' s' w' \<and> writable (pipe_flags sapi (st_pipe s')) = writable (pipe_flags sapi (st_pipe s))"
    if "r = 0"
  proof -
    have "out.bits_kept s d s' d'" by (cases rule: out.moved_split [OF assms(1)]) (use that in auto)
    then have bits: "fin_rcvd (pipe_flags dapi (st_pipe d')) = fin_rcvd (pipe_flags dapi (st_pipe d))"
      "writable (pipe_flags sapi (st_pipe s')) = writable (pipe_flags sapi (st_pipe s))"
      by (simp_all add: same_tx_def same_rx_def)
    show ?thesis using assms(2) u bits by simp
  qed
  show "prefixes s' d' w'" if "r = -1"
  proof -
    have "out.failed s' d' w'" by (cases rule: out.moved_split [OF assms(1)]) (use that in auto)
    moreover have "\<exists>lost. drcvd (st_pipe d) w = ssent (st_pipe s) w @ lost"
      using assms(2) by (auto simp: br_link_def)
    ultimately show ?thesis using u by simp
  qed
qed

end

sublocale bridge_pipes \<subseteq> flip: bridge_pipes
  dapi dinv dsent drcvd dinput dfin dep agree dev dwork dmin dlim
  sapi sinv ssent srcvd sinput sfin sep sev swork smin slim
  by unfold_locales

context bridge_pipes begin

lemma on_readable_law:
  assumes ok: "both_ok s d w" and n: "swork (st_pipe s) w < n" and idle: "idle_ret s d"
  obtains r s' d' w' where "br_on_readable n sapi dapi s d w = Ok (r, s', d', w')"
    "kept s d w s' d' w'"
    "r = 0 \<and> both_ok s' d' w' \<and> idle_out s' d' \<and> idle_ret s' d' \<or> r = -1 \<and> prefixes s' d' w'"
proof (cases "writable (pipe_flags dapi (st_pipe d))")
  case False
  then show ?thesis
    using ok idle kept_refl by (intro that [of 0 s d w]) (simp_all add: br_on_readable_def)
next
  case True
  obtain r s' d' w' where c: "br_bridge_relay n sapi dapi s d w = Ok (r, s', d', w')"
    "out.moved s d w r s' d' w'" "r = 0 \<Longrightarrow> idle_out s' d'"
    by (rule out.relay_law [OF _ _ n]) (use ok in blast)+
  have link: "ret.link_at (writable (pipe_flags sapi (st_pipe s))) d s w" using ok by blast
  note keeps = moved_keeps_other [OF c(2) link]
  have res: "r = 0 \<and> both_ok s' d' w' \<and> idle_out s' d' \<and> idle_ret s' d' \<or> r = -1 \<and> prefixes s' d' w'"
    using c(2)
  proof (cases rule: out.moved_split)
    case fail
    with keeps(2) show ?thesis by blast
  next
    case fine
    then have "ret.link_ok d' s' w'" using keeps(1) by simp
    moreover have "idle_ret s' d'" using moved_bits [OF c(2) fine(1)] idle by simp
    ultimately show ?thesis using fine c(3) by blast
  qed
  have out: "br_on_readable n sapi dapi s d w = Ok (r, s', d', w')"
    using c(1) True by (simp add: br_on_readable_def)
  show ?thesis by (rule that [OF out moved_kept [OF c(2)] res])
qed

text \<open>
  The block for a writable pipe \<open>s\<close>, whose bit has just been raised: flush, then relay from
  the peer.
\<close>

lemma on_writable_law:
  assumes ends: "out.ends_ok s d w" and out: "out.link_ok s d w" and ret: "ret.link_at False d s w"
    and wr: "writable (pipe_flags sapi (st_pipe s))" and n: "dwork (st_pipe d) w < n"
  obtains r s' d' w' where "br_on_writable n sapi dapi s d w = Ok (r, s', d', w')"
    "kept s d w s' d' w'"
    "r = 0 \<and> both_ok s' d' w' \<and> swork (st_pipe s') w' \<le> swork (st_pipe s) w \<and> idle_ret s' d' \<and>
       readable (pipe_flags sapi (st_pipe s')) = readable (pipe_flags sapi (st_pipe s)) \<and>
       writable (pipe_flags dapi (st_pipe d')) = writable (pipe_flags dapi (st_pipe d)) \<or>
     r = -1 \<and> prefixes s' d' w'"
proof -
  have ends': "ret.ends_ok d s w" using ends by metis
  obtain r1 s1 w1 where f: "(if st_pending s \<noteq> None then br_stream_flush sapi s w else Ok (0, s, w)) = Ok (r1, s1, w1)"
    "ret.moved d s w r1 d s1 w1"
  proof (cases "st_pending s")
    case None
    then have "ret.link_ok d s w" using ret by (simp add: br_link_def)
    from ret.moved_refl [OF ends' this] None show ?thesis by (intro that [of 0 s w]) simp_all
  next
    case (Some b)
    obtain r s1 w1 where c: "br_stream_flush sapi s w = Ok (r, s1, w1)" "ret.moved d s w r d s1 w1"
      by (rule ret.flush_moved [OF ends' ret Some wr]) (rule that)
    show ?thesis by (rule that [OF _ c(2)]) (use c(1) Some in simp)
  qed
  note other1 = flip.moved_keeps_other [OF f(2) out]
  have kept1: "kept s d w s1 d w1"
    by (rule kept_flip) (use flip.moved_kept [OF f(2)] in blast)+
  from f(2) show thesis
  proof (cases rule: ret.moved_split)
    case fail
    have "br_on_writable n sapi dapi s d w = Ok (-1, s1, d, w1)"
      using wr f(1) fail(1) by (simp add: br_on_writable_def)
    from that [OF this kept1] other1(2) [OF fail(1)] show thesis by blast
  next
    case fine
    have work1: "swork (st_pipe s1) w1 \<le> swork (st_pipe s) w" "dwork (st_pipe d) w1 \<le> dwork (st_pipe d) w"
      using f(2) fine(5) by blast+
    have "out.link_ok s1 d w1" using other1(1) [OF fine(1)] by metis
    moreover have "out.ends_ok s1 d w1" using fine(2) by metis
    ultimately have both1: "both_ok s1 d w1" using fine(3) by blast
    have bits1: "readable (pipe_flags sapi (st_pipe s1)) = readable (pipe_flags sapi (st_pipe s))"
      by (rule flip.moved_bits(2) [OF f(2) fine(1)])
    show thesis
    proof (cases "writable (pipe_flags sapi (st_pipe s1))")
      case False
      have call: "br_on_writable n sapi dapi s d w = Ok (0, s1, d, w1)"
        using wr f(1) fine(1) False by (simp add: br_on_writable_def)
      show thesis by (rule that [OF call kept1]) (use False both1 work1(1) bits1 in blast)
    next
      case True
      have n1: "dwork (st_pipe d) w1 < n" using work1(2) n by simp
      obtain r d2 s2 w2 where c: "br_bridge_relay n dapi sapi d s1 w1 = Ok (r, d2, s2, w2)"
        "ret.moved d s1 w1 r d2 s2 w2" "r = 0 \<Longrightarrow> idle_ret s2 d2"
        by (rule ret.relay_law [OF fine(2,3) n1]) (rule that)
      have kept2: "kept s d w s2 d2 w2"
        by (rule kept_trans [OF kept1], rule kept_flip) (use flip.moved_kept [OF c(2)] in blast)+
      note other2 = flip.moved_keeps_other [OF c(2), of "writable (pipe_flags dapi (st_pipe d))"]
      have call: "br_on_writable n sapi dapi s d w = Ok (if r < 0 then -1 else 0, s2, d2, w2)"
        using wr f(1) fine(1) True c(1) by (simp add: br_on_writable_def)
      from c(2) show thesis
      proof (cases rule: ret.moved_split)
        case fail
        have "prefixes s2 d2 w2" using other2(2) [OF _ fail(1)] both1 by blast
        with that [OF call kept2] fail(1) show thesis by simp
      next
        case fine
        have "out.link_ok s1 d w1" using both1 by blast
        from other2(1) [OF this fine(1)] have "out.link_ok s2 d2 w2"
          "writable (pipe_flags dapi (st_pipe d2)) = writable (pipe_flags dapi (st_pipe d))" by simp_all
        moreover have "out.ends_ok s2 d2 w2" using fine(2) by metis
        moreover have "swork (st_pipe s2) w2 \<le> swork (st_pipe s) w"
          using c(2) work1(1) le_trans by blast
        moreover have "readable (pipe_flags sapi (st_pipe s2)) = readable (pipe_flags sapi (st_pipe s))"
          using flip.moved_bits(2) [OF c(2) fine(1)] bits1 by simp
        ultimately show thesis using that [OF call kept2] fine(1,3) c(3) by simp
      qed
    qed
  qed
qed

text \<open>The outcomes of the callback: an abort, a graceful shutdown, or the bridge goes on.\<close>

abbreviation outcome :: "bool option \<Rightarrow> bool \<Rightarrow> 'p br_stream \<Rightarrow> 'q br_stream \<Rightarrow> 'w \<Rightarrow> bool" where
  "outcome shut dead s d w \<equiv>
     shut = Some False \<and> dead \<and> prefixes s d w \<or>
     shut = Some True \<and> dead \<and> both_ok s d w \<and>
       fin_sent (pipe_flags dapi (st_pipe d)) \<and> fin_rcvd (pipe_flags dapi (st_pipe d)) \<or>
     shut = None \<and> \<not> dead \<and> both_ok s d w \<and> idle_out s d \<and> idle_ret s d \<and>
       \<not> (fin_sent (pipe_flags dapi (st_pipe d)) \<and> fin_rcvd (pipe_flags dapi (st_pipe d)))"

lemma activity_live:
  assumes ends: "out.ends_ok s d w" and out: "out.link_ok s d w"
    and ret: "ret.link_at (writable (pipe_flags sapi (st_pipe s)) \<and> \<not> has ev IO_EV_writable) d s w"
    and wr: "has ev IO_EV_writable \<Longrightarrow> writable (pipe_flags sapi (st_pipe s))"
    and idle: "has ev IO_EV_readable \<or> idle_out s d" "has ev IO_EV_writable \<or> idle_ret s d"
    and fine: "\<not> has ev IO_EV_broken"
    and n: "swork (st_pipe s) w < n" "dwork (st_pipe d) w < n"
  obtains shut dead s' d' w' where
    "br_stream_on_activity n sapi dapi False s d ev w = Ok (shut, dead, s', d', w')"
    "kept s d w s' d' w'" "outcome shut dead s' d' w'"
proof -
  obtain r1 s1 d1 w1 where b1:
    "br_step (has ev IO_EV_writable) (br_on_writable n sapi dapi) (0, s, d, w) = Ok (r1, s1, d1, w1)"
    "kept s d w s1 d1 w1"
    "r1 = 0 \<and> both_ok s1 d1 w1 \<and> swork (st_pipe s1) w1 < n \<and> idle_ret s1 d1 \<and>
       (has ev IO_EV_readable \<or> idle_out s1 d1) \<or> r1 = -1 \<and> prefixes s1 d1 w1"
  proof (cases "has ev IO_EV_writable")
    case True
    then have ret0: "ret.link_at False d s w" using ret by simp
    obtain r s1 d1 w1 where c: "br_on_writable n sapi dapi s d w = Ok (r, s1, d1, w1)"
      "kept s d w s1 d1 w1"
      "r = 0 \<and> both_ok s1 d1 w1 \<and> swork (st_pipe s1) w1 \<le> swork (st_pipe s) w \<and> idle_ret s1 d1 \<and>
         readable (pipe_flags sapi (st_pipe s1)) = readable (pipe_flags sapi (st_pipe s)) \<and>
         writable (pipe_flags dapi (st_pipe d1)) = writable (pipe_flags dapi (st_pipe d)) \<or>
       r = -1 \<and> prefixes s1 d1 w1"
      by (rule on_writable_law [OF ends out ret0 wr [OF True] n(2)]) (rule that)
    have "br_step (has ev IO_EV_writable) (br_on_writable n sapi dapi) (0, s, d, w) = Ok (r, s1, d1, w1)"
      using True c(1) by (simp add: br_step_def)
    moreover have "r = 0 \<and> both_ok s1 d1 w1 \<and> swork (st_pipe s1) w1 < n \<and> idle_ret s1 d1 \<and>
       (has ev IO_EV_readable \<or> idle_out s1 d1) \<or> r = -1 \<and> prefixes s1 d1 w1"
      using c(3) le_less_trans [OF _ n(1)] idle(1) by blast
    ultimately show ?thesis using c(2) by (intro that [of r s1 d1 w1])
  next
    case False
    then have "both_ok s d w" using ends out ret by simp
    with False n(1) idle kept_refl that [of 0 s d w] show ?thesis by (simp add: br_step_def)
  qed
  obtain r2 s2 d2 w2 where b2:
    "br_step (has ev IO_EV_readable) (br_on_readable n sapi dapi) (r1, s1, d1, w1) = Ok (r2, s2, d2, w2)"
    "kept s1 d1 w1 s2 d2 w2"
    "r2 = 0 \<and> both_ok s2 d2 w2 \<and> idle_out s2 d2 \<and> idle_ret s2 d2 \<or> r2 = -1 \<and> prefixes s2 d2 w2"
  proof (cases "r1 = 0 \<and> has ev IO_EV_readable")
    case True
    then have ok: "both_ok s1 d1 w1" "swork (st_pipe s1) w1 < n" "idle_ret s1 d1" using b1(3) by simp_all
    obtain r s2 d2 w2 where c: "br_on_readable n sapi dapi s1 d1 w1 = Ok (r, s2, d2, w2)"
      "kept s1 d1 w1 s2 d2 w2"
      "r = 0 \<and> both_ok s2 d2 w2 \<and> idle_out s2 d2 \<and> idle_ret s2 d2 \<or> r = -1 \<and> prefixes s2 d2 w2"
      by (rule on_readable_law [OF ok]) (rule that)
    have "br_step (has ev IO_EV_readable) (br_on_readable n sapi dapi) (r1, s1, d1, w1) = Ok (r, s2, d2, w2)"
      using True c(1) by (simp add: br_step_def)
    from that [OF this c(2,3)] show ?thesis .
  next
    case False
    then have "br_step (has ev IO_EV_readable) (br_on_readable n sapi dapi) (r1, s1, d1, w1) = Ok (r1, s1, d1, w1)"
      using b1(3) by (auto simp: br_step_def)
    moreover have "r1 = 0 \<and> both_ok s1 d1 w1 \<and> idle_out s1 d1 \<and> idle_ret s1 d1 \<or> r1 = -1 \<and> prefixes s1 d1 w1"
      using b1(3) False by blast
    ultimately show ?thesis using kept_refl by (intro that [of r1 s1 d1 w1])
  qed
  let ?fin = "fin_sent (pipe_flags dapi (st_pipe d2)) \<and> fin_rcvd (pipe_flags dapi (st_pipe d2))"
  have call: "br_stream_on_activity n sapi dapi False s d ev w =
    Ok (if r2 < 0 then Some False else if ?fin then Some True else None, r2 < 0 \<or> ?fin, s2, d2, w2)"
    using b1(1) b2(1) fine by (simp add: br_stream_on_activity_def)
  note kept2 = kept_trans [OF b1(2) b2(2)]
  from b2(3) show thesis
  proof
    assume ok: "r2 = 0 \<and> both_ok s2 d2 w2 \<and> idle_out s2 d2 \<and> idle_ret s2 d2"
    show thesis by (rule that [OF call kept2]) (use ok in \<open>cases ?fin; simp\<close>)
  next
    assume bad: "r2 = -1 \<and> prefixes s2 d2 w2"
    show thesis by (rule that [OF call kept2]) (use bad in simp)
  qed
qed

lemma activity_broken:
  assumes "broken_ok (pipe_flags sapi (st_pipe s))" "broken (pipe_flags sapi (st_pipe s))"
    and "has ev IO_EV_broken" "\<not> has ev IO_EV_writable" "prefixes s d w" "0 < n"
  shows "br_stream_on_activity n sapi dapi False s d ev w = Ok (Some False, True, s, d, w)"
proof -
  obtain m where n: "n = Suc m" using assms(6) by (cases n) auto
  have "\<not> readable (pipe_flags sapi (st_pipe s))" using assms(1,2) by (simp add: broken_ok_def)
  then have "br_on_readable n sapi dapi s d w = Ok (0, s, d, w)"
    by (simp add: br_on_readable_def br_bridge_relay_def alloc_io_buffer_None n)
  with assms show ?thesis
    by (simp add: br_stream_on_activity_def br_step_def)
qed

text \<open>An event on the pipe \<open>s\<close>, through the pipe and the callback.\<close>

lemma event_bridge:
  assumes ok: "both_ok s d w" and idle: "idle_out s d" "idle_ret s d" and ev: "sev (st_pipe s) ev"
    and n: "Suc (swork (st_pipe s) w) < n" "dwork (st_pipe d) w < n"
  shows "\<exists>up p w1. pipe_event sapi (st_pipe s) ev w = Ok (up, p, w1) \<and>
    (case up of
       None \<Rightarrow> both_ok (s\<lparr>st_pipe := p\<rparr>) d w1 \<and> idle_out (s\<lparr>st_pipe := p\<rparr>) d \<and>
         idle_ret (s\<lparr>st_pipe := p\<rparr>) d \<and> kept s d w (s\<lparr>st_pipe := p\<rparr>) d w1
     | Some io \<Rightarrow> \<exists>shut dead s' d' w'.
         br_stream_on_activity n sapi dapi False (s\<lparr>st_pipe := p\<rparr>) d io w1 = Ok (shut, dead, s', d', w') \<and>
         kept s d w s' d' w' \<and> outcome shut dead s' d' w')"
proof -
  have inv: "sinv (st_pipe s) w" and dinv: "dinv (st_pipe d) w"
    and diff: "sep (st_pipe s) \<noteq> dep (st_pipe d)" using ok by blast+
  obtain up p w1 where c: "pipe_event sapi (st_pipe s) ev w = Ok (up, p, w1)"
    "event_report up (pipe_flags sapi (st_pipe s)) (pipe_flags sapi p)"
    "ssent p w1 = ssent (st_pipe s) w" "srcvd p w1 = srcvd (st_pipe s) w \<and> sinput p w1 = sinput (st_pipe s) w"
    "sep p = sep (st_pipe s)" "sfin p = sfin (st_pipe s)" "\<forall>e. e \<noteq> sep (st_pipe s) \<longrightarrow> agree e w w1"
    "swork p w1 \<le> Suc (swork (st_pipe s) w)" "broken (pipe_flags sapi p) \<or> sinv p w1"
    using out.src.event_law [OF inv ev] by blast
  have "agree (dep (st_pipe d)) w w1" using c(7) diff by metis
  with dinv have own: "dinv (st_pipe d) w1 \<and> dsent (st_pipe d) w1 = dsent (st_pipe d) w \<and>
      drcvd (st_pipe d) w1 = drcvd (st_pipe d) w \<and> dinput (st_pipe d) w1 = dinput (st_pipe d) w \<and>
      dwork (st_pipe d) w1 = dwork (st_pipe d) w"
    using out.dst.own by blast
  let ?s = "s\<lparr>st_pipe := p\<rparr>"
  have kept1: "kept s d w ?s d w1" using c(4,5,7) own by simp
  have pre: "prefixes ?s d w1"
  proof -
    have "prefixes s d w" using both_prefixes ok by blast
    then show ?thesis using c(3,4) own by simp
  qed
  show ?thesis
  proof (cases "broken (pipe_flags sapi p)")
    case True
    then have "up_has up IO_EV_broken" "\<not> up_has up IO_EV_writable" "broken_ok (pipe_flags sapi p)"
      using c(2) by (simp_all add: event_report_def)
    then obtain io where io: "up = Some io" "has io IO_EV_broken" "\<not> has io IO_EV_writable"
      by (cases up) auto
    have "br_stream_on_activity n sapi dapi False ?s d io w1 = Ok (Some False, True, ?s, d, w1)"
      by (rule activity_broken) (use \<open>broken_ok _\<close> True io pre n in simp_all)
    with c(1) io(1) pre kept1 show ?thesis by auto
  next
    case False
    then have flags: "\<not> up_has up IO_EV_broken"
      "fin_rcvd (pipe_flags sapi p) = fin_rcvd (pipe_flags sapi (st_pipe s))"
      "readable (pipe_flags sapi p) \<longleftrightarrow> readable (pipe_flags sapi (st_pipe s)) \<or> up_has up IO_EV_readable"
      "writable (pipe_flags sapi p) \<longleftrightarrow> writable (pipe_flags sapi (st_pipe s)) \<or> up_has up IO_EV_writable"
      using c(2) by (simp_all add: event_report_def)
    have ends: "out.ends_ok ?s d w1" using False c(5,9) own diff by simp
    have out: "out.link_ok ?s d w1" using ok c(4) own flags(2) by simp
    have ret: "ret.link_at (writable (pipe_flags sapi (st_pipe s))) d ?s w1"
      using ok c(3,6) own by simp
    show ?thesis
    proof (cases up)
      case None
      then have "ret.link_ok d ?s w1" using ret flags(4) by simp
      with c(1) None ends out kept1 idle flags(3,4) show ?thesis by simp
    next
      case (Some io)
      have ret': "ret.link_at (writable (pipe_flags sapi (st_pipe ?s)) \<and> \<not> has io IO_EV_writable) d ?s w1"
        using ret flags(4) Some by (cases "has io IO_EV_writable") (auto simp: br_link_def split: option.splits)
      have n': "swork (st_pipe ?s) w1 < n" "dwork (st_pipe d) w1 < n"
        using c(8) n own by simp_all
      have idle': "has io IO_EV_readable \<or> idle_out ?s d" "has io IO_EV_writable \<or> idle_ret ?s d"
        using idle flags(3,4) Some by auto
      obtain shut dead s' d' w' where act:
        "br_stream_on_activity n sapi dapi False ?s d io w1 = Ok (shut, dead, s', d', w')"
        "kept ?s d w1 s' d' w'" "outcome shut dead s' d' w'"
        by (rule activity_live [OF ends out ret' _ idle' _ n']) (use flags Some in simp_all)
      show ?thesis
        using c(1) Some act(1,3) kept_trans [OF kept1 act(2)] by auto
    qed
  qed
qed

section \<open>The bridge\<close>

abbreviation "sview \<equiv> \<lparr>v_api = sapi, v_inv = sinv, v_sent = ssent, v_rcvd = srcvd, v_input = sinput,
  v_fin = sfin, v_ep = sep, v_agree = agree, v_ev = sev, v_work = swork, v_min = smin, v_lim = slim\<rparr>"
abbreviation "dview \<equiv> \<lparr>v_api = dapi, v_inv = dinv, v_sent = dsent, v_rcvd = drcvd, v_input = dinput,
  v_fin = dfin, v_ep = dep, v_agree = agree, v_ev = dev, v_work = dwork, v_min = dmin, v_lim = dlim\<rparr>"

lemma br_inv_iff:
  "br_inv sview dview br w \<longleftrightarrow>
     \<not> br_dead br \<and> both_ok (br_l br) (br_r br) w \<and> idle_out (br_l br) (br_r br) \<and> idle_ret (br_l br) (br_r br)"
  by (auto simp: br_inv_def br_direction_def)

lemma graceful_complete:
  assumes "both_ok s d w" "fin_sent (pipe_flags dapi (st_pipe d))" "fin_rcvd (pipe_flags dapi (st_pipe d))"
  shows "srcvd (st_pipe s) w = dsent (st_pipe d) w" "drcvd (st_pipe d) w = ssent (st_pipe s) w"
    "fin_rcvd (pipe_flags sapi (st_pipe s))" "sfin (st_pipe s)" "dfin (st_pipe d)"
proof -
  have fin: "dfin (st_pipe d)" using out.dst.fin_sent_asked assms by blast
  then show "fin_rcvd (pipe_flags sapi (st_pipe s))" "sfin (st_pipe s)" "dfin (st_pipe d)"
    "srcvd (st_pipe s) w = dsent (st_pipe d) w" "drcvd (st_pipe d) w = ssent (st_pipe s) w"
    using assms by (auto simp: br_link_def split: option.splits)
qed

text \<open>An event on either pipe: the bridge goes on with its invariant, or ends in one of two ways.\<close>

abbreviation bridge_outcome :: "bool option \<Rightarrow> ('p, 'q) br_bridge \<Rightarrow> 'w \<Rightarrow> bool" where
  "bridge_outcome shut br w \<equiv>
     (case shut of
        None \<Rightarrow> br_inv sview dview br w
      | Some g \<Rightarrow> br_dead br \<and> (if g then br_complete sview dview br w else br_prefixes sview dview br w))"

lemma event_left:
  assumes ok: "br_inv sview dview br w" and ev: "sev (st_pipe (br_l br)) ev"
    and n: "br_fuel sview dview br w \<le> n"
  shows "\<exists>shut br' w'. br_event_l n sapi dapi br ev w = Ok (shut, br', w') \<and>
    br_kept sview dview br w br' w' \<and> bridge_outcome shut br' w'"
proof -
  have both: "both_ok (br_l br) (br_r br) w" "idle_out (br_l br) (br_r br)" "idle_ret (br_l br) (br_r br)"
    and alive: "\<not> br_dead br" using ok unfolding br_inv_iff by blast+
  have n': "Suc (swork (st_pipe (br_l br)) w) < n" "dwork (st_pipe (br_r br)) w < n"
    using n by (simp_all add: br_fuel_def)
  let ?s = "\<lambda>p. (br_l br)\<lparr>st_pipe := p\<rparr>"
  obtain up p w1 where e: "pipe_event sapi (st_pipe (br_l br)) ev w = Ok (up, p, w1)"
    "case up of
       None \<Rightarrow> both_ok (?s p) (br_r br) w1 \<and> idle_out (?s p) (br_r br) \<and> idle_ret (?s p) (br_r br) \<and>
         kept (br_l br) (br_r br) w (?s p) (br_r br) w1
     | Some io \<Rightarrow> \<exists>shut dead s' d' w'.
         br_stream_on_activity n sapi dapi False (?s p) (br_r br) io w1 = Ok (shut, dead, s', d', w') \<and>
         kept (br_l br) (br_r br) w s' d' w' \<and> outcome shut dead s' d' w'"
    using event_bridge [OF both ev n'] by blast
  show ?thesis
  proof (cases up)
    case None
    let ?br = "br\<lparr>br_l := ?s p\<rparr>"
    have "br_inv sview dview ?br w1" "br_kept sview dview br w ?br w1"
      using e(2) None alive both(1) unfolding br_inv_iff by (simp_all add: br_kept_def)
    moreover have "br_event_l n sapi dapi br ev w = Ok (None, ?br, w1)"
      using e(1) None by (simp add: br_event_l_def)
    ultimately show ?thesis by (intro exI [of _ None] exI [of _ ?br] exI [of _ w1]) simp
  next
    case (Some io)
    then obtain shut dead s' d' w' where a:
      "br_stream_on_activity n sapi dapi False (?s p) (br_r br) io w1 = Ok (shut, dead, s', d', w')"
      "kept (br_l br) (br_r br) w s' d' w'" "outcome shut dead s' d' w'"
      using e(2) by auto
    let ?br = "br\<lparr>br_dead := dead, br_l := s', br_r := d'\<rparr>"
    have "br_event_l n sapi dapi br ev w = Ok (shut, ?br, w')"
      using e(1) Some a(1) alive by (simp add: br_event_l_def)
    moreover have "br_kept sview dview br w ?br w'" using a(2) by (simp add: br_kept_def)
    moreover have "bridge_outcome shut ?br w'"
      using a(3) graceful_complete [where s = s' and d = d' and w = w'] unfolding br_inv_iff
      by (elim disjE conjE) (simp_all add: br_prefixes_def br_complete_def)
    ultimately show ?thesis by (intro exI conjI)
  qed
qed

end

context bridge_pipes begin

lemma event_right:
  assumes ok: "br_inv sview dview br w" and ev: "dev (st_pipe (br_r br)) ev"
    and n: "br_fuel sview dview br w \<le> n"
  shows "\<exists>shut br' w'. br_event_r n sapi dapi br ev w = Ok (shut, br', w') \<and>
    br_kept sview dview br w br' w' \<and> bridge_outcome shut br' w'"
proof -
  have swap: "br_inv dview sview (mirror br) w" "br_fuel dview sview (mirror br) w \<le> n"
    using ok n by (auto simp: br_inv_def br_fuel_def)
  obtain shut br' w' where e: "br_event_l n dapi sapi (mirror br) ev w = Ok (shut, br', w')"
    "br_kept dview sview (mirror br) w br' w'" "flip.bridge_outcome shut br' w'"
    using flip.event_left [OF swap(1) _ swap(2), of ev] ev by auto
  have "br_event_r n sapi dapi br ev w = Ok (shut, mirror br', w')"
    using e(1) by (simp add: event_mirror)
  moreover have "br_kept sview dview br w (mirror br') w'"
    using e(2) by (auto simp: br_kept_def)
  moreover have "bridge_outcome shut (mirror br') w'"
    using e(3) by (cases shut) (auto simp: br_inv_def br_prefixes_def br_complete_def)
  ultimately show ?thesis by (intro exI conjI)
qed

lemma event_law:
  assumes "br_inv sview dview br w" and "br_ev_ok sview dview side br ev"
    and "br_fuel sview dview br w \<le> n"
  shows "\<exists>shut br' w'. br_event n sapi dapi side br ev w = Ok (shut, br', w') \<and>
    br_kept sview dview br w br' w' \<and> bridge_outcome shut br' w'"
  using assms event_left [of br w ev n] event_right [of br w ev n]
  by (cases side) (simp_all add: br_event_def br_ev_ok_def)

lemma other_law:
  assumes "br_inv sview dview br w" and "agree (sep (st_pipe (br_l br))) w w'"
    and "agree (dep (st_pipe (br_r br))) w w'"
  shows "br_inv sview dview br w' \<and> sinput (st_pipe (br_l br)) w' = sinput (st_pipe (br_l br)) w \<and>
    dinput (st_pipe (br_r br)) w' = dinput (st_pipe (br_r br)) w"
proof -
  have "sinv (st_pipe (br_l br)) w" "dinv (st_pipe (br_r br)) w"
    using assms(1) by (simp_all add: br_inv_def)
  from out.src.own [OF this(1) assms(2)] out.dst.own [OF this(2) assms(3)] show ?thesis
    using assms(1) by (simp add: br_inv_def br_direction_def)
qed

text \<open>Every reachable state: the invariant holds and the peers' streams are those of the start.\<close>

lemma reach_law:
  assumes "br_reach sview dview br0 w0 br w" and "br_inv sview dview br0 w0"
  shows "br_inv sview dview br w \<and>
    sinput (st_pipe (br_l br)) w = sinput (st_pipe (br_l br0)) w0 \<and>
    dinput (st_pipe (br_r br)) w = dinput (st_pipe (br_r br0)) w0 \<and>
    sep (st_pipe (br_l br)) = sep (st_pipe (br_l br0)) \<and> dep (st_pipe (br_r br)) = dep (st_pipe (br_r br0))"
  using assms
proof induction
  case (event br w side ev br' w')
  then have inv: "br_inv sview dview br w" by blast
  obtain shut br2 w2 where e: "br_event (br_fuel sview dview br w) sapi dapi side br ev w = Ok (shut, br2, w2)"
    "br_kept sview dview br w br2 w2" "bridge_outcome shut br2 w2"
    using event_law [OF inv event.hyps(2) order_refl] by blast
  have "shut = None" "br2 = br'" "w2 = w'" using e(1) event.hyps(3) by simp_all
  with e(2,3) event show ?case by (simp add: br_kept_def)
next
  case (other br w w')
  then show ?case using other_law [of br w w'] by simp
qed simp

lemma reach_prefix:
  assumes "br_reach sview dview br0 w0 br w" and "br_inv sview dview br0 w0"
  shows "\<exists>rest. sinput (st_pipe (br_l br0)) w0 = dsent (st_pipe (br_r br)) w @ rest"
    and "\<exists>rest. dinput (st_pipe (br_r br0)) w0 = ssent (st_pipe (br_l br)) w @ rest"
proof -
  have ok: "br_inv sview dview br w" "sinput (st_pipe (br_l br)) w = sinput (st_pipe (br_l br0)) w0"
    "dinput (st_pipe (br_r br)) w = dinput (st_pipe (br_r br0)) w0"
    using reach_law [OF assms] by simp_all
  then have inv: "sinv (st_pipe (br_l br)) w" "dinv (st_pipe (br_r br)) w" by (simp_all add: br_inv_def)
  from out.src.rcvd_input [OF inv(1)] out.dst.rcvd_input [OF inv(2)] ok
  show "\<exists>rest. sinput (st_pipe (br_l br0)) w0 = dsent (st_pipe (br_r br)) w @ rest"
    "\<exists>rest. dinput (st_pipe (br_r br0)) w0 = ssent (st_pipe (br_l br)) w @ rest"
    by (auto simp: br_inv_def br_direction_def br_link_def)
qed

end

end
