(* ===== verification/Stack.thy ===== *)
theory Stack
  imports DgmPipe EvlSelect Bridge
begin

text \<open>
  The program put together: tcp pipes over the select() loop, atx and datagram pipes over
  those, and the bridges that \<open>tcp-relay.c\<close> (two tcp pipes) and \<open>tcp-proxy.c\<close> (a tcp pipe
  and a datagram pipe) make of them.  The contracts are interpreted on these definitions, and
  the properties of the program follow as theorems about the code with nothing left open but
  the operating system's answers.
\<close>

section \<open>The pipes\<close>

type_synonym os_world = "evl_select world"

abbreviation "tcp_io \<equiv> tcp_api evl_select_api"
abbreviation "atx_io \<equiv> atx_api tcp_io"
abbreviation "dgm_io \<equiv> dgm_api atx_io"

text \<open>\<open>512*1024\<close>: the \<open>max_size\<close> of the datagram pipe and both \<open>recv_size\<close> in \<open>tcp-proxy.c\<close>.\<close>

definition proxy_size :: nat where "proxy_size = 512 * 1024"

definition tcp_lim :: nat where "tcp_lim = 2 ^ 31 - 1"
definition dgm_lim :: nat where "dgm_lim = 2 ^ 28 - 1"

definition tcp_ok :: "tcp_pipe \<Rightarrow> os_world \<Rightarrow> bool" where
  "tcp_ok = tcp_inv evl_inv evl_registered"

definition atx_ok :: "tcp_pipe atx_pipe \<Rightarrow> os_world \<Rightarrow> bool" where
  "atx_ok = atx_inv tcp_io tcp_ok (\<lambda>p. fin_sent (tp_base p)) tcp_lim"

definition dgm_ok :: "tcp_pipe atx_pipe dgm_pipe \<Rightarrow> os_world \<Rightarrow> bool" where
  "dgm_ok = dgm_inv atx_io atx_ok (atx_sent tcp_sent) (\<lambda>p. tcp_rcvd (at_io p)) (\<lambda>p. tcp_input (at_io p))
     proxy_size tcp_lim"

interpretation tcp: pipe_contract tcp_io tcp_ok tcp_sent tcp_rcvd tcp_input
  "\<lambda>p. fin_sent (tp_base p)" tp_sk "tcp_agree evl_inv evl_registered" tcp_ev_ok tcp_work 1 tcp_lim
  unfolding tcp_ok_def tcp_lim_def by (rule evl.tcp.pipe_contract_axioms)

text \<open>\<open>tcp_pipe_init\<close> on a new pipe and a socket that is not registered yet.\<close>

lemma tcp_start:
  assumes "evl_inv (w_evl w)" "evl_sk_valid sk" "evl_registered (w_evl w) sk = None"
  obtains p' w' where
    "tcp_pipe_init evl_select_api ((new_tcp_pipe a sk)\<lparr>tp_hooked := True\<rparr>) w = Ok (p', w')"
    "tp_base p' = zero_flags" "tp_sk p' = sk" "tcp_ok p' w'" "w_sock w' = w_sock w"
    "evl_inv (w_evl w')" "\<And>s. s \<noteq> sk \<Longrightarrow> evl_registered (w_evl w') s = evl_registered (w_evl w) s"
proof -
  obtain e' where e: "add_socket evl_select_api sk SK_EV_writable a (w_evl w) = Ok e'" "evl_inv e'"
    "evl_registered e' = (evl_registered (w_evl w))(sk \<mapsto> (SK_EV_writable, a))"
    using evl.add_law [OF assms] by blast
  let ?p = "(new_tcp_pipe a sk)\<lparr>tp_hooked := True, tp_evl := True, tp_sk_mask := SK_EV_writable\<rparr>"
  show thesis
    by (rule that [of ?p "w\<lparr>w_evl := e'\<rparr>"]) (use e in \<open>simp_all add: tcp_pipe_init_def new_tcp_pipe_def
      get_pipe_state_zero tcp_ok_def tcp_inv_def flags_ok_def\<close>)
qed

text \<open>A pipe is not disturbed when another one is registered.\<close>

lemma tcp_agree_start:
  assumes "w_sock w' = w_sock w" "evl_inv (w_evl w')"
    "\<And>s. s \<noteq> sk \<Longrightarrow> evl_registered (w_evl w') s = evl_registered (w_evl w) s" "tp_sk p \<noteq> sk"
  shows "tcp_agree evl_inv evl_registered (tp_sk p) w w'"
  using assms by (simp add: tcp_agree_def)

interpretation stack: atx_stack tcp_io tcp_ok tcp_sent tcp_rcvd tcp_input
  "\<lambda>p. fin_sent (tp_base p)" tp_sk "tcp_agree evl_inv evl_registered" tcp_ev_ok tcp_work 1 tcp_lim
  by (rule atx_stack.intro, rule tcp.pipe_contract_axioms)

interpretation dgm_over: dgm_stack atx_io atx_ok "atx_sent tcp_sent" "\<lambda>p. tcp_rcvd (at_io p)"
  "\<lambda>p. tcp_input (at_io p)" "atx_fin_asked (\<lambda>p. fin_sent (tp_base p))" "\<lambda>p. tp_sk (at_io p)"
  "tcp_agree evl_inv evl_registered" "\<lambda>p. tcp_ev_ok (at_io p)" "\<lambda>p. tcp_work (at_io p)" 1 tcp_lim proxy_size
  by (intro dgm_stack.intro dgm_stack_axioms.intro, unfold atx_ok_def, rule stack.atx.atomic_pipe_axioms)
    (simp_all add: proxy_size_def tcp_lim_def)

section \<open>The bridges\<close>

definition tcp_view :: "(tcp_pipe, os_world, int) pipe_view" where
  "tcp_view = \<lparr>v_api = tcp_io, v_inv = tcp_ok, v_sent = tcp_sent, v_rcvd = tcp_rcvd,
     v_input = tcp_input, v_fin = (\<lambda>p. fin_sent (tp_base p)), v_ep = tp_sk,
     v_agree = tcp_agree evl_inv evl_registered, v_ev = tcp_ev_ok, v_work = tcp_work,
     v_min = 1, v_lim = tcp_lim\<rparr>"

definition dgm_view :: "(tcp_pipe atx_pipe dgm_pipe, os_world, int) pipe_view" where
  "dgm_view = \<lparr>v_api = dgm_io, v_inv = dgm_ok, v_sent = dgm_sent (atx_sent tcp_sent),
     v_rcvd = dgm_rcvd (\<lambda>p. tcp_rcvd (at_io p)), v_input = dgm_input (\<lambda>p. tcp_input (at_io p)),
     v_fin = (\<lambda>p. atx_fin_asked (\<lambda>q. fin_sent (tp_base q)) (dg_io p)),
     v_ep = (\<lambda>p. tp_sk (at_io (dg_io p))), v_agree = tcp_agree evl_inv evl_registered,
     v_ev = (\<lambda>p. tcp_ev_ok (at_io (dg_io p))), v_work = dgm_work (\<lambda>p. tcp_work (at_io p)),
     v_min = proxy_size, v_lim = dgm_lim\<rparr>"

lemma dgm_lim_min: "dgm_lim = min (tcp_lim - 5) (2 ^ 28 - 1)"
  by (simp add: dgm_lim_def tcp_lim_def)

interpretation relay: bridge_pipes tcp_io tcp_ok tcp_sent tcp_rcvd tcp_input
  "\<lambda>p. fin_sent (tp_base p)" tp_sk "tcp_agree evl_inv evl_registered" tcp_ev_ok tcp_work 1 tcp_lim
  tcp_io tcp_ok tcp_sent tcp_rcvd tcp_input
  "\<lambda>p. fin_sent (tp_base p)" tp_sk tcp_ev_ok tcp_work 1 tcp_lim
  by (intro bridge_pipes.intro relay_pair.intro tcp.pipe_contract_axioms)

interpretation proxy: bridge_pipes tcp_io tcp_ok tcp_sent tcp_rcvd tcp_input
  "\<lambda>p. fin_sent (tp_base p)" tp_sk "tcp_agree evl_inv evl_registered" tcp_ev_ok tcp_work 1 tcp_lim
  dgm_io dgm_ok "dgm_sent (atx_sent tcp_sent)" "dgm_rcvd (\<lambda>p. tcp_rcvd (at_io p))"
  "dgm_input (\<lambda>p. tcp_input (at_io p))" "\<lambda>p. atx_fin_asked (\<lambda>q. fin_sent (tp_base q)) (dg_io p)"
  "\<lambda>p. tp_sk (at_io (dg_io p))" "\<lambda>p. tcp_ev_ok (at_io (dg_io p))"
  "dgm_work (\<lambda>p. tcp_work (at_io p))" proxy_size dgm_lim
  unfolding dgm_ok_def dgm_lim_min
  by (intro bridge_pipes.intro relay_pair.intro tcp.pipe_contract_axioms dgm_over.dgm.pipe_contract_axioms)

text \<open>The facts of the three kinds of bridge, in terms of the views.\<close>

lemmas relay_views = relay.event_law relay.reach_law relay.reach_prefix
lemmas relay_laws = relay_views [folded tcp_view_def]

lemmas client_views = proxy.event_law proxy.reach_law proxy.reach_prefix
lemmas client_laws = client_views [folded tcp_view_def dgm_view_def]

lemmas server_views = proxy.flip.event_law proxy.flip.reach_law proxy.flip.reach_prefix
lemmas server_laws = server_views [folded tcp_view_def dgm_view_def]

section \<open>States for the witnesses\<close>

abbreviation "example_tcp f \<equiv>
  \<lparr>tp_base = f, tp_hooked = True, tp_evl = True, tp_sk = 3, tp_sk_mask = tcp_wanted f, tp_self = 1\<rparr>"
abbreviation "busy_flags rd wr \<equiv>
  \<lparr>ready = True, broken = False, readable = rd, fin_rcvd = False, writable = wr, fin_sent = False\<rparr>"
abbreviation "example_sock rxs txs \<equiv>
  \<lparr>rx_script = rxs, tx_script = txs, shut_script = [], so_script = [], rx_log = [], tx_log = [],
   fin_out = False, sk_open = True\<rparr>"
abbreviation "example_atx f b fin \<equiv>
  \<lparr>at_base = (if b = None then f else f\<lparr>writable := False\<rparr>), at_hooked = True, at_io = example_tcp f,
   at_pending = b, at_want_fin = fin\<rparr>"

abbreviation "example_dgm b \<equiv>
  \<lparr>dg_base = busy_flags True True, dg_hooked = True, dg_io = example_atx (busy_flags True True) None False,
   max_size = 4, max_hdr_size = 5, dg_rx = b\<rparr>"
abbreviation "example_world \<equiv>
  \<lparr>w_evl = new_event_loop_select False False undefined, w_sock = \<lambda>_. example_sock [] [], w_errno = 0\<rparr>"

lemma example_evl: "\<exists>e. evl_inv e \<and> evl_registered e 3 = Some (m, 1)"
proof -
  let ?e = "new_event_loop_select False False undefined"
  have "evl_inv ?e" unfolding evl_inv_def using evl_new_inv by blast
  moreover have "evl_registered ?e = Map.empty" by (rule evl_rep_registered [OF evl_new_inv])
  ultimately show ?thesis using evl.add_law [of ?e 3 m 1] by (auto simp: evl_sk_valid_def FD_SETSIZE_def)
qed

lemma tcp_example:
  "\<exists>e. tcp_ok (example_tcp (busy_flags rd wr)) \<lparr>w_evl = e, w_sock = s, w_errno = 0\<rparr>"
proof -
  obtain e where "evl_inv e" "evl_registered e 3 = Some (tcp_wanted (busy_flags rd wr), 1)"
    using example_evl by blast
  then show ?thesis by (intro exI [of _ e]) (simp add: tcp_ok_def tcp_inv_def flags_ok_def)
qed

section \<open>Properties\<close>

text \<open>
  C14. Every event the loop delivers is one the tcp pipe expects.  From any state of the
  invariant, for any nonempty subset of the registered mask plus the error event, the callback
  runs to its end: no assertion fails, \<open>on_activity\<close> is called, every state bit that is raised is
  announced, and unless the pipe breaks the registered mask again is the one its state asks for.
\<close>

theorem tcp_pipe_events:
  assumes "tcp_ok p w" "tcp_ev_ok p ev"
  shows "\<exists>io p' w'. tcp_pipe_on_activity evl_select_api p ev w = Ok (Some io, p', w') \<and>
    event_report (Some io) (tp_base p) (tp_base p') \<and>
    (broken (tp_base p') \<or> tcp_ok p' w' \<and> ready (tp_base p') \<and> tp_sk_mask p' = tcp_wanted (tp_base p'))"
proof -
  obtain up p' w' where e: "tcp_pipe_on_activity evl_select_api p ev w = Ok (up, p', w')"
    "event_report up (tp_base p) (tp_base p')" "broken (tp_base p') \<or> tcp_ok p' w'"
    using tcp.event_law [OF assms] by auto
  obtain io where io: "up = Some io" "ready (tp_base p') \<or> broken (tp_base p')"
    using tcp_activity_up [OF e(1)] by blast
  with e show ?thesis by (auto simp: tcp_ok_def tcp_inv_def)
qed

theorem tcp_pipe_events_witness:
  "\<exists>e io p' w'. tcp_pipe_on_activity evl_select_api (example_tcp (busy_flags False True)) SK_EV_readable
     \<lparr>w_evl = e, w_sock = \<lambda>_. example_sock [] [], w_errno = 0\<rparr> = Ok (Some io, p', w')"
proof -
  obtain e where ok: "tcp_ok (example_tcp (busy_flags False True)) \<lparr>w_evl = e, w_sock = \<lambda>_. example_sock [] [], w_errno = 0\<rparr>"
    using tcp_example by blast
  have "tcp_ev_ok (example_tcp (busy_flags False True)) SK_EV_readable"
    by (simp add: tcp_ev_ok_def tcp_wanted_def event_defs)
  from tcp_pipe_events [OF ok this] show ?thesis by blast
qed



text \<open>
  C16. \<open>send\<close> on a writable tcp pipe, on every branch.  It returns -1 or the number of bytes the
  socket took, and exactly those have been appended to what was sent; when it took fewer than
  asked the pipe is no longer writable, so that the next writable event is asked for.
\<close>

theorem tcp_pipe_send_correct:
  assumes "tcp_ok p w" "writable (tp_base p)" "0 < length bs" "length bs < 2 ^ 31"
  shows "\<exists>r p' w'. tcp_pipe_send evl_select_api p bs w = Ok (r, p', w') \<and>
    -1 \<le> r \<and> r \<le> int (length bs) \<and> (r < int (length bs) \<longrightarrow> \<not> writable (tp_base p')) \<and>
    tcp_sent p' w' = tcp_sent p w @ take (nat r) bs \<and> tcp_rcvd p' w' = tcp_rcvd p w \<and>
    (broken (tp_base p') \<and> r < 0 \<or> tcp_ok p' w' \<and> tp_sk_mask p' = tcp_wanted (tp_base p'))"
proof -
  obtain r p' w' where c: "tcp_pipe_send evl_select_api p bs w = Ok (r, p', w')"
    "send_report (length bs) r (tp_base p')"
    "tcp_sent p' w' = tcp_sent p w @ take (nat r) bs" "tcp_rcvd p' w' = tcp_rcvd p w"
    "broken (tp_base p') \<or> tcp_ok p' w' \<and> same_rx (tp_base p) (tp_base p')"
    using tcp.send_law [of p w bs] assms by (auto simp: tcp_lim_def)
  have "ready (tp_base p)" using tcp.flags [OF assms(1)] assms(2) by (simp add: flags_ok_def)
  with c show ?thesis by (auto simp: tcp_ok_def tcp_inv_def same_rx_def send_report_def)
qed

theorem tcp_pipe_send_correct_witness:
  "\<exists>e r p' w'. tcp_pipe_send evl_select_api (example_tcp (busy_flags False True)) [1, 2, 3]
     \<lparr>w_evl = e, w_sock = \<lambda>_. example_sock [] [Tx_accept 2], w_errno = 0\<rparr> = Ok (r, p', w') \<and>
     tcp_sent p' w' = take (nat r) [1, 2, 3]"
proof -
  let ?w = "\<lambda>e. \<lparr>w_evl = e, w_sock = \<lambda>_. example_sock [] [Tx_accept 2], w_errno = 0\<rparr>"
  obtain e where ok: "tcp_ok (example_tcp (busy_flags False True)) (?w e)" using tcp_example by blast
  have "tcp_sent (example_tcp (busy_flags False True)) (?w e) = []" by (simp add: tcp_sent_def)
  with tcp_pipe_send_correct [OF ok, of "[1, 2, 3]"] show ?thesis by (intro exI [of _ e]) auto
qed

text \<open>
  C12. \<open>send\<close> on an atx pipe is atomic.  It takes the whole packet or nothing; a packet taken
  is on the wire or in \<open>pending\<close>, behind everything taken before; a packet refused leaves the
  pipe not writable.
\<close>

theorem atx_pipe_send_atomic:
  assumes "atx_ok p w" "writable (at_base p)" "0 < length bs" "length bs < 2 ^ 31"
  shows "\<exists>r p' w'. atx_pipe_send tcp_io p bs w = Ok (r, p', w') \<and>
    (r = -1 \<and> \<not> writable (at_base p') \<and> atx_sent tcp_sent p' w' = atx_sent tcp_sent p w \<or>
     r = int (length bs) \<and> \<not> broken (at_base p') \<and> atx_sent tcp_sent p' w' = atx_sent tcp_sent p w @ bs) \<and>
    (broken (at_base p') \<or> atx_ok p' w')"
  using tcp.atx_send_atomic [of p w bs] assms by (auto simp: tcp_lim_def atx_ok_def)

lemma atx_example:
  assumes "b = None \<and> \<not> fin \<or> (\<exists>b'. b = Some b' \<and> wf_buf b' \<and> 0 < buf_size b' \<and> buf_size b' < 2 ^ 31)"
  shows "\<exists>e. atx_ok (example_atx (busy_flags rd wr) b fin) \<lparr>w_evl = e, w_sock = s, w_errno = 0\<rparr>"
proof -
  obtain e where "tcp_ok (example_tcp (busy_flags rd wr)) \<lparr>w_evl = e, w_sock = s, w_errno = 0\<rparr>"
    using tcp_example by blast
  with assms show ?thesis by (intro exI [of _ e]) (auto simp: atx_ok_def atx_inv_def tcp_lim_def)
qed

theorem atx_pipe_send_atomic_witness:
  "\<exists>e r p' w'. atx_pipe_send tcp_io (example_atx (busy_flags False True) None False) [1, 2, 3]
     \<lparr>w_evl = e, w_sock = \<lambda>_. example_sock [] [Tx_accept 2], w_errno = 0\<rparr> = Ok (r, p', w') \<and>
     (r = -1 \<or> r = 3)"
proof -
  obtain e where ok: "atx_ok (example_atx (busy_flags False True) None False)
      \<lparr>w_evl = e, w_sock = \<lambda>_. example_sock [] [Tx_accept 2], w_errno = 0\<rparr>"
    using atx_example by blast
  from atx_pipe_send_atomic [OF ok, of "[1, 2, 3]"] show ?thesis by (intro exI [of _ e]) auto
qed

text \<open>
  C13. A deferred FIN waits for the data in front of it.  Whatever event comes, everything the
  atx pipe took is still accounted for, and if the socket has been shut down for sending after
  it then all of it is on the wire.
\<close>

theorem atx_fin_after_data:
  assumes "atx_ok p w" "tcp_ev_ok (at_io p) ev"
  shows "\<exists>up p' w'. atx_event tcp_io p ev w = Ok (up, p', w') \<and>
    atx_sent tcp_sent p' w' = atx_sent tcp_sent p w \<and>
    (broken (at_base p') \<or>
     atx_ok p' w' \<and> (fin_sent (tp_base (at_io p')) \<longrightarrow> tcp_sent (at_io p') w' = atx_sent tcp_sent p w))"
proof -
  obtain up p' w' where e: "atx_event tcp_io p ev w = Ok (up, p', w')"
    "atx_sent tcp_sent p' w' = atx_sent tcp_sent p w" "broken (at_base p') \<or> atx_ok p' w'"
    using tcp.atx_event_law [of p w ev] assms by (auto simp: atx_ok_def)
  moreover have "tcp_sent (at_io p') w' = atx_sent tcp_sent p' w'" if "atx_ok p' w'" "fin_sent (tp_base (at_io p'))"
    using that by (auto simp: atx_ok_def atx_inv_def atx_sent_def split: option.splits)
  ultimately show ?thesis by auto
qed

theorem atx_fin_after_data_witness:
  "\<exists>e up p' w'. atx_event tcp_io
     (example_atx (busy_flags True False) (Some \<lparr>capacity = 2, buf_head = 0, buf_size = 2, buf_data = [5, 6]\<rparr>) True)
     SK_EV_writable \<lparr>w_evl = e, w_sock = \<lambda>_. example_sock [] [Tx_accept 9], w_errno = 0\<rparr> = Ok (up, p', w') \<and>
     atx_sent tcp_sent p' w' = [5, 6]"
proof -
  let ?p = "example_atx (busy_flags True False) (Some \<lparr>capacity = 2, buf_head = 0, buf_size = 2, buf_data = [5, 6]\<rparr>) True"
  let ?w = "\<lambda>e. \<lparr>w_evl = e, w_sock = \<lambda>_. example_sock [] [Tx_accept 9], w_errno = 0\<rparr>"
  have "\<exists>e. atx_ok ?p (?w e)" by (rule atx_example) (simp add: wf_buf_def)
  then obtain e where ok: "atx_ok ?p (?w e)" by blast
  have "tcp_ev_ok (at_io ?p) SK_EV_writable"
    by (simp add: tcp_ev_ok_def tcp_wanted_def event_defs)
  moreover have "atx_sent tcp_sent ?p (?w e) = [5, 6]"
    by (simp add: atx_sent_def tcp_sent_def buf_bytes_def)
  ultimately show ?thesis
    using atx_fin_after_data [OF ok, of SK_EV_writable] by (intro exI [of _ e]) metis
qed

lemma dgm_example:
  assumes "well_framed (script_bytes rxs)"
  shows "\<exists>e. dgm_ok (example_dgm None) \<lparr>w_evl = e, w_sock = \<lambda>_. example_sock rxs txs, w_errno = 0\<rparr>"
proof -
  let ?w = "\<lambda>e. \<lparr>w_evl = e, w_sock = \<lambda>_. example_sock rxs txs, w_errno = 0\<rparr>"
  obtain e where ok: "atx_ok (example_atx (busy_flags True True) None False) (?w e)"
    using atx_example by blast
  have "safe_stream 4 (script_bytes rxs)" using well_framed_safe [of "script_bytes rxs" "[]"] assms by simp
  with ok show ?thesis
    by (intro exI [of _ e]) (simp add: dgm_ok_def dgm_inv_def tcp_rcvd_def tcp_sent_def tcp_input_def
        atx_sent_def proxy_size_def whole_def)
qed

lemma well_framed_example: "well_framed (script_bytes [Rx_data 2 [7], Rx_data 8 []])"
proof -
  have "script_bytes [Rx_data 2 [7], Rx_data 8 []] = [] @ frame [7, 8]"
    by (simp add: frame_def varint_small)
  moreover have "well_framed ([] @ frame [7, 8])" by (rule well_framed_snoc) simp_all
  ultimately show ?thesis by (simp only:)
qed





lemma dgm_recv_found:
  assumes "\<not> broken (dg_base p)" "dg_rx p = Some b" "wf_buf b"
    and "next_frame (max_size p) (buf_bytes b) = Some (d, rest)" "max_size p \<le> len" "len < 2 ^ 31"
  shows "\<exists>p'. dgm_pipe_recv io p len w = Ok (int (length d), d, p', w) \<and>
    pending_bytes (dg_rx p') = rest \<and> dg_base p' = pipe_flags io (dg_io p)"
proof -
  obtain k v where "io_parse_size (buf_bytes b) (buf_size b) = Ok (k, v)"
    using next_frame_Some [OF assms(4)] length_buf_bytes [OF assms(3)] by metis
  with assms(2,3,5) show ?thesis
  proof (cases rule: process_rx_cases)
    case (found d' rest' r b')
    have d: "c_int (length d) = int (length d)"
      using next_frame_length(2) [OF assms(4)] assms(5,6) by (simp add: c_int_small)
    have "pending_bytes (if buf_size b' = 0 then None else Some b') = rest"
      using found(1,5) assms(4) by (auto simp: buf_bytes_def)
    with found assms d show ?thesis
      by (auto simp: dgm_pipe_recv_def dgm_recv_pass_def Let_def)
  qed (use assms(4) in auto)
qed

text \<open>
  What \<open>recv\<close> does when the buffer already holds a complete frame: it hands out exactly
  that datagram, whole and alone, without reading from the pipe below, and keeps the bytes
  behind it.
\<close>

theorem dgm_recv_buffered:
  assumes "\<not> broken (dg_base p)" "dg_rx p = Some b" "wf_buf b"
    and "next_frame (max_size p) (buf_bytes b) = Some (d, rest)" "max_size p \<le> len" "len < 2 ^ 31"
  shows "\<exists>p'. dgm_pipe_recv io p len w = Ok (int (length d), d, p', w) \<and>
    pending_bytes (dg_rx p') = rest \<and> dg_base p' = pipe_flags io (dg_io p)"
  using assms by (rule dgm_recv_found)

theorem dgm_recv_buffered_witness:
  "\<exists>p'. dgm_pipe_recv atx_io (example_dgm (Some \<lparr>capacity = 4, buf_head = 0, buf_size = 4, buf_data = [2, 7, 8, 9]\<rparr>))
     4 example_world = Ok (2, [7, 8], p', example_world) \<and> pending_bytes (dg_rx p') = [9]"
proof -
  let ?b = "\<lparr>capacity = 4, buf_head = 0, buf_size = 4, buf_data = [2, 7, 8, 9]\<rparr>"
  have b: "wf_buf ?b" "buf_bytes ?b = frame [7, 8] @ [9]"
    by (simp_all add: wf_buf_def buf_bytes_def frame_def varint_small)
  have found: "next_frame (max_size (example_dgm (Some ?b))) (buf_bytes ?b) = Some ([7, 8], [9])"
    unfolding b(2) by (rule next_frame_frame) simp_all
  have "\<exists>p'. dgm_pipe_recv atx_io (example_dgm (Some ?b)) 4 example_world =
      Ok (int (length [7, 8 :: byte]), [7, 8], p', example_world) \<and>
    pending_bytes (dg_rx p') = [9] \<and> dg_base p' = pipe_flags atx_io (dg_io (example_dgm (Some ?b)))"
    by (rule dgm_recv_buffered [OF _ _ b(1) found]) simp_all
  then show ?thesis by auto
qed

text \<open>
  C23. A datagram that is longer than the caller's buffer is copied all the same, past the end
  of the buffer, if it is no longer than \<open>max_size\<close>: the length of the buffer is not checked
  once the datagram is complete.
\<close>

theorem dgm_recv_overflow:
  assumes "\<not> broken (dg_base p)" "dg_rx p = Some b" "wf_buf b"
    and "next_frame (max_size p) (buf_bytes b) = Some (d, rest)" "len < length d"
  shows "dgm_pipe_recv io p len w = Stop Undefined_behaviour"
proof -
  obtain k v where f: "io_parse_size (buf_bytes b) (length (buf_bytes b)) = Ok (k, Some v)" "0 < k" "k \<le> 5"
    "unat v \<le> max_size p" "nat k + unat v \<le> length (buf_bytes b)" "length d = unat v"
    using next_frame_Some [OF assms(4)] by metis
  then have "process_rx p len = Stop Undefined_behaviour"
    using assms by (simp add: process_rx_def c_size_nonneg)
  with assms(1,2) show ?thesis by (simp add: dgm_pipe_recv_def)
qed

theorem dgm_recv_overflow_witness:
  "dgm_pipe_recv atx_io (example_dgm (Some \<lparr>capacity = 3, buf_head = 0, buf_size = 3, buf_data = [2, 7, 8]\<rparr>))
     1 example_world = Stop Undefined_behaviour"
proof -
  let ?b = "\<lparr>capacity = 3, buf_head = 0, buf_size = 3, buf_data = [2, 7, 8]\<rparr>"
  have b: "wf_buf ?b" "buf_bytes ?b = frame [7, 8] @ []"
    by (simp_all add: wf_buf_def buf_bytes_def frame_def varint_small)
  have found: "next_frame (max_size (example_dgm (Some ?b))) (buf_bytes ?b) = Some ([7, 8], [])"
    unfolding b(2) by (rule next_frame_frame) simp_all
  show ?thesis by (rule dgm_recv_overflow [OF _ _ b(1) found]) simp_all
qed

text \<open>
  A malformed header, or one that announces more than \<open>max_size\<close> bytes, breaks the pipe:
  \<open>recv\<close> returns -1, delivers nothing, drops the buffer and sets \<open>broken\<close>, on which every
  later \<open>recv\<close> returns -1 and every later \<open>send\<close> is refused.
\<close>

theorem dgm_recv_malformed:
  assumes "\<not> broken (dg_base p)" "dg_rx p = Some b" "io_parse_size (buf_bytes b) (buf_size b) = Ok (k, v)"
    and "k < 0 \<or> (\<exists>x. v = Some x \<and> max_size p < unat x)"
  shows "\<exists>p'. dgm_pipe_recv io p len w = Ok (-1, [], p', w) \<and> broken (dg_base p') \<and> dg_rx p' = None \<and>
    dgm_pipe_recv io p' len w = Ok (-1, [], p', w) \<and> dgm_pipe_send io p' bs w = Ok (-1, p', w)"
proof -
  have "\<exists>n. process_rx p len = Ok (-1, n, [], p)"
  proof (cases "k < 0")
    case True
    then show ?thesis using assms(2,3) by (simp add: process_rx_def Let_def)
  next
    case False
    then obtain x where x: "v = Some x" "max_size p < unat x" using assms(4) by blast
    have "0 < k" using assms(3) x(1) by (cases rule: io_parse_size_header) auto
    then show ?thesis using assms(2,3) x by (simp add: process_rx_def Let_def)
  qed
  then obtain n where "process_rx p len = Ok (-1, n, [], p)" by blast
  with assms(1,2) show ?thesis
    by (intro exI [of _ "p\<lparr>dg_rx := None, dg_base := tag_pipe_as_broken (dg_base p)\<rparr>"])
      (simp add: dgm_pipe_recv_def dgm_recv_err_def dgm_pipe_send_def)
qed

theorem dgm_recv_malformed_witness:
  "\<exists>p'. dgm_pipe_recv atx_io (example_dgm (Some \<lparr>capacity = 2, buf_head = 0, buf_size = 2, buf_data = [9, 1]\<rparr>))
     4 example_world = Ok (-1, [], p', example_world) \<and> broken (dg_base p')"
proof -
  let ?b = "\<lparr>capacity = 2, buf_head = 0, buf_size = 2, buf_data = [9, 1]\<rparr>"
  have parse: "io_parse_size (buf_bytes ?b) (buf_size ?b) = Ok (1, Some 9)"
    by (simp add: buf_bytes_def io_parse_size_def parse_last c_simps)
  have "\<exists>p'. dgm_pipe_recv atx_io (example_dgm (Some ?b)) 4 example_world = Ok (-1, [], p', example_world) \<and>
    broken (dg_base p') \<and> dg_rx p' = None \<and>
    dgm_pipe_recv atx_io p' 4 example_world = Ok (-1, [], p', example_world) \<and>
    dgm_pipe_send atx_io p' [] example_world = Ok (-1, p', example_world)"
    by (rule dgm_recv_malformed [OF _ _ parse]) simp_all
  then show ?thesis by auto
qed

end
