(* ===== verification/App.thy ===== *)
theory App
  imports Stack
begin

text \<open>
  The two programs, \<open>tcp-relay.c\<close> and \<open>tcp-proxy.c\<close>: the pipes and the bridge their
  \<open>main\<close> functions build from two connected sockets, and the reading of the proxy's
  arguments.  The first lemmas show that what they build satisfies the invariant of a bridge;
  the theorems of \<open>Stack\<close> then hold of the running programs.
\<close>

section \<open>Setup\<close>

text \<open>
  The bridge before \<open>br->init\<close>; \<open>a\<close> and \<open>b\<close> are the addresses of the two tcp pipes.  The
  proxy's client puts the datagram pipe on the server's side, its server on the client's side.
\<close>

definition relay_bridge :: "nat \<Rightarrow> nat \<Rightarrow> int \<Rightarrow> int \<Rightarrow> (tcp_pipe, tcp_pipe) br_bridge" where
  "relay_bridge a b c2p p2s =
     (new_io_bridge tcp_io tcp_io (new_tcp_pipe a c2p) (new_tcp_pipe b p2s))\<lparr>br_hooked := True\<rparr>"

definition set_recv_sizes :: "nat \<Rightarrow> ('p, 'q) br_bridge \<Rightarrow> ('p, 'q) br_bridge" where
  "set_recv_sizes n br = br\<lparr>br_l := (br_l br)\<lparr>recv_size := n\<rparr>, br_r := (br_r br)\<lparr>recv_size := n\<rparr>\<rparr>"

definition proxy_client_bridge ::
  "nat \<Rightarrow> nat \<Rightarrow> int \<Rightarrow> int \<Rightarrow> (tcp_pipe, tcp_pipe atx_pipe dgm_pipe) br_bridge" where
  "proxy_client_bridge a b c2p p2s =
     set_recv_sizes proxy_size
       ((new_io_bridge tcp_io dgm_io (new_tcp_pipe a c2p)
           (new_dgm_pipe tcp_io (new_tcp_pipe b p2s) proxy_size))\<lparr>br_hooked := True\<rparr>)"

definition proxy_server_bridge ::
  "nat \<Rightarrow> nat \<Rightarrow> int \<Rightarrow> int \<Rightarrow> (tcp_pipe atx_pipe dgm_pipe, tcp_pipe) br_bridge" where
  "proxy_server_bridge a b c2p p2s =
     set_recv_sizes proxy_size
       ((new_io_bridge dgm_io tcp_io (new_dgm_pipe tcp_io (new_tcp_pipe a c2p) proxy_size)
           (new_tcp_pipe b p2s))\<lparr>br_hooked := True\<rparr>)"

section \<open>Initialisation\<close>

text \<open>A world in which two sockets are connected, unused and not registered yet.\<close>

definition fresh_sockets :: "os_world \<Rightarrow> int \<Rightarrow> int \<Rightarrow> bool" where
  "fresh_sockets w c2p p2s \<longleftrightarrow>
     evl_inv (w_evl w) \<and> evl_sk_valid c2p \<and> evl_sk_valid p2s \<and> c2p \<noteq> p2s \<and>
     evl_registered (w_evl w) c2p = None \<and> evl_registered (w_evl w) p2s = None \<and>
     rx_log (w_sock w c2p) = [] \<and> tx_log (w_sock w c2p) = [] \<and>
     rx_log (w_sock w p2s) = [] \<and> tx_log (w_sock w p2s) = []"

lemma tcp_pair_start:
  assumes "fresh_sockets w sl sr"
  obtains p w1 q w2 where
    "tcp_pipe_init evl_select_api ((new_tcp_pipe a sl)\<lparr>tp_hooked := True\<rparr>) w = Ok (p, w1)"
    "tcp_pipe_init evl_select_api ((new_tcp_pipe b sr)\<lparr>tp_hooked := True\<rparr>) w1 = Ok (q, w2)"
    "tcp_ok p w2" "tcp_ok q w2" "tp_base p = zero_flags" "tp_base q = zero_flags"
    "tp_sk p = sl" "tp_sk q = sr" "w_sock w2 = w_sock w"
proof -
  have f: "evl_inv (w_evl w)" "evl_sk_valid sl" "evl_registered (w_evl w) sl = None"
    "evl_sk_valid sr" "evl_registered (w_evl w) sr = None" "sl \<noteq> sr"
    using assms by (simp_all add: fresh_sockets_def)
  obtain p w1 where p: "tcp_pipe_init evl_select_api ((new_tcp_pipe a sl)\<lparr>tp_hooked := True\<rparr>) w = Ok (p, w1)"
    "tp_base p = zero_flags" "tp_sk p = sl" "tcp_ok p w1" "w_sock w1 = w_sock w"
    "evl_inv (w_evl w1)" "\<And>s. s \<noteq> sl \<Longrightarrow> evl_registered (w_evl w1) s = evl_registered (w_evl w) s"
    by (rule tcp_start [OF f(1-3)]) (rule that)
  have sr: "evl_registered (w_evl w1) sr = None" using p(7) f(5,6) by simp
  obtain q w2 where q: "tcp_pipe_init evl_select_api ((new_tcp_pipe b sr)\<lparr>tp_hooked := True\<rparr>) w1 = Ok (q, w2)"
    "tp_base q = zero_flags" "tp_sk q = sr" "tcp_ok q w2" "w_sock w2 = w_sock w1"
    "evl_inv (w_evl w2)" "\<And>s. s \<noteq> sr \<Longrightarrow> evl_registered (w_evl w2) s = evl_registered (w_evl w1) s"
    by (rule tcp_start [OF p(6) f(4) sr]) (rule that)
  have "tcp_agree evl_inv evl_registered (tp_sk p) w1 w2"
    by (rule tcp_agree_start [OF q(5,6,7)]) (use p(3) f(6) in simp_all)
  then have "tcp_ok p w2" using tcp.own [OF p(4)] by blast
  with p q show thesis by (intro that [of p w1 q w2]) simp_all
qed

text \<open>A new bridge over two pipes that have been initialised and have carried nothing yet.\<close>

abbreviation "fresh_stream n p \<equiv>
  \<lparr>st_pipe = p, st_pending = None, recv_size = n, st_tx = 0, st_rx = 0, st_congestions = 0\<rparr>"

abbreviation "fresh_bridge n p q \<equiv>
  \<lparr>br_evl = True, br_hooked = True, br_dead = False, br_l = fresh_stream n p, br_r = fresh_stream n q\<rparr>"

lemma bridge_init_start:
  assumes "pipe_init lio (pipe_hook lio l) w = Ok (p, w1)" "pipe_init rio (pipe_hook rio r) w1 = Ok (q, w2)"
  shows "br_bridge_init lio rio (set_recv_sizes n ((new_io_bridge lio rio l r)\<lparr>br_hooked := True\<rparr>)) w =
    Ok (fresh_bridge n p q, w2)"
  using assms by (simp add: br_bridge_init_def set_recv_sizes_def new_io_bridge_def br_setup_stream_def)

definition untouched :: "('p, 'w, 'e) pipe_view \<Rightarrow> nat \<Rightarrow> 'p \<Rightarrow> 'w \<Rightarrow> bool" where
  "untouched V n p w \<longleftrightarrow> v_inv V p w \<and> v_rcvd V p w = [] \<and> v_sent V p w = [] \<and> \<not> v_fin V p \<and>
     pipe_flags (v_api V) p = zero_flags \<and> v_min V \<le> n \<and> n \<le> v_lim V"

lemma bridge_inv_start:
  assumes "untouched V n p w" "untouched U n q w" "v_ep V p \<noteq> v_ep U q"
  shows "br_inv V U (fresh_bridge n p q) w"
  using assms by (simp add: br_inv_def br_direction_def br_link_def untouched_def)

lemma relay_start:
  assumes "fresh_sockets w c2p p2s"
  shows "\<exists>br w'. br_bridge_init tcp_io tcp_io (relay_bridge a b c2p p2s) w = Ok (br, w') \<and>
    br_inv tcp_view tcp_view br w' \<and> w_sock w' = w_sock w \<and>
    tp_sk (st_pipe (br_l br)) = c2p \<and> tp_sk (st_pipe (br_r br)) = p2s \<and>
    (\<exists>p q w1. br = fresh_bridge (1024 * 1024) p q \<and>
      tcp_pipe_init evl_select_api ((new_tcp_pipe a c2p)\<lparr>tp_hooked := True\<rparr>) w = Ok (p, w1) \<and>
      tcp_pipe_init evl_select_api ((new_tcp_pipe b p2s)\<lparr>tp_hooked := True\<rparr>) w1 = Ok (q, w'))"
proof -
  obtain p w1 q w2 where i:
    "tcp_pipe_init evl_select_api ((new_tcp_pipe a c2p)\<lparr>tp_hooked := True\<rparr>) w = Ok (p, w1)"
    "tcp_pipe_init evl_select_api ((new_tcp_pipe b p2s)\<lparr>tp_hooked := True\<rparr>) w1 = Ok (q, w2)"
    "tcp_ok p w2" "tcp_ok q w2" "tp_base p = zero_flags" "tp_base q = zero_flags"
    "tp_sk p = c2p" "tp_sk q = p2s" "w_sock w2 = w_sock w"
    by (rule tcp_pair_start [OF assms]) (rule that)
  have un: "untouched tcp_view (1024 * 1024) p w2" "untouched tcp_view (1024 * 1024) q w2"
    using i assms by (simp_all add: untouched_def tcp_view_def tcp_rcvd_def tcp_sent_def tcp_lim_def fresh_sockets_def)
  have "relay_bridge a b c2p p2s = set_recv_sizes (1024 * 1024)
      ((new_io_bridge tcp_io tcp_io (new_tcp_pipe a c2p) (new_tcp_pipe b p2s))\<lparr>br_hooked := True\<rparr>)"
    by (simp add: relay_bridge_def set_recv_sizes_def new_io_bridge_def br_setup_stream_def)
  then have "br_bridge_init tcp_io tcp_io (relay_bridge a b c2p p2s) w = Ok (fresh_bridge (1024 * 1024) p q, w2)"
    using bridge_init_start [of tcp_io "new_tcp_pipe a c2p" w p w1 tcp_io "new_tcp_pipe b p2s" q w2] i(1,2)
    by (simp add: tcp_api_def)
  moreover have "br_inv tcp_view tcp_view (fresh_bridge (1024 * 1024) p q) w2"
    by (rule bridge_inv_start [OF un]) (use i assms in \<open>simp add: tcp_view_def fresh_sockets_def\<close>)
  ultimately show ?thesis using i by simp
qed

text \<open>A datagram pipe over a tcp pipe that has been registered.\<close>

lemma dgm_start:
  assumes "tcp_pipe_init evl_select_api ((new_tcp_pipe b sk)\<lparr>tp_hooked := True\<rparr>) w = Ok (q, w')"
    "tp_base q = zero_flags" "tp_sk q = sk"
  obtains d where
    "dgm_pipe_init atx_io ((new_dgm_pipe tcp_io (new_tcp_pipe b sk) proxy_size)\<lparr>dg_hooked := True\<rparr>) w = Ok (d, w')"
    "dg_base d = zero_flags" "dg_rx d = None" "at_io (dg_io d) = q" "at_pending (dg_io d) = None"
    "\<not> at_want_fin (dg_io d)" "max_size d = proxy_size"
    "\<And>w. tcp_ok q w \<Longrightarrow> rx_log (w_sock w sk) = [] \<Longrightarrow> tx_log (w_sock w sk) = [] \<Longrightarrow>
       safe_stream proxy_size (script_bytes (rx_script (w_sock w sk))) \<Longrightarrow> dgm_ok d w"
proof -
  let ?d = "(new_dgm_pipe tcp_io (new_tcp_pipe b sk) proxy_size)\<lparr>dg_hooked := True,
    dg_io := (new_atx_pipe tcp_io (new_tcp_pipe b sk))\<lparr>at_hooked := True, at_io := q\<rparr>\<rparr>"
  have clone: "atx_pipe_clone_state tcp_io (dg_io ?d) = dg_io ?d" "dgm_pipe_clone_state atx_io ?d = ?d"
    using assms(2) by (simp_all add: atx_pipe_clone_state_def new_atx_pipe_def
      dgm_pipe_clone_state_def new_dgm_pipe_def)
  show thesis
  proof (rule that [of ?d])
    show "dgm_pipe_init atx_io ((new_dgm_pipe tcp_io (new_tcp_pipe b sk) proxy_size)\<lparr>dg_hooked := True\<rparr>) w = Ok (?d, w')"
      using assms(1) clone by (simp add: dgm_pipe_init_def new_dgm_pipe_def atx_pipe_init_def new_atx_pipe_def atx_api_def tcp_api_def)
  qed (use assms(2,3) in \<open>simp_all add: new_dgm_pipe_def new_atx_pipe_def dgm_ok_def dgm_inv_def
      atx_ok_def atx_inv_def atx_sent_def tcp_rcvd_def tcp_sent_def tcp_input_def proxy_size_def whole_def\<close>)
qed

text \<open>The two ends of the proxy.\<close>

lemma proxy_pipes:
  assumes "tcp_ok p w" "tp_base p = zero_flags" "rx_log (w_sock w (tp_sk p)) = []" "tx_log (w_sock w (tp_sk p)) = []"
  shows "untouched tcp_view proxy_size p w"
    and "dgm_ok d w \<Longrightarrow> dg_base d = zero_flags \<Longrightarrow> dg_rx d = None \<Longrightarrow> at_io (dg_io d) = p \<Longrightarrow>
      at_pending (dg_io d) = None \<Longrightarrow> \<not> at_want_fin (dg_io d) \<Longrightarrow> untouched dgm_view proxy_size d w"
  using assms by (simp_all add: untouched_def tcp_view_def dgm_view_def tcp_rcvd_def tcp_sent_def
      dgm_rcvd_def dgm_datagrams_def datagrams_def dgm_sent_def atx_sent_def atx_fin_asked_def payload_def proxy_size_def tcp_lim_def dgm_lim_def)

lemma proxy_client_start:
  assumes "fresh_sockets w c2p p2s" "safe_stream proxy_size (script_bytes (rx_script (w_sock w p2s)))"
  shows "\<exists>br w'. br_bridge_init tcp_io dgm_io (proxy_client_bridge a b c2p p2s) w = Ok (br, w') \<and>
    br_inv tcp_view dgm_view br w' \<and> w_sock w' = w_sock w \<and>
    tp_sk (st_pipe (br_l br)) = c2p \<and> tp_sk (at_io (dg_io (st_pipe (br_r br)))) = p2s \<and>
    max_size (st_pipe (br_r br)) = proxy_size \<and>
    (\<exists>p d w1. br = fresh_bridge proxy_size p d \<and> dg_base d = zero_flags \<and> dg_rx d = None \<and> at_pending (dg_io d) = None \<and>
      tcp_pipe_init evl_select_api ((new_tcp_pipe a c2p)\<lparr>tp_hooked := True\<rparr>) w = Ok (p, w1) \<and>
      tcp_pipe_init evl_select_api ((new_tcp_pipe b p2s)\<lparr>tp_hooked := True\<rparr>) w1 = Ok (at_io (dg_io d), w'))"
proof -
  obtain p w1 q w2 where i:
    "tcp_pipe_init evl_select_api ((new_tcp_pipe a c2p)\<lparr>tp_hooked := True\<rparr>) w = Ok (p, w1)"
    "tcp_pipe_init evl_select_api ((new_tcp_pipe b p2s)\<lparr>tp_hooked := True\<rparr>) w1 = Ok (q, w2)"
    "tcp_ok p w2" "tcp_ok q w2" "tp_base p = zero_flags" "tp_base q = zero_flags"
    "tp_sk p = c2p" "tp_sk q = p2s" "w_sock w2 = w_sock w"
    by (rule tcp_pair_start [OF assms(1)]) (rule that)
  have f: "c2p \<noteq> p2s" "rx_log (w_sock w2 c2p) = []" "tx_log (w_sock w2 c2p) = []"
    "rx_log (w_sock w2 p2s) = []" "tx_log (w_sock w2 p2s) = []"
    using assms(1) i(9) by (simp_all add: fresh_sockets_def)
  obtain d where d:
    "dgm_pipe_init atx_io ((new_dgm_pipe tcp_io (new_tcp_pipe b p2s) proxy_size)\<lparr>dg_hooked := True\<rparr>) w1 = Ok (d, w2)"
    "dg_base d = zero_flags" "dg_rx d = None" "at_io (dg_io d) = q" "at_pending (dg_io d) = None"
    "\<not> at_want_fin (dg_io d)" "max_size d = proxy_size"
    "\<And>w. tcp_ok q w \<Longrightarrow> rx_log (w_sock w p2s) = [] \<Longrightarrow> tx_log (w_sock w p2s) = [] \<Longrightarrow>
       safe_stream proxy_size (script_bytes (rx_script (w_sock w p2s))) \<Longrightarrow> dgm_ok d w"
    by (rule dgm_start [OF i(2,6,8)]) (rule that)
  have ok: "dgm_ok d w2" by (rule d(8)) (use i f assms(2) in simp_all)
  have un: "untouched tcp_view proxy_size p w2" "untouched dgm_view proxy_size d w2"
    using proxy_pipes(1) [of p w2] proxy_pipes(2) [of q w2 d] i f d ok by simp_all
  have "br_bridge_init tcp_io dgm_io (proxy_client_bridge a b c2p p2s) w = Ok (fresh_bridge proxy_size p d, w2)"
    unfolding proxy_client_bridge_def
    by (rule bridge_init_start) (use i(1) d(1) in \<open>simp_all add: tcp_api_def [of evl_select_api] dgm_api_def\<close>)
  moreover have "br_inv tcp_view dgm_view (fresh_bridge proxy_size p d) w2"
    by (rule bridge_inv_start [OF un]) (use i f d in \<open>simp add: tcp_view_def dgm_view_def\<close>)
  ultimately show ?thesis using i d by simp
qed

lemma proxy_server_start:
  assumes "fresh_sockets w c2p p2s" "safe_stream proxy_size (script_bytes (rx_script (w_sock w c2p)))"
  shows "\<exists>br w'. br_bridge_init dgm_io tcp_io (proxy_server_bridge a b c2p p2s) w = Ok (br, w') \<and>
    br_inv dgm_view tcp_view br w' \<and> w_sock w' = w_sock w \<and>
    tp_sk (at_io (dg_io (st_pipe (br_l br)))) = c2p \<and> tp_sk (st_pipe (br_r br)) = p2s \<and>
    max_size (st_pipe (br_l br)) = proxy_size \<and>
    (\<exists>d q w1. br = fresh_bridge proxy_size d q \<and> dg_base d = zero_flags \<and> dg_rx d = None \<and> at_pending (dg_io d) = None \<and>
      tcp_pipe_init evl_select_api ((new_tcp_pipe a c2p)\<lparr>tp_hooked := True\<rparr>) w = Ok (at_io (dg_io d), w1) \<and>
      tcp_pipe_init evl_select_api ((new_tcp_pipe b p2s)\<lparr>tp_hooked := True\<rparr>) w1 = Ok (q, w'))"
proof -
  obtain p w1 q w2 where i:
    "tcp_pipe_init evl_select_api ((new_tcp_pipe a c2p)\<lparr>tp_hooked := True\<rparr>) w = Ok (p, w1)"
    "tcp_pipe_init evl_select_api ((new_tcp_pipe b p2s)\<lparr>tp_hooked := True\<rparr>) w1 = Ok (q, w2)"
    "tcp_ok p w2" "tcp_ok q w2" "tp_base p = zero_flags" "tp_base q = zero_flags"
    "tp_sk p = c2p" "tp_sk q = p2s" "w_sock w2 = w_sock w"
    by (rule tcp_pair_start [OF assms(1)]) (rule that)
  have f: "c2p \<noteq> p2s" "rx_log (w_sock w2 c2p) = []" "tx_log (w_sock w2 c2p) = []"
    "rx_log (w_sock w2 p2s) = []" "tx_log (w_sock w2 p2s) = []"
    using assms(1) i(9) by (simp_all add: fresh_sockets_def)
  obtain d where d:
    "dgm_pipe_init atx_io ((new_dgm_pipe tcp_io (new_tcp_pipe a c2p) proxy_size)\<lparr>dg_hooked := True\<rparr>) w = Ok (d, w1)"
    "dg_base d = zero_flags" "dg_rx d = None" "at_io (dg_io d) = p" "at_pending (dg_io d) = None"
    "\<not> at_want_fin (dg_io d)" "max_size d = proxy_size"
    "\<And>w. tcp_ok p w \<Longrightarrow> rx_log (w_sock w c2p) = [] \<Longrightarrow> tx_log (w_sock w c2p) = [] \<Longrightarrow>
       safe_stream proxy_size (script_bytes (rx_script (w_sock w c2p))) \<Longrightarrow> dgm_ok d w"
    by (rule dgm_start [OF i(1,5,7)]) (rule that)
  have ok: "dgm_ok d w2" by (rule d(8)) (use i f assms(2) in simp_all)
  have un: "untouched dgm_view proxy_size d w2" "untouched tcp_view proxy_size q w2"
    using proxy_pipes(1) [of q w2] proxy_pipes(2) [of p w2 d] i f d ok by simp_all
  have "br_bridge_init dgm_io tcp_io (proxy_server_bridge a b c2p p2s) w = Ok (fresh_bridge proxy_size d q, w2)"
    unfolding proxy_server_bridge_def
    by (rule bridge_init_start) (use i(2) d(1) in \<open>simp_all add: tcp_api_def [of evl_select_api] dgm_api_def\<close>)
  moreover have "br_inv dgm_view tcp_view (fresh_bridge proxy_size d q) w2"
    by (rule bridge_inv_start [OF un]) (use i f d in \<open>simp add: tcp_view_def dgm_view_def\<close>)
  ultimately show ?thesis using i d by simp
qed

section \<open>Running\<close>

text \<open>From the start of a relay: its reachable states, in terms of the two sockets.\<close>

lemma relay_run:
  assumes "fresh_sockets w c2p p2s"
  obtains br w1 where "br_bridge_init tcp_io tcp_io (relay_bridge a b c2p p2s) w = Ok (br, w1)"
    "br_inv tcp_view tcp_view br w1"
    "\<And>br' w'. br_reach tcp_view tcp_view br w1 br' w' \<Longrightarrow> br_inv tcp_view tcp_view br' w' \<and>
       tp_sk (st_pipe (br_l br')) = c2p \<and> tp_sk (st_pipe (br_r br')) = p2s \<and>
       (\<exists>rest. script_bytes (rx_script (w_sock w c2p)) = tx_log (w_sock w' p2s) @ rest) \<and>
       (\<exists>rest. script_bytes (rx_script (w_sock w p2s)) = tx_log (w_sock w' c2p) @ rest)"
proof -
  obtain br w1 where i: "br_bridge_init tcp_io tcp_io (relay_bridge a b c2p p2s) w = Ok (br, w1)"
    "br_inv tcp_view tcp_view br w1" "w_sock w1 = w_sock w"
    "tp_sk (st_pipe (br_l br)) = c2p" "tp_sk (st_pipe (br_r br)) = p2s"
    using relay_start [OF assms] by blast
  have logs: "rx_log (w_sock w c2p) = []" "rx_log (w_sock w p2s) = []"
    using assms by (simp_all add: fresh_sockets_def)
  show thesis
  proof (rule that [OF i(1,2)])
    fix br' w' assume reach: "br_reach tcp_view tcp_view br w1 br' w'"
    have l: "br_inv tcp_view tcp_view br' w'" "tp_sk (st_pipe (br_l br')) = c2p" "tp_sk (st_pipe (br_r br')) = p2s"
      using relay_laws(2) [OF reach i(2)] i(4,5) by simp_all
    show "br_inv tcp_view tcp_view br' w' \<and>
       tp_sk (st_pipe (br_l br')) = c2p \<and> tp_sk (st_pipe (br_r br')) = p2s \<and>
       (\<exists>rest. script_bytes (rx_script (w_sock w c2p)) = tx_log (w_sock w' p2s) @ rest) \<and>
       (\<exists>rest. script_bytes (rx_script (w_sock w p2s)) = tx_log (w_sock w' c2p) @ rest)"
      using relay_laws(3,4) [OF reach i(2)] i(3-5) l logs by (simp add: tcp_input_def tcp_sent_def)
  qed
qed

text \<open>The proxy's client: what it puts on the wire.\<close>

lemma client_run:
  assumes "fresh_sockets w c2p p2s" "safe_stream proxy_size (script_bytes (rx_script (w_sock w p2s)))"
  obtains br w1 where "br_bridge_init tcp_io dgm_io (proxy_client_bridge a b c2p p2s) w = Ok (br, w1)"
    "br_inv tcp_view dgm_view br w1"
    "\<And>br' w'. br_reach tcp_view dgm_view br w1 br' w' \<Longrightarrow> br_inv tcp_view dgm_view br' w' \<and>
       (\<exists>queued. well_framed (tx_log (w_sock w' p2s) @ queued) \<and>
         (\<exists>rest. script_bytes (rx_script (w_sock w c2p)) = payload (2 ^ 28) (tx_log (w_sock w' p2s) @ queued) @ rest)) \<and>
       (\<exists>rest. payload proxy_size (script_bytes (rx_script (w_sock w p2s))) = tx_log (w_sock w' c2p) @ rest)"
proof -
  obtain br w1 where i: "br_bridge_init tcp_io dgm_io (proxy_client_bridge a b c2p p2s) w = Ok (br, w1)"
    "br_inv tcp_view dgm_view br w1" "w_sock w1 = w_sock w"
    "tp_sk (st_pipe (br_l br)) = c2p" "tp_sk (at_io (dg_io (st_pipe (br_r br)))) = p2s"
    "max_size (st_pipe (br_r br)) = proxy_size"
    using proxy_client_start [OF assms] by blast
  have logs: "rx_log (w_sock w c2p) = []" "rx_log (w_sock w p2s) = []"
    using assms(1) by (simp_all add: fresh_sockets_def)
  show thesis
  proof (rule that [OF i(1,2)])
    fix br' w' assume reach: "br_reach tcp_view dgm_view br w1 br' w'"
    have l: "br_inv tcp_view dgm_view br' w'" "tp_sk (st_pipe (br_l br')) = c2p"
      "tp_sk (at_io (dg_io (st_pipe (br_r br')))) = p2s"
      using client_laws(2) [OF reach i(2)] i(4,5) by simp_all
    let ?queued = "pending_bytes (at_pending (dg_io (st_pipe (br_r br'))))"
    have sent: "atx_sent tcp_sent (dg_io (st_pipe (br_r br'))) w' = tx_log (w_sock w' p2s) @ ?queued"
      using l(3) by (simp add: atx_sent_def tcp_sent_def)
    have "dgm_ok (st_pipe (br_r br')) w'" using l(1) by (simp add: br_inv_def dgm_view_def)
    then have "well_framed (tx_log (w_sock w' p2s) @ ?queued)"
      using sent by (simp add: dgm_ok_def dgm_inv_def)
    moreover have "\<exists>rest. script_bytes (rx_script (w_sock w c2p)) =
        payload (2 ^ 28) (tx_log (w_sock w' p2s) @ ?queued) @ rest"
      using client_laws(3) [OF reach i(2)] i(3-5) logs sent by (simp add: tcp_input_def dgm_sent_def)
    moreover have "\<exists>rest. payload proxy_size (script_bytes (rx_script (w_sock w p2s))) = tx_log (w_sock w' c2p) @ rest"
      using client_laws(4) [OF reach i(2)] i(3-6) l logs by (simp add: tcp_input_def tcp_sent_def dgm_input_def)
    ultimately show "br_inv tcp_view dgm_view br' w' \<and>
       (\<exists>queued. well_framed (tx_log (w_sock w' p2s) @ queued) \<and>
         (\<exists>rest. script_bytes (rx_script (w_sock w c2p)) = payload (2 ^ 28) (tx_log (w_sock w' p2s) @ queued) @ rest)) \<and>
       (\<exists>rest. payload proxy_size (script_bytes (rx_script (w_sock w p2s))) = tx_log (w_sock w' c2p) @ rest)"
      using l(1) by blast
  qed
qed

text \<open>The proxy's server: what it makes of the wire.\<close>

lemma server_run:
  assumes "fresh_sockets w c2p p2s" "safe_stream proxy_size (script_bytes (rx_script (w_sock w c2p)))"
  obtains br w1 where "br_bridge_init dgm_io tcp_io (proxy_server_bridge a b c2p p2s) w = Ok (br, w1)"
    "br_inv dgm_view tcp_view br w1"
    "\<And>br' w'. br_reach dgm_view tcp_view br w1 br' w' \<Longrightarrow> br_inv dgm_view tcp_view br' w' \<and>
       (\<exists>rest. payload proxy_size (script_bytes (rx_script (w_sock w c2p))) = tx_log (w_sock w' p2s) @ rest)"
proof -
  obtain br w1 where i: "br_bridge_init dgm_io tcp_io (proxy_server_bridge a b c2p p2s) w = Ok (br, w1)"
    "br_inv dgm_view tcp_view br w1" "w_sock w1 = w_sock w"
    "tp_sk (at_io (dg_io (st_pipe (br_l br)))) = c2p" "tp_sk (st_pipe (br_r br)) = p2s"
    "max_size (st_pipe (br_l br)) = proxy_size"
    using proxy_server_start [OF assms] by blast
  have logs: "rx_log (w_sock w c2p) = []"
    using assms(1) by (simp_all add: fresh_sockets_def)
  show thesis
  proof (rule that [OF i(1,2)])
    fix br' w' assume reach: "br_reach dgm_view tcp_view br w1 br' w'"
    have l: "br_inv dgm_view tcp_view br' w'" "tp_sk (st_pipe (br_r br')) = p2s"
      using server_laws(2) [OF reach i(2)] i(4,5) by simp_all
    then show "br_inv dgm_view tcp_view br' w' \<and>
       (\<exists>rest. payload proxy_size (script_bytes (rx_script (w_sock w c2p))) = tx_log (w_sock w' p2s) @ rest)"
      using server_laws(3) [OF reach i(2)] i(3-6) logs by (simp add: tcp_input_def tcp_sent_def dgm_input_def)
  qed
qed

section \<open>States for the witnesses\<close>

lemma example_fresh:
  "fresh_sockets \<lparr>w_evl = new_event_loop_select False False undefined,
     w_sock = \<lambda>_. example_sock rxs txs, w_errno = 0\<rparr> 3 4"
proof -
  have "evl_inv (new_event_loop_select False False undefined)"
    unfolding evl_inv_def using evl_new_inv by blast
  moreover have "evl_registered (new_event_loop_select False False undefined) = Map.empty"
    by (rule evl_rep_registered [OF evl_new_inv])
  ultimately show ?thesis by (simp add: fresh_sockets_def evl_sk_valid_def FD_SETSIZE_def)
qed

lemma error_event: "tcp_ev_ok p SK_EV_error"
proof -
  have "x AND NOT (m OR x) = 0" for x m :: uint by (auto simp: bit_eq_iff bit_simps)
  then show ?thesis by (simp add: tcp_ev_ok_def) (simp add: event_defs)
qed

section \<open>Properties\<close>

text \<open>
  A relay starts.  On two connected sockets that are not registered yet, the bridge that
  \<open>tcp-relay.c\<close> builds initialises without a failed assertion, both sockets are registered
  and the invariant of the bridge holds.
\<close>

theorem relay_initialises:
  assumes "fresh_sockets w c2p p2s"
  shows "\<exists>br w'. br_bridge_init tcp_io tcp_io (relay_bridge a b c2p p2s) w = Ok (br, w') \<and>
    br_inv tcp_view tcp_view br w'"
  using relay_start [OF assms] by blast

theorem relay_initialises_witness:
  "\<exists>br w'. br_bridge_init tcp_io tcp_io (relay_bridge 1 2 3 4) example_world = Ok (br, w') \<and>
    br_inv tcp_view tcp_view br w'"
  by (rule relay_initialises [OF example_fresh])

text \<open>
  One event on either pipe of a relay, from any state of the invariant.  The callback runs to
  its end: no assertion of the bridge or of the pipes fails, and its loop ends within a number of
  turns computed from the state.  Either the invariant holds again; or the bridge shuts down
  gracefully, both streams having ended and everything received having been sent on; or it shuts
  down on an error, each side having been sent a prefix of what the other side delivered.  Nothing
  but the two pipes is affected.
\<close>

theorem relay_event:
  assumes "br_inv tcp_view tcp_view br w" "br_ev_ok tcp_view tcp_view side br ev"
    "br_fuel tcp_view tcp_view br w \<le> n"
  shows "\<exists>shut br' w'. br_event n tcp_io tcp_io side br ev w = Ok (shut, br', w') \<and>
    br_kept tcp_view tcp_view br w br' w' \<and>
    (case shut of
       None \<Rightarrow> br_inv tcp_view tcp_view br' w'
     | Some g \<Rightarrow> br_dead br' \<and>
         (if g then br_complete tcp_view tcp_view br' w' else br_prefixes tcp_view tcp_view br' w'))"
  using relay_laws(1) [OF assms(1,2)] assms(3) by (simp add: tcp_view_def)

theorem relay_event_witness:
  "\<exists>br w shut br' w'. br_event (br_fuel tcp_view tcp_view br w) tcp_io tcp_io Left_side br SK_EV_error w =
    Ok (shut, br', w')"
proof -
  obtain br w where "br_inv tcp_view tcp_view br w"
    using relay_start [OF example_fresh] by blast
  moreover have "br_ev_ok tcp_view tcp_view Left_side br SK_EV_error"
    using error_event by (simp add: br_ev_ok_def tcp_view_def)
  ultimately show ?thesis using relay_event [OF _ _ order_refl] by blast
qed

text \<open>
  C5. The same for the proxy's client, whose right pipe is a datagram pipe over an atx pipe: with
  a peer whose stream is safe no assertion fails in any layer, the callback ends, and the outcome
  is one of the three.
\<close>

theorem proxy_event:
  assumes "br_inv tcp_view dgm_view br w" "br_ev_ok tcp_view dgm_view side br ev"
    "br_fuel tcp_view dgm_view br w \<le> n"
  shows "\<exists>shut br' w'. br_event n tcp_io dgm_io side br ev w = Ok (shut, br', w') \<and>
    br_kept tcp_view dgm_view br w br' w' \<and>
    (case shut of
       None \<Rightarrow> br_inv tcp_view dgm_view br' w'
     | Some g \<Rightarrow> br_dead br' \<and>
         (if g then br_complete tcp_view dgm_view br' w' else br_prefixes tcp_view dgm_view br' w'))"
  using client_laws(1) [OF assms(1,2)] assms(3) by (simp add: tcp_view_def dgm_view_def)

theorem proxy_event_witness:
  "\<exists>br w shut br' w'. br_event (br_fuel tcp_view dgm_view br w) tcp_io dgm_io Right_side br SK_EV_error w =
    Ok (shut, br', w')"
proof -
  have "safe_stream proxy_size (script_bytes (rx_script (w_sock example_world 4)))"
    by (simp add: safe_stream_def)
  then obtain br w where "br_inv tcp_view dgm_view br w"
    using proxy_client_start [OF example_fresh] by blast
  moreover have "br_ev_ok tcp_view dgm_view Right_side br SK_EV_error"
    using error_event by (simp add: br_ev_ok_def dgm_view_def)
  ultimately show ?thesis using proxy_event [OF _ _ order_refl] by blast
qed

text \<open>
  C3. Data integrity of a relay.  From the start, through any events on its sockets in any order,
  with whatever the rest of the program does in between: what each peer has been sent is a prefix
  of what the other peer sends.  Nothing is lost, duplicated, reordered or made up, whatever part
  of it the sockets take at a time and however often they refuse.
\<close>

theorem relay_integrity:
  assumes "fresh_sockets w c2p p2s"
  shows "\<exists>br w1. br_bridge_init tcp_io tcp_io (relay_bridge a b c2p p2s) w = Ok (br, w1) \<and>
    (\<forall>br' w'. br_reach tcp_view tcp_view br w1 br' w' \<longrightarrow>
       (\<exists>rest. script_bytes (rx_script (w_sock w c2p)) = tx_log (w_sock w' p2s) @ rest) \<and>
       (\<exists>rest. script_bytes (rx_script (w_sock w p2s)) = tx_log (w_sock w' c2p) @ rest))"
  by (rule relay_run [OF assms]) blast

theorem relay_integrity_witness:
  "\<exists>br w1. br_bridge_init tcp_io tcp_io (relay_bridge 1 2 3 4) example_world = Ok (br, w1) \<and>
    tx_log (w_sock w1 4) = []"
proof -
  obtain br w1 where i: "br_bridge_init tcp_io tcp_io (relay_bridge 1 2 3 4) example_world = Ok (br, w1)"
    "\<forall>br' w'. br_reach tcp_view tcp_view br w1 br' w' \<longrightarrow>
       (\<exists>rest. script_bytes (rx_script (w_sock example_world 3)) = tx_log (w_sock w' 4) @ rest) \<and>
       (\<exists>rest. script_bytes (rx_script (w_sock example_world 4)) = tx_log (w_sock w' 3) @ rest)"
    using relay_integrity [OF example_fresh] by blast
  have "\<exists>rest. script_bytes (rx_script (w_sock example_world 3)) = tx_log (w_sock w1 4) @ rest"
    using i(2) [rule_format, OF br_reach.start] by (rule conjunct1)
  then have "tx_log (w_sock w1 4) = []" by simp
  with i(1) show ?thesis by blast
qed





text \<open>
  C24. An empty datagram aborts the process.  When the peer of a datagram pipe sends a frame of
  size 0 the pipe's \<open>recv\<close> returns 0, which the bridge takes for the end of the stream; its
  assertion that \<open>fin_rcvd\<close> is set fails.
\<close>

theorem empty_datagram_aborts:
  assumes "\<not> broken (dg_base (st_pipe src))" "readable (dg_base (st_pipe src))"
    and "dg_rx (st_pipe src) = Some b" "wf_buf b"
    and "next_frame (max_size (st_pipe src)) (buf_bytes b) = Some ([], rest)"
    and "\<not> fin_rcvd (pipe_flags io (dg_io (st_pipe src)))"
    and "writable (pipe_flags dio (st_pipe dst))" "st_pending dst = None"
    and "max_size (st_pipe src) \<le> recv_size src" "recv_size src < 2 ^ 31" "recv_size src \<le> capacity buf"
  shows "br_bridge_rx_tx (dgm_api io) dio src dst (Some buf) w = Stop Assertion_failed"
proof -
  obtain p' where "dgm_pipe_recv io (st_pipe src) (recv_size src) w = Ok (0, [], p', w)"
    "dg_base p' = pipe_flags io (dg_io (st_pipe src))"
    using dgm_recv_found [OF assms(1,3-5,9,10), of io w] by auto
  with assms show ?thesis
    by (simp add: br_bridge_rx_tx_def Let_def)
qed

theorem empty_datagram_aborts_witness:
  "br_bridge_rx_tx dgm_io tcp_io
     (fresh_stream 4 (example_dgm (Some \<lparr>capacity = 1, buf_head = 0, buf_size = 1, buf_data = [0]\<rparr>)))
     (fresh_stream 4 (example_tcp (busy_flags True True)))
     (Some \<lparr>capacity = 4, buf_head = 0, buf_size = 0, buf_data = [0, 0, 0, 0]\<rparr>) example_world = Stop Assertion_failed"
proof -
  let ?b = "\<lparr>capacity = 1, buf_head = 0, buf_size = 1, buf_data = [0]\<rparr>"
  have b: "wf_buf ?b" "buf_bytes ?b = frame [] @ []"
    by (simp_all add: wf_buf_def buf_bytes_def frame_def varint_small)
  have found: "next_frame 4 (buf_bytes ?b) = Some ([], [])"
    unfolding b(2) by (rule next_frame_frame) simp_all
  show ?thesis
    by (rule empty_datagram_aborts [where b = ?b and rest = "[]"]) (use b(1) found in simp_all)
qed



end
