(* ===== verification/Monitor.thy ===== *)
theory Monitor
  imports EvlSelect
begin

unbundle bit_operations_syntax

text \<open>
  The rest of the select() loop of \<open>evl/src.linux/event_loop_select.c\<close>: waiting for events and
  dispatching the callbacks, and taking the loop down.

  What \<open>select\<close> finds ready is data of the model, a \<open>select_reply\<close>; the three sets it returns
  are what of it was asked for.  A callback is a function of the identity that was registered,
  the events, the state \<open>'x\<close> of the rest of the program and the world, which holds the event
  loop, so that a callback can add, change and delete sockets or discard the loop.  The loop over
  the map and the restarts after \<open>goto again\<close> are one function, \<open>evl_dispatch\<close>.

  The lemmas show that the marking walk computes the events of every registered socket, and that
  callbacks which only change event masks are called once each, in the order of the descriptors.
\<close>

section \<open>The code\<close>

datatype select_reply = Sel_error int | Sel_ready "int set" "int set" "int set"

text \<open>One \<open>select\<close> on three sets: the result, the sets, and \<open>errno\<close>.\<close>

definition sys_select ::
  "int \<Rightarrow> int set \<Rightarrow> int set \<Rightarrow> int set \<Rightarrow> select_reply \<Rightarrow> int \<Rightarrow> int \<times> int set \<times> int set \<times> int set \<times> int" where
  "sys_select nfds rs ws xs reply errno =
     (case reply of
        Sel_error e \<Rightarrow> (-1, rs, ws, xs, e)
      | Sel_ready R W X \<Rightarrow>
          let pick = (\<lambda>s S. {sk \<in> s. sk < nfds \<and> sk \<in> S}) in
          (int (card (pick rs R) + card (pick ws W) + card (pick xs X)), pick rs R, pick ws W, pick xs X, errno))"

text \<open>The first walk: \<open>ssk->have\<close> of every socket, and the number of active ones.\<close>

definition evl_have :: "bool \<Rightarrow> bool \<Rightarrow> bool \<Rightarrow> uint" where
  "evl_have r w x = ((if r then SK_EV_readable else 0) OR (if w then SK_EV_writable else 0)) OR
     (if x then SK_EV_error else 0)"

fun evl_mark ::
  "nat \<Rightarrow> int set \<Rightarrow> int set \<Rightarrow> int set \<Rightarrow> evl_select \<Rightarrow> nat option \<Rightarrow> int \<Rightarrow> (int \<times> evl_select) res" where
  "evl_mark 0 rs ws xs evl mi active = Stop Out_of_fuel"
| "evl_mark (Suc n) rs ws xs evl mi active =
     bind_res (map_walk evl_fuel (evl_sockets evl) (evl_mem evl) mi) (\<lambda>mi.
       case mi of None \<Rightarrow> Ok (active, evl)
       | Some a \<Rightarrow>
           bind_res (load_item (evl_mem evl) a) (\<lambda>ssk.
           bind_res (FD_ISSET (ssk_sk ssk) rs) (\<lambda>r.
           bind_res (FD_ISSET (ssk_sk ssk) ws) (\<lambda>w.
           bind_res (FD_ISSET (ssk_sk ssk) xs) (\<lambda>x.
             let have = evl_have r w x in
             evl_mark n rs ws xs (evl\<lparr>evl_mem := (evl_mem evl)(a \<mapsto> ssk\<lparr>ssk_have := have\<rparr>)\<rparr>) (Some a)
               (if have \<noteq> 0 then active + 1 else active))))))"

text \<open>\<open>evl_select_dispose\<close> deletes the first socket of the map until there is none.\<close>

fun evl_dispose_loop :: "nat \<Rightarrow> evl_select \<Rightarrow> evl_select res" where
  "evl_dispose_loop 0 evl = Stop Out_of_fuel"
| "evl_dispose_loop (Suc n) evl =
     bind_res (map_walk evl_fuel (evl_sockets evl) (evl_mem evl) None) (\<lambda>mi.
       case mi of None \<Rightarrow> Ok evl
       | Some a \<Rightarrow>
           bind_res (map_del evl_fuel (evl_sockets evl) (evl_mem evl) a) (\<lambda>(_, head, mem).
             evl_dispose_loop n (evl\<lparr>evl_sockets := head, evl_mem := mem(a := None)\<rparr>)))"

text \<open>What is left after \<open>heap_free(evl)\<close> is the memory of the sockets.\<close>

definition evl_select_dispose :: "evl_select \<Rightarrow> evl_select res" where
  "evl_select_dispose evl = evl_dispose_loop evl_fuel evl"

definition evl_select_discard :: "evl_select \<Rightarrow> evl_select res" where
  "evl_select_discard evl =
     c_assert (\<not> dead evl)
       (let evl = evl\<lparr>dead := True\<rparr> in
        if in_callback evl then Ok evl else evl_select_dispose evl)"

type_synonym 'x evl_cb = "nat \<Rightarrow> uint \<Rightarrow> 'x \<Rightarrow> evl_select world \<Rightarrow> ('x \<times> evl_select world) res"

abbreviation map_evl :: "(evl_select \<Rightarrow> evl_select) \<Rightarrow> evl_select world \<Rightarrow> evl_select world" where
  "map_evl f w \<equiv> w\<lparr>w_evl := f (w_evl w)\<rparr>"

text \<open>
  The second walk, from the item \<open>mi\<close> on.  When a callback changed the map and events are left
  it starts over from the first socket, with \<open>map_touched\<close> cleared.
\<close>

fun evl_dispatch ::
  "nat \<Rightarrow> 'x evl_cb \<Rightarrow> int \<Rightarrow> nat option \<Rightarrow> 'x \<Rightarrow> evl_select world \<Rightarrow> (int \<times> 'x \<times> evl_select world) res" where
  "evl_dispatch 0 cb active mi x w = Stop Out_of_fuel"
| "evl_dispatch (Suc n) cb active mi x w =
     bind_res (map_walk evl_fuel (evl_sockets (w_evl w)) (evl_mem (w_evl w)) mi) (\<lambda>mi.
       case mi of None \<Rightarrow> Ok (0, x, w)
       | Some a \<Rightarrow>
           bind_res (load_item (evl_mem (w_evl w)) a) (\<lambda>ssk.
             let have = ssk_have ssk in
             if have = 0 then evl_dispatch n cb active (Some a) x w
             else
               bind_res (cb (ssk_cb ssk) have x
                   (map_evl (\<lambda>e. e\<lparr>evl_mem := (evl_mem e)(a \<mapsto> ssk\<lparr>ssk_have := 0\<rparr>), in_callback := True\<rparr>) w))
                 (\<lambda>(x, w).
                   let w = map_evl (\<lambda>e. e\<lparr>in_callback := False\<rparr>) w in
                   if dead (w_evl w) then
                     bind_res (evl_select_dispose (w_evl w)) (\<lambda>e. Ok (-1, x, w\<lparr>w_evl := e\<rparr>))
                   else if active - 1 = 0 then Ok (0, x, w)
                   else if map_touched (w_evl w) then
                     evl_dispatch n cb (active - 1) None x (map_evl (\<lambda>e. e\<lparr>map_touched := False\<rparr>) w)
                   else evl_dispatch n cb (active - 1) (Some a) x w)))"

text \<open>
  \<open>evl_select_monitor\<close>; the operating system's answer may depend on the timeout it is given, in
  seconds and microseconds.
\<close>

definition select_timeout :: "nat \<Rightarrow> nat \<times> nat" where
  "select_timeout timeout_ms = (timeout_ms div 1000, 1000 * (timeout_ms mod 1000))"

definition evl_select_monitor ::
  "'x evl_cb \<Rightarrow> (nat \<times> nat \<Rightarrow> select_reply) \<Rightarrow> nat \<Rightarrow> 'x \<Rightarrow> evl_select world \<Rightarrow>
   (int \<times> 'x \<times> evl_select world) res" where
  "evl_select_monitor cb os timeout_ms x w =
     (let evl = w_evl w in
      c_assert (\<not> in_callback evl)
        (if in_callback evl then Ok (-1, x, w)
         else
           let reply = os (select_timeout timeout_ms);
               (r, rs, ws, xs, errno) =
                 (if evl_nfds evl = 0 then sys_select 0 {} {} {} reply (w_errno w)
                  else sys_select (evl_nfds evl) (fds_r evl) (fds_w evl) (fds_x evl) reply (w_errno w));
               w = w\<lparr>w_errno := errno\<rparr>
           in if r < 0 then Ok (-1, x, w)
              else if r = 0 then Ok (0, x, w)
              else
                bind_res (evl_mark evl_fuel rs ws xs evl None 0) (\<lambda>(active, evl).
                  c_assert (active \<noteq> 0)
                    (evl_dispatch (evl_fuel * evl_fuel) cb active None x
                      (w\<lparr>w_evl := evl\<lparr>map_touched := False\<rparr>\<rparr>)))))"


section \<open>Lemmas\<close>

text \<open>What the walk of \<open>evl_mark\<close>, and the flags, may change without the registrations changing.\<close>

definition evl_touch :: "evl_select \<Rightarrow> evl_select \<Rightarrow> bool" where
  "evl_touch e e' \<longleftrightarrow>
     (\<exists>mem' touched calling gone.
        e' = e\<lparr>evl_mem := mem', map_touched := touched, in_callback := calling, dead := gone\<rparr> \<and>
        (\<forall>a. map_option (ssk_have_update (\<lambda>_. 0)) (mem' a) = map_option (ssk_have_update (\<lambda>_. 0)) (evl_mem e a)))"

text \<open>What a callback that only changes event masks leaves alone.\<close>

definition evl_quiet :: "evl_select \<Rightarrow> evl_select \<Rightarrow> bool" where
  "evl_quiet e e' \<longleftrightarrow>
     evl_sockets e' = evl_sockets e \<and> map_touched e' = map_touched e \<and>
     in_callback e' = in_callback e \<and> dead e' = dead e \<and>
     (\<forall>a. map_option (ssk_events_update (\<lambda>_. 0)) (evl_mem e' a) =
          map_option (ssk_events_update (\<lambda>_. 0)) (evl_mem e a))"

lemma evl_quiet_refl [simp]: "evl_quiet e e"
  by (simp add: evl_quiet_def)

lemma evl_quiet_trans: "evl_quiet e1 e2 \<Longrightarrow> evl_quiet e2 e3 \<Longrightarrow> evl_quiet e1 e3"
  by (simp add: evl_quiet_def)

text \<open>Memories whose items agree on the links and on the descriptor hold the same map.\<close>

definition same_map :: "select_sk map_mem \<Rightarrow> select_sk map_mem \<Rightarrow> bool" where
  "same_map mem mem' \<longleftrightarrow>
     (\<forall>a. map_option (\<lambda>s. (mi_l s, mi_r s, mi_p s, ssk_sk s)) (mem' a) =
          map_option (\<lambda>s. (mi_l s, mi_r s, mi_p s, ssk_sk s)) (mem a))"

lemma same_map_Some:
  assumes "same_map mem mem'" "mem a = Some s"
  obtains s' where "mem' a = Some s'" "mi_l s' = mi_l s" "mi_r s' = mi_r s" "mi_p s' = mi_p s" "ssk_sk s' = ssk_sk s"
proof -
  have "map_option (\<lambda>s. (mi_l s, mi_r s, mi_p s, ssk_sk s)) (mem' a) = Some (mi_l s, mi_r s, mi_p s, ssk_sk s)"
    using assms by (simp add: same_map_def)
  then show thesis by (auto intro: that)
qed

lemma same_map_tree: "same_map mem mem' \<Longrightarrow> tree_at mem par v t \<Longrightarrow> tree_at mem' par v t"
proof (induction t arbitrary: par v)
  case (Node l a r)
  then obtain s where s: "mem a = Some s" by (auto split: option.splits)
  obtain s' where "mem' a = Some s'" "mi_l s' = mi_l s" "mi_r s' = mi_r s" "mi_p s' = mi_p s"
    by (rule same_map_Some [OF Node.prems(1) s])
  then show ?case using Node.IH(1,2) [OF Node.prems(1)] Node.prems(2) s by simp
qed simp

lemma same_map_rep:
  assumes "same_map mem mem'" "map_rep ssk_sk head mem t"
  shows "map_rep ssk_sk head mem' t"
proof -
  have "ssk_sk (the (mem' a)) = ssk_sk (the (mem a))" if a: "a \<in> set (inorder t)" for a
  proof -
    obtain s where "mem a = Some s" using tree_at_dom [of mem None "root head" t a] assms(2) a
      by (auto simp: map_rep_def)
    then show ?thesis using same_map_Some [OF assms(1)] by (metis option.sel)
  qed
  then have "map (\<lambda>a. ssk_sk (the (mem' a))) (inorder t) = map (\<lambda>a. ssk_sk (the (mem a))) (inorder t)"
    by (intro map_cong refl)
  then show ?thesis
    using assms same_map_tree [OF assms(1)] unfolding map_rep_def by metis
qed

lemma evl_quiet_map: "evl_quiet e e' \<Longrightarrow> same_map (evl_mem e) (evl_mem e')"
  unfolding same_map_def
proof
  fix a assume "evl_quiet e e'"
  then have "map_option (ssk_events_update (\<lambda>_. 0)) (evl_mem e' a) = map_option (ssk_events_update (\<lambda>_. 0)) (evl_mem e a)"
    by (simp add: evl_quiet_def)
  then have "map_option ((\<lambda>s. (mi_l s, mi_r s, mi_p s, ssk_sk s)) \<circ> ssk_events_update (\<lambda>_. 0)) (evl_mem e' a) =
    map_option ((\<lambda>s. (mi_l s, mi_r s, mi_p s, ssk_sk s)) \<circ> ssk_events_update (\<lambda>_. 0)) (evl_mem e a)"
    by (metis option.map_comp)
  then show "map_option (\<lambda>s. (mi_l s, mi_r s, mi_p s, ssk_sk s)) (evl_mem e' a) =
    map_option (\<lambda>s. (mi_l s, mi_r s, mi_p s, ssk_sk s)) (evl_mem e a)" by (simp add: o_def)
qed

lemma evl_quiet_Some:
  assumes "evl_quiet e e'" "evl_mem e a = Some s"
  obtains s' where "evl_mem e' a = Some s'" "ssk_cb s' = ssk_cb s" "ssk_have s' = ssk_have s"
proof -
  have "map_option (ssk_events_update (\<lambda>_. 0)) (evl_mem e' a) = Some (s\<lparr>ssk_events := 0\<rparr>)"
    using assms by (simp add: evl_quiet_def)
  then obtain s' where s': "evl_mem e' a = Some s'" "s'\<lparr>ssk_events := 0\<rparr> = s\<lparr>ssk_events := 0\<rparr>" by blast
  have "ssk_cb s' = ssk_cb (s'\<lparr>ssk_events := 0\<rparr>)" "ssk_have s' = ssk_have (s'\<lparr>ssk_events := 0\<rparr>)" by simp_all
  with s' show thesis by (intro that [of s']) simp_all
qed

lemma mod_socket_quiet:
  assumes "evl_select_mod_socket sk m e = Ok e'"
  shows "evl_quiet e e'"
proof -
  obtain a s rs ws where "evl_mem e a = Some s"
    "e' = e\<lparr>fds_r := rs, fds_w := ws, evl_mem := (evl_mem e)(a \<mapsto> s\<lparr>ssk_events := m\<rparr>)\<rparr>"
  proof -
    obtain a where a: "find_select_sk e sk = Ok (Some a)"
      using assms by (auto simp: evl_select_mod_socket_def bind_res_eq_Ok split: option.splits)
    have "\<exists>s. evl_mem e a = Some s"
      using assms a by (cases "evl_mem e a") (simp_all add: evl_select_mod_socket_def)
    then obtain s where "evl_mem e a = Some s" by blast
    with assms a show thesis
      by (auto simp: evl_select_mod_socket_def bind_res_eq_Ok intro: that)
  qed
  then show ?thesis by (simp add: evl_quiet_def)
qed

text \<open>The next step of a walk over the sockets.\<close>

lemma map_walk_from:
  assumes "map_rep key head mem t" "height t < n" "inorder t = xs @ ys"
  shows "map_walk n head mem (if xs = [] then None else Some (last xs)) =
    Ok (if ys = [] then None else Some (hd ys))"
proof -
  have at: "tree_at mem None (root head) t" "distinct (inorder t)"
    using assms(1) sorted_distinct by (auto simp: map_rep_def)
  show ?thesis
    using map_walk_first [OF at(1) assms(2)] map_walk_next [OF at assms(2), of "butlast xs" "last xs" ys] assms(3)
    by (cases xs rule: rev_cases) auto
qed

lemma evl_touch_rep:
  assumes "evl_touch e e'" "evl_rep e t reg"
  shows "evl_rep e' t reg"
proof -
  let ?c = "ssk_have_update (\<lambda>_. 0)"
  obtain mem' touched calling gone where e':
    "e' = e\<lparr>evl_mem := mem', map_touched := touched, in_callback := calling, dead := gone\<rparr>"
    "\<And>a. map_option ?c (mem' a) = map_option ?c (evl_mem e a)"
    using assms(1) by (auto simp: evl_touch_def)
  have proj: "map_option (f \<circ> ?c) (mem' a) = map_option (f \<circ> ?c) (evl_mem e a)" for f :: "select_sk \<Rightarrow> 'b" and a
    using e'(2) [of a] by (metis option.map_comp)
  have same: "same_map (evl_mem e) mem'"
    using proj [of "\<lambda>s. (mi_l s, mi_r s, mi_p s, ssk_sk s)"] by (simp add: same_map_def o_def)
  have dom: "dom mem' = dom (evl_mem e)"
  proof -
    have "(mem' a = None) = (evl_mem e a = None)" for a using e'(2) [of a] by (metis option.map_disc_iff)
    then show ?thesis by (simp add: dom_def)
  qed
  have key: "map_option (\<lambda>s. (ssk_sk s, ssk_events s, ssk_cb s)) (mem' a) =
    map_option (\<lambda>s. (ssk_sk s, ssk_events s, ssk_cb s)) (evl_mem e a)" for a
    using proj [of "\<lambda>s. (ssk_sk s, ssk_events s, ssk_cb s)"] by (simp add: o_def)
  have entries: "(\<exists>s. mem' a = Some s \<and> ssk_sk s = sk \<and> ssk_events s = m \<and> ssk_cb s = c) \<longleftrightarrow>
    (\<exists>s. evl_mem e a = Some s \<and> ssk_sk s = sk \<and> ssk_events s = m \<and> ssk_cb s = c)" for a sk m c
    using key [of a] by (cases "mem' a"; cases "evl_mem e a") auto
  have "\<forall>sk m c. reg sk = Some (m, c) \<longleftrightarrow>
    (\<exists>a s. evl_mem e a = Some s \<and> ssk_sk s = sk \<and> ssk_events s = m \<and> ssk_cb s = c)"
    using assms(2) by (simp add: evl_rep_def)
  from this [folded entries] have reg: "\<forall>sk m c. reg sk = Some (m, c) \<longleftrightarrow>
    (\<exists>a s. mem' a = Some s \<and> ssk_sk s = sk \<and> ssk_events s = m \<and> ssk_cb s = c)" .
  have "map_rep ssk_sk (evl_sockets e) mem' t"
    using same_map_rep [OF same] assms(2) by (simp add: evl_rep_def)
  with assms(2) dom reg show ?thesis unfolding evl_rep_def e'(1) by simp
qed

text \<open>The callbacks that are due: those of the items \<open>xs\<close> whose \<open>have\<close> is set.\<close>

definition evl_calls :: "select_sk map_mem \<Rightarrow> nat list \<Rightarrow> (nat \<times> uint) list" where
  "evl_calls mem xs =
     concat (map (\<lambda>a. let s = the (mem a) in if ssk_have s = 0 then [] else [(ssk_cb s, ssk_have s)]) xs)"

lemma evl_calls_simps [simp]:
  "evl_calls mem [] = []"
  "evl_calls mem (a # xs) =
     (if ssk_have (the (mem a)) = 0 then [] else [(ssk_cb (the (mem a)), ssk_have (the (mem a)))]) @ evl_calls mem xs"
  by (simp_all add: evl_calls_def Let_def)

lemma evl_calls_cong: "(\<And>a. a \<in> set xs \<Longrightarrow> mem' a = mem a) \<Longrightarrow> evl_calls mem' xs = evl_calls mem xs"
  by (induction xs) simp_all

lemma evl_calls_quiet:
  assumes "evl_quiet e e'" "\<And>a. a \<in> set xs \<Longrightarrow> evl_mem e a \<noteq> None"
  shows "evl_calls (evl_mem e') xs = evl_calls (evl_mem e) xs"
  using assms(2)
proof (induction xs)
  case (Cons a xs)
  then obtain s where s: "evl_mem e a = Some s" by fastforce
  obtain s' where "evl_mem e' a = Some s'" "ssk_cb s' = ssk_cb s" "ssk_have s' = ssk_have s"
    by (rule evl_quiet_Some [OF assms(1) s])
  with Cons s show ?case by simp
qed simp

text \<open>The marking walk.\<close>

definition mark_item :: "int set \<Rightarrow> int set \<Rightarrow> int set \<Rightarrow> select_sk \<Rightarrow> select_sk" where
  "mark_item R W X s = s\<lparr>ssk_have := evl_have (ssk_sk s \<in> R) (ssk_sk s \<in> W) (ssk_sk s \<in> X)\<rparr>"

definition mark_items :: "int set \<Rightarrow> int set \<Rightarrow> int set \<Rightarrow> nat list \<Rightarrow> select_sk map_mem \<Rightarrow> select_sk map_mem" where
  "mark_items R W X xs mem = (\<lambda>a. if a \<in> set xs then map_option (mark_item R W X) (mem a) else mem a)"

lemma mark_item_sel [simp]:
  "mi_l (mark_item R W X s) = mi_l s" "mi_r (mark_item R W X s) = mi_r s" "mi_p (mark_item R W X s) = mi_p s"
  "ssk_sk (mark_item R W X s) = ssk_sk s" "ssk_events (mark_item R W X s) = ssk_events s"
  "ssk_cb (mark_item R W X s) = ssk_cb s"
  "ssk_have (mark_item R W X s) = evl_have (ssk_sk s \<in> R) (ssk_sk s \<in> W) (ssk_sk s \<in> X)"
  "(mark_item R W X s)\<lparr>ssk_have := 0\<rparr> = s\<lparr>ssk_have := 0\<rparr>"
  by (simp_all add: mark_item_def)

lemma mark_items_Cons:
  assumes "a \<notin> set xs" "mem a = Some s"
  shows "mark_items R W X (a # xs) mem = mark_items R W X xs (mem(a \<mapsto> mark_item R W X s))"
  using assms by (auto simp: mark_items_def)

lemma evl_mark_run:
  assumes "map_rep ssk_sk (evl_sockets e) (evl_mem e) t" "height t < evl_fuel" "inorder t = as @ bs"
    and "\<And>b. b \<in> set_tree t \<Longrightarrow> \<exists>s. evl_mem e b = Some s \<and> 0 \<le> ssk_sk s \<and> ssk_sk s < FD_SETSIZE"
    and "length bs < n"
  shows "evl_mark n R W X e (if as = [] then None else Some (last as)) k =
    Ok (k + int (length (evl_calls (mark_items R W X bs (evl_mem e)) bs)), e\<lparr>evl_mem := mark_items R W X bs (evl_mem e)\<rparr>)"
  using assms
proof (induction bs arbitrary: as n k e)
  case Nil
  obtain m where n: "n = Suc m" using Nil.prems by (cases n) auto
  have "mark_items R W X [] (evl_mem e) = evl_mem e" by (simp add: mark_items_def)
  then show ?case using map_walk_from [OF Nil.prems(1-3)] n by simp
next
  case (Cons b bs)
  obtain m where n: "n = Suc m" "length bs < m" using Cons.prems by (cases n) auto
  have b: "b \<in> set_tree t" "b \<notin> set bs"
    using Cons.prems(1,3) sorted_distinct [of "\<lambda>a. ssk_sk (the (evl_mem e a))" "inorder t"]
    by (auto simp: map_rep_def simp flip: set_inorder)
  obtain s where s: "evl_mem e b = Some s" "0 \<le> ssk_sk s" "ssk_sk s < FD_SETSIZE" using Cons.prems(4) [OF b(1)] by blast
  let ?e = "e\<lparr>evl_mem := (evl_mem e)(b \<mapsto> mark_item R W X s)\<rparr>"
  have rep: "map_rep ssk_sk (evl_sockets ?e) (evl_mem ?e) t"
    using Cons.prems(1) map_rep_payload [of "evl_mem e" b s "mark_item R W X s" ssk_sk] s(1) by simp
  have keys: "\<exists>s'. evl_mem ?e x = Some s' \<and> 0 \<le> ssk_sk s' \<and> ssk_sk s' < FD_SETSIZE" if "x \<in> set_tree t" for x
    using Cons.prems(4) [OF that] s by auto
  have "evl_mark m R W X ?e (if as @ [b] = [] then None else Some (last (as @ [b]))) j =
    Ok (j + int (length (evl_calls (mark_items R W X (b # bs) (evl_mem e)) bs)),
      e\<lparr>evl_mem := mark_items R W X (b # bs) (evl_mem e)\<rparr>)" for j
    using Cons.IH [OF rep Cons.prems(2) _ keys n(2), of "as @ [b]" j] Cons.prems(3)
    by (simp add: mark_items_Cons [OF b(2), of "evl_mem e", OF s(1)] del: fun_upd_apply)
  note IH = this [simplified]
  have have_b: "the (mark_items R W X (b # bs) (evl_mem e) b) = mark_item R W X s"
    using s(1) by (simp add: mark_items_def)
  have upd: "s\<lparr>ssk_have := evl_have (ssk_sk s \<in> R) (ssk_sk s \<in> W) (ssk_sk s \<in> X)\<rparr> = mark_item R W X s"
    by (simp add: mark_item_def)
  show ?case
    using map_walk_from [OF Cons.prems(1-3)] s n(1) IH
    by (simp add: FD_ISSET_def Let_def upd have_b)
qed

text \<open>
  What \<open>monitor\<close> is to do: for the registered sockets in the order of their descriptors, the
  callbacks with the events found for them.
\<close>

definition evl_ready :: "(int \<rightharpoonup> uint \<times> nat) \<Rightarrow> int set \<Rightarrow> int set \<Rightarrow> int set \<Rightarrow> (nat \<times> uint) list" where
  "evl_ready reg R W X =
     concat (map (\<lambda>sk. let have = evl_have (sk \<in> R) (sk \<in> W) (sk \<in> X) in
         if have = 0 then [] else [(snd (the (reg sk)), have)]) (sorted_list_of_set (dom reg)))"

lemma evl_rep_items:
  assumes "evl_rep e t reg" "a \<in> set_tree t"
  obtains s where "evl_mem e a = Some s" "reg (ssk_sk s) = Some (ssk_events s, ssk_cb s)"
    "0 \<le> ssk_sk s" "ssk_sk s < FD_SETSIZE"
proof -
  obtain s where s: "evl_mem e a = Some s" using assms unfolding evl_rep_def dom_def by blast
  then have reg: "reg (ssk_sk s) = Some (ssk_events s, ssk_cb s)" using assms(1) unfolding evl_rep_def by blast
  then have "ssk_sk s \<in> dom reg" by blast
  then have "0 \<le> ssk_sk s \<and> ssk_sk s < FD_SETSIZE" using assms(1) unfolding evl_rep_def by blast
  with s reg show thesis by (intro that [of s]) auto
qed

lemma evl_rep_sorted:
  assumes rep: "evl_rep e t reg"
  shows "map (\<lambda>a. ssk_sk (the (evl_mem e a))) (inorder t) = sorted_list_of_set (dom reg)"
proof -
  let ?ks = "map (\<lambda>a. ssk_sk (the (evl_mem e a))) (inorder t)"
  have "set ?ks = dom reg"
  proof
    show "set ?ks \<subseteq> dom reg"
    proof
      fix sk assume "sk \<in> set ?ks"
      then obtain a where a: "a \<in> set_tree t" "sk = ssk_sk (the (evl_mem e a))" by auto
      show "sk \<in> dom reg" by (rule evl_rep_items [OF rep a(1)]) (use a(2) in auto)
    qed
    show "dom reg \<subseteq> set ?ks"
    proof
      fix sk assume "sk \<in> dom reg"
      then obtain m c where reg: "reg sk = Some (m, c)" by auto
      have "\<forall>sk m c. reg sk = Some (m, c) \<longleftrightarrow>
          (\<exists>a s. evl_mem e a = Some s \<and> ssk_sk s = sk \<and> ssk_events s = m \<and> ssk_cb s = c)"
        using rep by (simp add: evl_rep_def)
      with reg obtain a s where s: "evl_mem e a = Some s" "ssk_sk s = sk" by blast
      have "dom (evl_mem e) = set_tree t" using rep unfolding evl_rep_def by blast
      with s(1) have "a \<in> set (inorder t)" by auto
      then have "ssk_sk (the (evl_mem e a)) \<in> set ?ks" by simp
      with s show "sk \<in> set ?ks" by simp
    qed
  qed
  moreover have "sorted_wrt (<) ?ks" using rep by (simp add: evl_rep_def map_rep_def)
  ultimately show ?thesis
    using sorted_list_of_set.idem_if_sorted_distinct [of ?ks] by (simp add: strict_sorted_iff)
qed

lemma evl_mark_law:
  assumes rep: "evl_rep e t reg"
  obtains e' where "evl_mark evl_fuel R W X e None 0 = Ok (int (length (evl_ready reg R W X)), e')"
    "evl_touch e e'" "evl_sockets e' = evl_sockets e" "in_callback e' = in_callback e" "dead e' = dead e"
    "evl_calls (evl_mem e') (inorder t) = evl_ready reg R W X"
proof -
  have map: "map_rep ssk_sk (evl_sockets e) (evl_mem e) t" using rep by (simp add: evl_rep_def)
  let ?mem = "mark_items R W X (inorder t) (evl_mem e)"
  have len: "length (inorder t) < evl_fuel" using evl_rep_height(2) [OF rep] by (simp add: evl_fuel_def)
  have keys: "\<exists>s. evl_mem e b = Some s \<and> 0 \<le> ssk_sk s \<and> ssk_sk s < FD_SETSIZE" if "b \<in> set_tree t" for b
    by (rule evl_rep_items [OF rep that]) blast
  have "evl_calls ?mem xs = concat (map (\<lambda>sk. let have = evl_have (sk \<in> R) (sk \<in> W) (sk \<in> X) in
      if have = 0 then [] else [(snd (the (reg sk)), have)]) (map (\<lambda>a. ssk_sk (the (evl_mem e a))) xs))"
    if "set xs \<subseteq> set_tree t" for xs
    using that
  proof (induction xs)
    case (Cons a xs)
    then obtain s where "evl_mem e a = Some s" "reg (ssk_sk s) = Some (ssk_events s, ssk_cb s)"
      by (auto elim: evl_rep_items [OF rep])
    with Cons show ?case by (simp add: Let_def mark_items_def flip: set_inorder)
  qed simp
  then have calls: "evl_calls ?mem (inorder t) = evl_ready reg R W X"
    by (simp add: evl_ready_def flip: evl_rep_sorted [OF rep])
  have "evl_touch e (e\<lparr>evl_mem := ?mem\<rparr>)"
    unfolding evl_touch_def
    by (intro exI [of _ ?mem] exI [of _ "map_touched e"] exI [of _ "in_callback e"] exI [of _ "dead e"])
      (simp add: mark_items_def option.map_comp o_def)
  moreover have "evl_mark evl_fuel R W X e None 0 = Ok (int (length (evl_ready reg R W X)), e\<lparr>evl_mem := ?mem\<rparr>)"
    using evl_mark_run [OF map evl_rep_height(1) [OF rep], of "[]" "inorder t" evl_fuel R W X 0] len keys calls by simp
  ultimately show thesis using calls by (intro that [of "e\<lparr>evl_mem := ?mem\<rparr>"]) simp_all
qed

lemma evl_touchI:
  assumes "\<And>a. map_option (ssk_have_update (\<lambda>_. 0)) (mem' a) = map_option (ssk_have_update (\<lambda>_. 0)) (evl_mem e a)"
  shows "evl_touch e (e\<lparr>evl_mem := mem', map_touched := t, in_callback := c, dead := d\<rparr>)"
  using assms by (auto simp: evl_touch_def)

lemma evl_touch_have:
  "evl_mem e a = Some s \<Longrightarrow> evl_touch e (e\<lparr>evl_mem := (evl_mem e)(a \<mapsto> s\<lparr>ssk_have := h\<rparr>), in_callback := c\<rparr>)"
  using evl_touchI [where mem' = "(evl_mem e)(a \<mapsto> s\<lparr>ssk_have := h\<rparr>)" and e = e and t = "map_touched e" and c = c and d = "dead e"]
  by simp

lemma evl_touch_flags: "evl_touch e (e\<lparr>in_callback := c\<rparr>)" "evl_touch e (e\<lparr>map_touched := c\<rparr>)"
  using evl_touchI [where mem' = "evl_mem e" and e = e and t = "map_touched e" and c = c and d = "dead e"]
    evl_touchI [where mem' = "evl_mem e" and e = e and t = c and c = "in_callback e" and d = "dead e"]
  by simp_all

text \<open>A quiet callback for the socket \<open>b\<close>, and the loop after it.\<close>

lemma dispatch_after:
  assumes rep: "map_rep ssk_sk (evl_sockets e) (evl_mem e) t" and split: "inorder t = as @ b # bs"
    and s: "evl_mem e b = Some s"
    and quiet: "evl_quiet (e\<lparr>evl_mem := (evl_mem e)(b \<mapsto> s\<lparr>ssk_have := 0\<rparr>), in_callback := True\<rparr>) e'" (is "evl_quiet ?e1 e'")
  shows "map_rep ssk_sk (evl_sockets e') (evl_mem e') t" "evl_calls (evl_mem e') bs = evl_calls (evl_mem e) bs"
proof -
  have at: "tree_at (evl_mem e) None (root (evl_sockets e)) t" "distinct (inorder t)"
    using rep sorted_distinct by (auto simp: map_rep_def)
  show "map_rep ssk_sk (evl_sockets e') (evl_mem e') t"
    using rep same_map_rep [OF evl_quiet_map [OF quiet], of "evl_sockets e" t] quiet s
      map_rep_payload [of "evl_mem e" b s "s\<lparr>ssk_have := 0\<rparr>" ssk_sk "evl_sockets e" t]
    by (simp add: evl_quiet_def del: fun_upd_apply)
  have "evl_calls (evl_mem e') bs = evl_calls (evl_mem ?e1) bs"
  proof (rule evl_calls_quiet [OF quiet])
    fix a assume "a \<in> set bs"
    then have "a \<in> set_tree t" using split by (simp flip: set_inorder)
    then show "evl_mem ?e1 a \<noteq> None" using tree_at_dom [OF at(1)] by simp
  qed
  also have "\<dots> = evl_calls (evl_mem e) bs" by (rule evl_calls_cong) (use at(2) split in auto)
  finally show "evl_calls (evl_mem e') bs = evl_calls (evl_mem e) bs" .
qed

text \<open>
  Dispatching to callbacks that only change masks: an assertion \<open>J\<close> on the events still due,
  the state and the world that each callback takes one step further holds at the end.
\<close>

lemma evl_dispatch_run:
  fixes J :: "(nat \<times> uint) list \<Rightarrow> 'x \<Rightarrow> evl_select world \<Rightarrow> bool"
  assumes stable: "\<And>evs x w e'. J evs x w \<Longrightarrow> evl_touch (w_evl w) e' \<Longrightarrow> J evs x (w\<lparr>w_evl := e'\<rparr>)"
    and step: "\<And>c h evs x w. J ((c, h) # evs) x w \<Longrightarrow>
      \<exists>x' w'. cb c h x w = Ok (x', w') \<and> evl_quiet (w_evl w) (w_evl w') \<and> J evs x' w'"
  shows "map_rep ssk_sk (evl_sockets (w_evl w)) (evl_mem (w_evl w)) t \<Longrightarrow> height t < evl_fuel \<Longrightarrow>
    inorder t = as @ bs \<Longrightarrow> \<not> dead (w_evl w) \<Longrightarrow> \<not> map_touched (w_evl w) \<Longrightarrow> \<not> in_callback (w_evl w) \<Longrightarrow>
    J (evl_calls (evl_mem (w_evl w)) bs) x w \<Longrightarrow> length bs < n \<Longrightarrow>
    \<exists>x' w'. evl_dispatch n cb (int (length (evl_calls (evl_mem (w_evl w)) bs)))
        (if as = [] then None else Some (last as)) x w = Ok (0, x', w') \<and> J [] x' w' \<and>
      \<not> dead (w_evl w') \<and> \<not> in_callback (w_evl w') \<and>
      map_rep ssk_sk (evl_sockets (w_evl w')) (evl_mem (w_evl w')) t"
proof (induction bs arbitrary: as n x w)
  case Nil
  then obtain m where n: "n = Suc m" by (cases n) auto
  then show ?case using map_walk_from [OF Nil.prems(1-3)] Nil.prems by auto
next
  case (Cons b bs)
  obtain m where n: "n = Suc m" "length bs < m" using Cons.prems(8) by (cases n) auto
  let ?e = "w_evl w"
  have at: "tree_at (evl_mem ?e) None (root (evl_sockets ?e)) t" "distinct (inorder t)"
    using Cons.prems(1) sorted_distinct by (auto simp: map_rep_def)
  have walk: "map_walk evl_fuel (evl_sockets ?e) (evl_mem ?e) (if as = [] then None else Some (last as)) = Ok (Some b)"
    using map_walk_from [OF Cons.prems(1-3)] by simp
  have b: "b \<in> set_tree t" "b \<notin> set bs" using Cons.prems(3) at(2) by (simp_all flip: set_inorder)
  then obtain s where s: "evl_mem ?e b = Some s" using tree_at_dom [OF at(1)] by blast
  have last: "(if as @ [b] = [] then None else Some (last (as @ [b]))) = Some b" by simp
  have split: "inorder t = (as @ [b]) @ bs" using Cons.prems(3) by simp
  show ?case
  proof (cases "ssk_have s = 0")
    case True
    then have "evl_calls (evl_mem ?e) (b # bs) = evl_calls (evl_mem ?e) bs" using s by simp
    then show ?thesis
      using Cons.IH [OF Cons.prems(1,2) split Cons.prems(4-6) _ n(2), of x] Cons.prems(7) True s n(1) walk last
      by (simp add: Let_def)
  next
    case False
    let ?evs = "evl_calls (evl_mem ?e) bs"
    let ?w1 = "map_evl (\<lambda>e. e\<lparr>evl_mem := (evl_mem e)(b \<mapsto> s\<lparr>ssk_have := 0\<rparr>), in_callback := True\<rparr>) w"
    have calls: "evl_calls (evl_mem ?e) (b # bs) = (ssk_cb s, ssk_have s) # ?evs" using s False by simp
    have "J ((ssk_cb s, ssk_have s) # ?evs) x ?w1"
      using stable [OF Cons.prems(7) evl_touch_have [of ?e b s True 0, OF s]] calls by simp
    then obtain x' w2 where cb: "cb (ssk_cb s) (ssk_have s) x ?w1 = Ok (x', w2)"
      "evl_quiet (w_evl ?w1) (w_evl w2)" "J ?evs x' w2"
      using step by blast
    let ?w3 = "map_evl (\<lambda>e. e\<lparr>in_callback := False\<rparr>) w2"
    have "evl_quiet (?e\<lparr>evl_mem := (evl_mem ?e)(b \<mapsto> s\<lparr>ssk_have := 0\<rparr>), in_callback := True\<rparr>) (w_evl w2)"
      using cb(2) by simp
    note after = dispatch_after [OF Cons.prems(1,3) s this]
    have rep: "map_rep ssk_sk (evl_sockets (w_evl ?w3)) (evl_mem (w_evl ?w3)) t"
      and same: "evl_calls (evl_mem (w_evl ?w3)) bs = ?evs"
      using after by simp_all
    have flags: "\<not> dead (w_evl ?w3)" "\<not> map_touched (w_evl ?w3)" "\<not> in_callback (w_evl ?w3)"
      using cb(2) Cons.prems(4,5) by (simp_all add: evl_quiet_def)
    have J3: "J ?evs x' ?w3"
      by (rule stable [OF cb(3) evl_touch_flags(1)])
    show ?thesis
    proof (cases "?evs = []")
      case True
      then show ?thesis using cb(1) walk s False n(1) calls flags J3 rep by (auto simp: Let_def)
    next
      case evs: False
      then obtain x4 w4 where "evl_dispatch m cb (int (length ?evs)) (Some b) x' ?w3 = Ok (0, x4, w4)" "J [] x4 w4"
        "\<not> dead (w_evl w4)" "\<not> in_callback (w_evl w4)" "map_rep ssk_sk (evl_sockets (w_evl w4)) (evl_mem (w_evl w4)) t"
        using Cons.IH [OF rep Cons.prems(2) split flags _ n(2), of x'] J3 unfolding same last by blast
      then show ?thesis using cb(1) walk s False n(1) calls flags evs by (auto simp: Let_def)
    qed
  qed
qed

text \<open>The callbacks an answer of \<open>select\<close> leads to, in terms of what is registered.\<close>

definition evl_due :: "(int \<rightharpoonup> uint \<times> nat) \<Rightarrow> select_reply \<Rightarrow> (nat \<times> uint) list" where
  "evl_due reg reply =
     (case reply of
        Sel_error e \<Rightarrow> []
      | Sel_ready R W X \<Rightarrow>
          evl_ready reg (wanting reg SK_EV_readable \<inter> R) (wanting reg SK_EV_writable \<inter> W) (dom reg \<inter> X))"

lemma evl_have_zero [simp]: "evl_have r w x = 0 \<longleftrightarrow> \<not> r \<and> \<not> w \<and> \<not> x"
  by (cases r; cases w; cases x) (simp_all add: evl_have_def event_defs)

lemma wanting_dom: "wanting reg f \<subseteq> dom reg"
  by (auto simp: wanting_def split: option.splits)

lemma evl_ready_Nil:
  assumes "finite (dom reg)" "R \<subseteq> dom reg" "W \<subseteq> dom reg" "X \<subseteq> dom reg"
  shows "evl_ready reg R W X = [] \<longleftrightarrow> R = {} \<and> W = {} \<and> X = {}"
  using assms by (auto simp: evl_ready_def Let_def split: if_splits) blast+

lemma card_sum_pos:
  "finite A \<Longrightarrow> finite B \<Longrightarrow> finite C \<Longrightarrow> 0 < int (card A + card B + card C) \<longleftrightarrow> \<not> (A = {} \<and> B = {} \<and> C = {})"
  using card_gt_0_iff [of A] card_gt_0_iff [of B] card_gt_0_iff [of C] by auto

lemma evl_rep_finite:
  assumes "evl_rep e t reg"
  shows "finite (dom reg)"
proof (rule finite_subset)
  show "dom reg \<subseteq> {0..<FD_SETSIZE}" using assms unfolding evl_rep_def by fastforce
qed simp

text \<open>What \<open>select\<close> returns for the sets of the loop.\<close>

lemma monitor_select:
  assumes rep: "evl_rep e t reg" and reply: "reply = Sel_ready R W X"
  shows "(if evl_nfds e = 0 then sys_select 0 {} {} {} reply errno
      else sys_select (evl_nfds e) (fds_r e) (fds_w e) (fds_x e) reply errno) =
    (int (card (wanting reg SK_EV_readable \<inter> R) + card (wanting reg SK_EV_writable \<inter> W) + card (dom reg \<inter> X)),
     wanting reg SK_EV_readable \<inter> R, wanting reg SK_EV_writable \<inter> W, dom reg \<inter> X, errno)"
proof -
  have nfds: "sk < evl_nfds e \<and> 0 \<le> sk" if "sk \<in> dom reg" for sk
    using rep that unfolding evl_rep_def by blast
  have sets: "fds_r e = wanting reg SK_EV_readable" "fds_w e = wanting reg SK_EV_writable" "fds_x e = dom reg"
    using rep by (simp_all add: evl_rep_def)
  have pick: "{sk \<in> S. sk < evl_nfds e \<and> sk \<in> T} = S \<inter> T" if "S \<subseteq> dom reg" for S T
    using that nfds by auto
  have none: "dom reg = {}" if "evl_nfds e = 0" using nfds that by fastforce
  have sub: "wanting reg SK_EV_readable \<subseteq> dom reg" "wanting reg SK_EV_writable \<subseteq> dom reg" by (rule wanting_dom)+
  show ?thesis
    using none sub reply pick [OF wanting_dom] pick [OF order_refl] by (auto simp: sys_select_def Let_def sets)
qed

lemma evl_monitor_run:
  fixes J :: "(nat \<times> uint) list \<Rightarrow> 'x \<Rightarrow> evl_select world \<Rightarrow> bool"
  assumes inv: "evl_inv (w_evl w)" "\<not> in_callback (w_evl w)" "\<not> dead (w_evl w)"
    and stable: "\<And>evs x w e'. J evs x w \<Longrightarrow> evl_touch (w_evl w) e' \<Longrightarrow> J evs x (w\<lparr>w_evl := e'\<rparr>)"
    and step: "\<And>c h evs x w. J ((c, h) # evs) x w \<Longrightarrow>
      \<exists>x' w'. cb c h x w = Ok (x', w') \<and> evl_quiet (w_evl w) (w_evl w') \<and> J evs x' w'"
    and start: "\<And>errno. J (evl_due (evl_registered (w_evl w)) (os (select_timeout ms))) x (w\<lparr>w_errno := errno\<rparr>)"
  shows "\<exists>r x' w'. evl_select_monitor cb os ms x w = Ok (r, x', w') \<and> J [] x' w' \<and>
    (r = 0 \<or> r = -1) \<and> \<not> in_callback (w_evl w') \<and> \<not> dead (w_evl w')"
proof -
  let ?e = "w_evl w" and ?reg = "evl_registered (w_evl w)"
  obtain t where rep: "evl_rep ?e t ?reg"
    using inv(1) evl_rep_registered by (metis evl_inv_def)
  have fin: "finite (dom ?reg)" by (rule evl_rep_finite [OF rep])
  show ?thesis
  proof (cases "os (select_timeout ms)")
    case (Sel_error err)
    then show ?thesis
      using inv start [of err] by (simp add: evl_select_monitor_def sys_select_def evl_due_def Let_def)
  next
    case (Sel_ready R W X)
    let ?R = "wanting ?reg SK_EV_readable \<inter> R" and ?W = "wanting ?reg SK_EV_writable \<inter> W" and ?X = "dom ?reg \<inter> X"
    have sub: "?R \<subseteq> dom ?reg" "?W \<subseteq> dom ?reg" "?X \<subseteq> dom ?reg" using wanting_dom by blast+
    note sel = monitor_select [OF rep Sel_ready, where errno = "w_errno w"]
    have due: "evl_due ?reg (os (select_timeout ms)) = evl_ready ?reg ?R ?W ?X"
      using Sel_ready by (simp add: evl_due_def)
    have fin3: "finite ?R" "finite ?W" "finite ?X" using sub fin finite_subset by blast+
    have J: "J (evl_ready ?reg ?R ?W ?X) x w"
      using start [of "w_errno w"] unfolding due by simp
    show ?thesis
    proof (cases "evl_ready ?reg ?R ?W ?X = []")
      case True
      then have "int (card ?R + card ?W + card ?X) = 0" using evl_ready_Nil [OF fin sub] by simp
      with J True inv show ?thesis
        unfolding evl_select_monitor_def Let_def sel by simp
    next
      case False
      then have pos: "0 < int (card ?R + card ?W + card ?X)"
        using evl_ready_Nil [OF fin sub] unfolding card_sum_pos [OF fin3] by simp
      obtain e' where m: "evl_mark evl_fuel ?R ?W ?X ?e None 0 = Ok (int (length (evl_ready ?reg ?R ?W ?X)), e')"
        "evl_touch ?e e'" "evl_sockets e' = evl_sockets ?e" "in_callback e' = in_callback ?e" "dead e' = dead ?e"
        "evl_calls (evl_mem e') (inorder t) = evl_ready ?reg ?R ?W ?X"
        by (rule evl_mark_law [OF rep])
      let ?w = "w\<lparr>w_evl := e'\<lparr>map_touched := False\<rparr>\<rparr>"
      have rep': "evl_rep e' t ?reg" by (rule evl_touch_rep [OF m(2) rep])
      then have map: "map_rep ssk_sk (evl_sockets (w_evl ?w)) (evl_mem (w_evl ?w)) t" by (simp add: evl_rep_def)
      have "J (evl_ready ?reg ?R ?W ?X) x (w\<lparr>w_evl := e'\<rparr>)" by (rule stable [OF J m(2)])
      from stable [OF this, of "e'\<lparr>map_touched := False\<rparr>"]
      have J': "J (evl_calls (evl_mem (w_evl ?w)) (inorder t)) x ?w" using m(6) evl_touch_flags(2) by simp
      have len: "length (inorder t) < evl_fuel * evl_fuel"
        using evl_rep_height(2) [OF rep] by (simp add: evl_fuel_def)
      have "\<exists>x' w'. evl_dispatch (evl_fuel * evl_fuel) cb (int (length (evl_calls (evl_mem (w_evl ?w)) (inorder t))))
          (if [] = ([] :: nat list) then None else Some (last [])) x ?w = Ok (0, x', w') \<and> J [] x' w' \<and>
        \<not> dead (w_evl w') \<and> \<not> in_callback (w_evl w') \<and>
        map_rep ssk_sk (evl_sockets (w_evl w')) (evl_mem (w_evl w')) t"
        by (rule evl_dispatch_run [where J = J, OF stable step map evl_rep_height(1) [OF rep] _ _ _ _ J' len])
          (use m(4,5) inv in simp_all)
      then obtain x' w' where d: "evl_dispatch (evl_fuel * evl_fuel) cb (int (length (evl_ready ?reg ?R ?W ?X))) None x ?w =
          Ok (0, x', w')" "J [] x' w'" "\<not> dead (w_evl w')" "\<not> in_callback (w_evl w')"
        using m(6) by auto
      have "evl_select_monitor cb os ms x w = Ok (0, x', w')"
        unfolding evl_select_monitor_def Let_def sel using pos m(1) d(1) inv(2) False by simp
      with d show ?thesis by blast
    qed
  qed
qed

section \<open>Taking the loop down\<close>

text \<open>The first socket of the map has no left child, so that it can be deleted.\<close>

lemma first_no_left:
  "tree_at mem par v t \<Longrightarrow> inorder t = a # ys \<Longrightarrow> \<exists>s. mem a = Some s \<and> mi_l s = None"
proof (induction t arbitrary: par v ys)
  case (Node l x r)
  then obtain s where s: "mem x = Some s" "tree_at mem (Some x) (mi_l s) l" by (auto split: option.splits)
  show ?case
  proof (cases l)
    case Leaf
    then show ?thesis using s Node.prems(2) by simp
  next
    case (Node l' y r')
    then have "inorder l \<noteq> []" by simp
    then obtain b zs where l: "inorder l = b # zs" by (cases "inorder l") blast+
    with Node.prems(2) have "inorder l = a # zs" by simp
    then show ?thesis using Node.IH(1) s(2) by blast
  qed
qed simp

lemma map_rep_card:
  assumes "map_rep key head mem t"
  shows "length (inorder t) = card (set_tree t)" "height t \<le> card (set_tree t)"
proof -
  have "distinct (inorder t)" using assms sorted_distinct by (auto simp: map_rep_def)
  then show len: "length (inorder t) = card (set_tree t)" using distinct_card by fastforce
  show "height t \<le> card (set_tree t)" using height_le_size_tree [of t] len by simp
qed

lemma evl_dispose_run:
  "map_rep ssk_sk (evl_sockets e) (evl_mem e) t \<Longrightarrow> comp (evl_sockets e) = select_sk_comp \<Longrightarrow>
   dom (evl_mem e) = set_tree t \<Longrightarrow> card (set_tree t) < n \<Longrightarrow> card (set_tree t) < evl_fuel \<Longrightarrow>
   \<exists>e'. evl_dispose_loop n e = Ok e' \<and> evl_mem e' = Map.empty \<and> root (evl_sockets e') = None"
proof (induction n arbitrary: e t)
  case (Suc n)
  have h: "height t < evl_fuel" using map_rep_card [OF Suc.prems(1)] Suc.prems(5) by simp
  have walk: "map_walk evl_fuel (evl_sockets e) (evl_mem e) None =
      Ok (if inorder t = [] then None else Some (hd (inorder t)))"
    using map_walk_from [OF Suc.prems(1) h, of "[]" "inorder t"] by simp
  show ?case
  proof (cases "inorder t")
    case Nil
    then have "t = Leaf" by (cases t) simp_all
    then show ?thesis using Suc.prems(1,3) walk by (simp add: map_rep_def)
  next
    case (Cons a ys)
    then have a: "a \<in> set_tree t" by (simp flip: set_inorder)
    obtain s where s: "evl_mem e a = Some s" "mi_l s = None"
      using first_no_left [OF _ Cons, of "evl_mem e"] Suc.prems(1) by (auto simp: map_rep_def)
    have child: "mi_l s = None \<or> mi_r s = None" using s(2) by simp
    obtain head' mem' t' where d: "map_del evl_fuel (evl_sockets e) (evl_mem e) a = Ok (Some a, head', mem')"
      "map_rep ssk_sk head' mem' t'" "comp head' = select_sk_comp" "set_tree t' = set_tree t - {a}"
      "same_items (evl_mem e) mem'"
      by (rule sel.map_del_law [OF Suc.prems(1,2) h s(1) a child]) (rule that)
    let ?e = "e\<lparr>evl_sockets := head', evl_mem := mem'(a := None)\<rparr>"
    have "card (set_tree t') < card (set_tree t)"
      unfolding d(4) by (rule card_Diff1_less) (use a in simp_all)
    moreover have "map_rep ssk_sk (evl_sockets ?e) (evl_mem ?e) t'"
      using d(2,4) by (simp add: map_rep_outside)
    moreover have "dom (evl_mem ?e) = set_tree t'"
      using same_items_dom [OF d(5)] d(4) Suc.prems(3) by auto
    ultimately have "\<exists>e'. evl_dispose_loop n ?e = Ok e' \<and> evl_mem e' = Map.empty \<and> root (evl_sockets e') = None"
      by (intro Suc.IH [of ?e t']) (use d(3) Suc.prems(4,5) in \<open>simp_all del: fun_upd_apply\<close>)
    then show ?thesis using walk Cons d(1) by simp
  qed
qed simp

lemma evl_dispose_law:
  assumes "evl_inv e"
  shows "\<exists>e'. evl_select_dispose e = Ok e' \<and> evl_mem e' = Map.empty \<and> root (evl_sockets e') = None"
proof -
  obtain t reg where rep: "evl_rep e t reg" using assms by (auto simp: evl_inv_def)
  have map: "map_rep ssk_sk (evl_sockets e) (evl_mem e) t" "comp (evl_sockets e) = select_sk_comp" "dom (evl_mem e) = set_tree t"
    using rep by (simp_all add: evl_rep_def)
  have "card (set_tree t) < evl_fuel"
    using map_rep_card(1) [OF map(1)] evl_rep_height(2) [OF rep] by (simp add: evl_fuel_def)
  then show ?thesis unfolding evl_select_dispose_def using evl_dispose_run [OF map] by blast
qed

lemma evl_dispose_dead: "evl_dispose_loop n e = Ok e' \<Longrightarrow> dead e' = dead e"
  by (induction n arbitrary: e) (fastforce simp: bind_res_eq_Ok split: option.splits)+

end
