(* ===== verification/TcpHeld.thy ===== *)
theory TcpHeld
  imports App Monitor
begin

unbundle bit_operations_syntax

text \<open>
  The tcp pipe between the events of one call of \<open>monitor\<close>.  The select() loop may have found
  events for two sockets, and the callback of the first may change the pipe of the second, break
  it, or shut the bridge down, before the second callback runs.

  \<open>tcp_held h\<close> is what every operation keeps of a tcp pipe, broken or not, while the events \<open>h\<close>
  have been found for it and not been handled yet; the lemmas say what each operation does to such
  a pipe.  The locale \<open>program_pipe\<close> is the contract that the main loop of a program relies on;
  the tcp pipe interprets it here, the datagram pipe in \<open>DgmHeld\<close>.
\<close>

section \<open>Pipes that may be broken\<close>

text \<open>A pipe that is registered with its loop.\<close>

definition tcp_reg :: "tcp_pipe \<Rightarrow> os_world \<Rightarrow> bool" where
  "tcp_reg p w \<longleftrightarrow> tp_evl p \<and> tp_hooked p \<and> evl_inv (w_evl w) \<and>
     evl_registered (w_evl w) (tp_sk p) = Some (tp_sk_mask p, tp_self p)"

text \<open>What an operation does to the rest of the world.\<close>

definition tcp_step :: "tcp_pipe \<Rightarrow> os_world \<Rightarrow> tcp_pipe \<Rightarrow> os_world \<Rightarrow> bool" where
  "tcp_step p w p' w' \<longleftrightarrow> tcp_reg p' w' \<and> tp_sk p' = tp_sk p \<and> tp_self p' = tp_self p \<and>
     evl_quiet (w_evl w) (w_evl w') \<and>
     (\<forall>s. s \<noteq> tp_sk p \<longrightarrow> w_sock w' s = w_sock w s \<and>
       evl_registered (w_evl w') s = evl_registered (w_evl w) s)"

lemma tcp_step_trans: "tcp_step p w p1 w1 \<Longrightarrow> tcp_step p1 w1 p2 w2 \<Longrightarrow> tcp_step p w p2 w2"
  by (auto simp: tcp_step_def elim: evl_quiet_trans)

lemma tcp_step_refl: "tcp_reg p w \<Longrightarrow> tcp_step p w p w"
  by (simp add: tcp_step_def)

text \<open>State bits with which the events \<open>h\<close>, once found, can still be handled.\<close>

definition stale_ok :: "uint \<Rightarrow> pipe_flags \<Rightarrow> bool" where
  "stale_ok h f \<longleftrightarrow>
     h AND NOT (SK_EV_readable OR SK_EV_writable OR SK_EV_error) = 0 \<and>
     (has h SK_EV_readable \<longrightarrow> ready f \<and> \<not> readable f \<and> \<not> fin_rcvd f) \<and>
     (has h SK_EV_writable \<longrightarrow> \<not> writable f \<and> \<not> fin_sent f)"

lemma stale_ok_zero [simp]: "stale_ok 0 f"
  by (simp add: stale_ok_def has_def)

lemma stale_ok_bits:
  "stale_ok h f \<Longrightarrow> readable f \<Longrightarrow> \<not> has h SK_EV_readable"
  "stale_ok h f \<Longrightarrow> writable f \<Longrightarrow> \<not> has h SK_EV_writable"
  by (auto simp: stale_ok_def)

text \<open>After the end of the stream there is nothing left to receive.\<close>

definition tcp_held :: "uint \<Rightarrow> tcp_pipe \<Rightarrow> os_world \<Rightarrow> bool" where
  "tcp_held h p w \<longleftrightarrow> tcp_reg p w \<and> stale_ok h (tp_base p) \<and>
     (readable (tp_base p) \<longrightarrow> \<not> fin_rcvd (tp_base p)) \<and> (writable (tp_base p) \<longrightarrow> \<not> fin_sent (tp_base p)) \<and>
     (fin_rcvd (tp_base p) \<longrightarrow> script_bytes (rx_script (w_sock w (tp_sk p))) = [])"

lemma adjust_step:
  assumes "tcp_reg p w" "w_evl w1 = w_evl w" "\<And>s. s \<noteq> tp_sk p \<Longrightarrow> w_sock w1 s = w_sock w s"
  obtains p' w' where "tcp_pipe_adjust_event_mask evl_select_api (p\<lparr>tp_base := f\<rparr>) w1 = Ok (p', w')"
    "tcp_step p w p' w'" "tp_base p' = f" "w_sock w' = w_sock w1" "tp_hooked p'"
proof (cases "tp_sk_mask p = tcp_wanted f")
  case True
  then show ?thesis
    using that [of "p\<lparr>tp_base := f\<rparr>" w1] assms
    by (simp add: tcp_pipe_adjust_event_mask_def tcp_step_def tcp_reg_def)
next
  case False
  obtain e' where mod: "mod_socket evl_select_api (tp_sk p) (tcp_wanted f) (w_evl w) = Ok e'" "evl_inv e'"
    "evl_registered e' = (evl_registered (w_evl w))(tp_sk p \<mapsto> (tcp_wanted f, tp_self p))"
    using evl.mod_law [of "w_evl w" "tp_sk p" "tp_sk_mask p" "tp_self p" "tcp_wanted f"] assms(1)
    by (auto simp: tcp_reg_def)
  have "evl_quiet (w_evl w) e'"
    using mod(1) mod_socket_quiet by (simp add: evl_select_api_def)
  then show ?thesis
    using that [of "p\<lparr>tp_base := f, tp_sk_mask := tcp_wanted f\<rparr>" "w1\<lparr>w_evl := e'\<rparr>"] False assms mod
    by (simp add: tcp_pipe_adjust_event_mask_def tcp_reg_def tcp_step_def Let_def)
qed

lemma recv_retry_eof:
  assumes "recv_retry n s errno = (0, bs, errno', s')" "0 < n" "n < 2 ^ 31"
  shows "script_bytes s' = []"
  using assms
proof (induction n s errno rule: recv_retry.induct)
  case (1 n s errno)
  obtain r1 bs1 e1 s1 where call: "sys_recvfrom n s errno = (r1, bs1, e1, s1)"
    by (cases "sys_recvfrom n s errno") auto
  show ?case
  proof (cases "r1 < 0 \<and> e1 = EINTR")
    case True
    then have "recv_retry n s1 e1 = (0, bs, errno', s')"
      using 1(2) call by (simp add: recv_retry.simps [of n s])
    with 1(1) [OF call [symmetric]] True 1(3,4) show ?thesis by blast
  next
    case False
    then have "r1 = 0" "s1 = s'" using 1(2) call by (auto simp: recv_retry.simps [of n s] split: if_splits)
    with call 1(3,4) show ?thesis
      by (cases "(n, s, errno)" rule: sys_recvfrom.cases) (auto simp: c_int_small)
  qed
qed

text \<open>The three operations and the callback.  None of them can fail.\<close>

lemma tcp_recv_held:
  assumes held: "tcp_held h p w" and rd: "readable (tp_base p)" and n: "0 < n" "n < 2 ^ 31"
  obtains r bs p' w' where "tcp_pipe_recv evl_select_api p n w = Ok (r, bs, p', w')"
    "tcp_held h p' w'" "tcp_step p w p' w'" "r < 2 ^ 31" "0 < r \<Longrightarrow> r = int (length bs)" "length bs \<le> n"
    "ready (tp_base p') = ready (tp_base p)" "fin_sent (tp_base p') = fin_sent (tp_base p)"
    "writable (tp_base p') \<Longrightarrow> writable (tp_base p)" "fin_rcvd (tp_base p') \<longleftrightarrow> r = 0"
proof -
  have p: "tcp_reg p w" "stale_ok h (tp_base p)" "\<not> fin_rcvd (tp_base p)" "writable (tp_base p) \<longrightarrow> \<not> fin_sent (tp_base p)"
    using held rd by (simp_all add: tcp_held_def)
  obtain r bs w1 where rcv: "sk_recv (tp_sk p) n w = (r, bs, w1)" by (cases "sk_recv (tp_sk p) n w") auto
  note rep = sk_recv_report [OF rcv n]
  let ?f = "tp_base p"
  define f where "f = (if 0 < r then ?f\<lparr>readable := True\<rparr>
    else if r < 0 then (if sk_recv_fatal (sk_errno w1) then tag_pipe_as_broken (?f\<lparr>readable := False\<rparr>) else ?f\<lparr>readable := False\<rparr>)
    else ?f\<lparr>readable := False, fin_rcvd := True\<rparr>)"
  have f: "ready f = ready ?f" "fin_rcvd f \<longleftrightarrow> r = 0" "fin_sent f = fin_sent ?f" "writable f \<Longrightarrow> writable ?f"
    "readable f \<Longrightarrow> \<not> fin_rcvd f"
    using p(3) by (auto simp: f_def split: if_splits)
  obtain p' w' where adj: "tcp_pipe_adjust_event_mask evl_select_api (p\<lparr>tp_base := f\<rparr>) w1 = Ok (p', w')"
    "tcp_step p w p' w'" "tp_base p' = f" "w_sock w' = w_sock w1"
    using adjust_step [OF p(1) rep(1,2)] by blast
  have "tcp_pipe_recv evl_select_api p n w = Ok (r, bs, p', w')"
    using p(1) rcv adj(1) by (simp add: tcp_pipe_recv_def tcp_reg_def Let_def f_def split: if_splits)
  moreover have "script_bytes (rx_script (w_sock w1 (tp_sk p))) = []" if r0: "r = 0"
  proof -
    obtain e s where "recv_retry n (rx_script (w_sock w (tp_sk p))) (w_errno w) = (0, bs, e, s)"
      "rx_script (w_sock w1 (tp_sk p)) = s"
      using rcv r0 by (auto simp: sk_recv_def Let_def split: prod.splits)
    then show ?thesis using recv_retry_eof n by blast
  qed
  then have "tcp_held h p' w'"
    using adj f p(2,4) stale_ok_bits(1) [OF p(2) rd] by (auto simp: tcp_held_def tcp_step_def stale_ok_def)
  moreover have "r < 2 ^ 31" "length bs \<le> n" using rep(6) n(2) by auto
  ultimately show thesis using adj(2,3) f rep(6) by (intro that [of r bs p' w']) auto
qed

lemma tcp_send_held:
  assumes held: "tcp_held h p w" and wr: "writable (tp_base p)" and len: "length cs < 2 ^ 31"
  obtains r p' w' where "tcp_pipe_send evl_select_api p cs w = Ok (r, p', w')"
    "tcp_held h p' w'" "tcp_step p w p' w'" "-1 \<le> r" "r \<le> int (length cs)"
    "ready (tp_base p') = ready (tp_base p)" "fin_rcvd (tp_base p') = fin_rcvd (tp_base p)"
    "fin_sent (tp_base p') = fin_sent (tp_base p)" "readable (tp_base p') \<Longrightarrow> readable (tp_base p)"
    "readable (tp_base p) \<Longrightarrow> readable (tp_base p') \<or> r < 0 \<and> broken (tp_base p')"
    "writable (tp_base p') \<longleftrightarrow> r = int (length cs)"
    "tcp_rcvd p' w' = tcp_rcvd p w" "tcp_input p' w' = tcp_input p w" "tcp_sent p' w' = tcp_sent p w @ take (nat r) cs"
proof -
  have p: "tcp_reg p w" "stale_ok h (tp_base p)" "\<not> fin_sent (tp_base p)" "readable (tp_base p) \<longrightarrow> \<not> fin_rcvd (tp_base p)"
    "fin_rcvd (tp_base p) \<longrightarrow> script_bytes (rx_script (w_sock w (tp_sk p))) = []"
    using held wr by (simp_all add: tcp_held_def)
  obtain r w1 where snd: "sk_send (tp_sk p) cs w = (r, w1)" by (cases "sk_send (tp_sk p) cs w") auto
  note rep = sk_send_report [OF snd len]
  have full: "c_size r = length cs \<longleftrightarrow> r = int (length cs)"
    using rep(6,7) len by (cases "r = -1") (auto simp: c_simps)
  let ?f = "tp_base p"
  define f where "f = (if c_size r = length cs then ?f\<lparr>writable := True\<rparr>
    else if 0 \<le> r then ?f\<lparr>writable := False\<rparr>
    else if sk_send_fatal (sk_errno w1) then tag_pipe_as_broken (?f\<lparr>writable := False\<rparr>) else ?f\<lparr>writable := False\<rparr>)"
  have f: "ready f = ready ?f" "fin_rcvd f = fin_rcvd ?f" "fin_sent f = fin_sent ?f" "readable f \<Longrightarrow> readable ?f"
    "readable ?f \<Longrightarrow> readable f \<or> r < 0 \<and> broken f" "writable f \<longleftrightarrow> r = int (length cs)"
    using full by (auto simp: f_def split: if_splits)
  obtain p' w' where adj: "tcp_pipe_adjust_event_mask evl_select_api (p\<lparr>tp_base := f\<rparr>) w1 = Ok (p', w')"
    "tcp_step p w p' w'" "tp_base p' = f" "w_sock w' = w_sock w1"
    using adjust_step [OF p(1) rep(1,2)] by blast
  have sk: "tp_sk p' = tp_sk p" using adj(2) by (simp add: tcp_step_def)
  have "tcp_pipe_send evl_select_api p cs w = Ok (r, p', w')"
    using p(1) snd adj(1) by (simp add: tcp_pipe_send_def tcp_reg_def Let_def f_def split: if_splits)
  moreover have "tcp_held h p' w'"
    using adj sk f rep(4) p(2-5) stale_ok_bits(2) [OF p(2) wr] by (auto simp: tcp_held_def tcp_step_def stale_ok_def)
  ultimately show thesis
    using adj sk f rep by (intro that [of r p' w']) (auto simp: tcp_rcvd_def tcp_input_def tcp_sent_def)
qed

lemma tcp_send_fin_held:
  assumes held: "tcp_held h p w" and no: "\<not> fin_sent (tp_base p)" "\<not> has h SK_EV_writable"
  obtains r p' w' where "tcp_pipe_send_fin evl_select_api p w = Ok (r, p', w')"
    "tcp_held h p' w'" "tcp_step p w p' w'"
    "ready (tp_base p') = ready (tp_base p)" "fin_rcvd (tp_base p') = fin_rcvd (tp_base p)"
    "readable (tp_base p') \<Longrightarrow> readable (tp_base p)" "\<not> writable (tp_base p')"
    "r < 0 \<and> broken (tp_base p') \<or> 0 \<le> r \<and> fin_sent (tp_base p') \<and> readable (tp_base p') = readable (tp_base p)"
    "tcp_rcvd p' w' = tcp_rcvd p w" "tcp_input p' w' = tcp_input p w" "tcp_sent p' w' = tcp_sent p w"
proof -
  have p: "tcp_reg p w" "stale_ok h (tp_base p)" "readable (tp_base p) \<longrightarrow> \<not> fin_rcvd (tp_base p)"
    "fin_rcvd (tp_base p) \<longrightarrow> script_bytes (rx_script (w_sock w (tp_sk p))) = []"
    using held by (simp_all add: tcp_held_def)
  obtain r w1 where shut: "sk_shutdown (tp_sk p) w = (r, w1)" by (cases "sk_shutdown (tp_sk p) w") auto
  note rep = sk_shutdown_report [OF shut]
  let ?f = "tp_base p"
  define f where "f = (if r < 0 then tag_pipe_as_broken ?f else ?f\<lparr>writable := False, fin_sent := True\<rparr>)"
  have f: "ready f = ready ?f" "fin_rcvd f = fin_rcvd ?f" "readable f \<Longrightarrow> readable ?f" "\<not> writable f"
    "r < 0 \<and> broken f \<or> 0 \<le> r \<and> fin_sent f \<and> readable f = readable ?f"
    by (auto simp: f_def split: if_splits)
  obtain p' w' where adj: "tcp_pipe_adjust_event_mask evl_select_api (p\<lparr>tp_base := f\<rparr>) w1 = Ok (p', w')"
    "tcp_step p w p' w'" "tp_base p' = f" "w_sock w' = w_sock w1"
    using adjust_step [OF p(1) rep(1,2)] by blast
  have sk: "tp_sk p' = tp_sk p" using adj(2) by (simp add: tcp_step_def)
  have "tcp_pipe_send_fin evl_select_api p w = Ok (r, p', w')"
    using p(1) no(1) shut adj(1) by (simp add: tcp_pipe_send_fin_def tcp_reg_def Let_def f_def split: if_splits)
  moreover have "tcp_held h p' w'"
    using adj sk f rep(4) p(2-4) no(2) by (auto simp: tcp_held_def tcp_step_def stale_ok_def)
  ultimately show thesis
    using adj sk f rep by (intro that [of r p' w']) (auto simp: tcp_rcvd_def tcp_input_def tcp_sent_def)
qed


text \<open>What an event does to the state bits: it raises some of them, or breaks the pipe.\<close>

abbreviation tcp_event_bits :: "uint \<Rightarrow> pipe_flags \<Rightarrow> pipe_flags \<Rightarrow> bool" where
  "tcp_event_bits io f f' \<equiv> fin_rcvd f' = fin_rcvd f \<and> fin_sent f' = fin_sent f \<and> (ready f \<longrightarrow> ready f') \<and>
     (readable f' \<longrightarrow> \<not> fin_rcvd f') \<and> (writable f' \<longrightarrow> \<not> fin_sent f') \<and>
     (has io IO_EV_writable \<longrightarrow> writable f' \<and> ready f') \<and>
     (readable f \<longrightarrow> readable f' \<or> has io IO_EV_broken) \<and> (writable f \<longrightarrow> writable f' \<or> has io IO_EV_broken)"

lemma stale_first:
  assumes "stale_ok h f" "h \<noteq> 0" "\<not> ready f"
  shows "has h (SK_EV_error OR SK_EV_writable)"
proof -
  have "\<not> has h SK_EV_readable" using assms(1,3) by (auto simp: stale_ok_def)
  moreover have "h AND (SK_EV_readable OR SK_EV_writable OR SK_EV_error) = h"
    using assms(1) unfolding stale_ok_def
    by (metis (no_types, opaque_lifting) and.right_neutral bit.conj_disj_distrib bit.disj_cancel_right or.right_neutral)
  ultimately show ?thesis
    using assms(2) by (auto simp: has_def bit.conj_disj_distrib or.commute)
qed

lemma tcp_event_held:
  assumes held: "tcp_held h p w" and h: "h \<noteq> 0"
  obtains io p' w' where "tcp_pipe_on_activity evl_select_api p h w = Ok (Some io, p', w')"
    "tcp_held 0 p' w'" "tcp_step p w p' w'" "tcp_event_bits io (tp_base p) (tp_base p')"
    "tcp_sent p' w' = tcp_sent p w" "tcp_rcvd p' w' = tcp_rcvd p w" "tcp_input p' w' = tcp_input p w"
proof -
  let ?f = "tp_base p"
  have p: "tcp_reg p w" "stale_ok h ?f" "readable ?f \<longrightarrow> \<not> fin_rcvd ?f" "writable ?f \<longrightarrow> \<not> fin_sent ?f"
    "fin_rcvd ?f \<longrightarrow> script_bytes (rx_script (w_sock w (tp_sk p))) = []"
    using held by (simp_all add: tcp_held_def)
  have evs: "has h SK_EV_readable \<Longrightarrow> \<not> fin_rcvd ?f" "has h SK_EV_writable \<Longrightarrow> \<not> fin_sent ?f"
    "has h SK_EV_readable \<Longrightarrow> ready ?f"
    using p(2) by (auto simp: stale_ok_def)
  have "\<exists>io f w1. tcp_pipe_on_activity evl_select_api p h w =
      bind_res (tcp_pipe_adjust_event_mask evl_select_api (p\<lparr>tp_base := f\<rparr>) w1)
        (\<lambda>(p, w). if tp_hooked p then Ok (Some io, p, w) else Stop Null_dereference) \<and>
    w_evl w1 = w_evl w \<and> (\<forall>s. s \<noteq> tp_sk p \<longrightarrow> w_sock w1 s = w_sock w s) \<and>
    rx_log (w_sock w1 (tp_sk p)) = rx_log (w_sock w (tp_sk p)) \<and>
    tx_log (w_sock w1 (tp_sk p)) = tx_log (w_sock w (tp_sk p)) \<and>
    rx_script (w_sock w1 (tp_sk p)) = rx_script (w_sock w (tp_sk p)) \<and> tcp_event_bits io ?f f"
  proof (cases "ready ?f")
    case True
    obtain io f where f: "tcp_ready_events ?f h 0 = Ok (io, f)"
      "f = ?f\<lparr>readable := readable ?f \<or> has h SK_EV_readable, writable := writable ?f \<or> has h SK_EV_writable\<rparr>"
      "has io IO_EV_writable \<longleftrightarrow> has 0 IO_EV_writable \<or> has h SK_EV_writable"
      by (rule tcp_ready_events_Ok [OF evs(1,2)])
    with True p(3,4) evs show ?thesis
      by (intro exI [of _ io] exI [of _ f] exI [of _ w]) (auto simp: tcp_pipe_on_activity_def)
  next
    case False
    obtain err w1 where err: "sk_error (tp_sk p) w = (err, w1)" by (cases "sk_error (tp_sk p) w") auto
    note rep = sk_error_report [OF err]
    note first = stale_first [OF p(2) h False]
    let ?g = "?f\<lparr>ready := True\<rparr>"
    obtain io f where f: "tcp_ready_events ?g h IO_EV_ready = Ok (io, f)"
      "f = ?g\<lparr>readable := readable ?g \<or> has h SK_EV_readable, writable := writable ?g \<or> has h SK_EV_writable\<rparr>"
      "has io IO_EV_writable \<longleftrightarrow> has IO_EV_ready IO_EV_writable \<or> has h SK_EV_writable"
      by (rule tcp_ready_events_Ok [of h ?g IO_EV_ready]) (use evs in simp_all)
    show ?thesis
    proof (cases "has h SK_EV_error \<or> (has h SK_EV_writable \<and> err \<noteq> 0)")
      case True
      with False first err rep show ?thesis
        by (intro exI [of _ IO_EV_broken] exI [of _ "tag_pipe_as_broken ?f"] exI [of _ w1])
          (simp add: tcp_pipe_on_activity_def word_flags)
    next
      case ok: False
      with False first err rep f p(3,4) evs show ?thesis
        by (intro exI [of _ io] exI [of _ f] exI [of _ w1]) (auto simp: tcp_pipe_on_activity_def word_flags)
    qed
  qed
  then obtain io f w1 where step: "tcp_pipe_on_activity evl_select_api p h w =
      bind_res (tcp_pipe_adjust_event_mask evl_select_api (p\<lparr>tp_base := f\<rparr>) w1)
        (\<lambda>(p, w). if tp_hooked p then Ok (Some io, p, w) else Stop Null_dereference)"
    "w_evl w1 = w_evl w" "\<And>s. s \<noteq> tp_sk p \<Longrightarrow> w_sock w1 s = w_sock w s"
    "rx_log (w_sock w1 (tp_sk p)) = rx_log (w_sock w (tp_sk p))"
    "tx_log (w_sock w1 (tp_sk p)) = tx_log (w_sock w (tp_sk p))"
    "rx_script (w_sock w1 (tp_sk p)) = rx_script (w_sock w (tp_sk p))" "tcp_event_bits io ?f f" by blast
  obtain p' w' where adj: "tcp_pipe_adjust_event_mask evl_select_api (p\<lparr>tp_base := f\<rparr>) w1 = Ok (p', w')"
    "tcp_step p w p' w'" "tp_base p' = f" "w_sock w' = w_sock w1" "tp_hooked p'"
    by (rule adjust_step [OF p(1) step(2,3)])
  have sk: "tp_sk p' = tp_sk p" using adj(2) by (simp add: tcp_step_def)
  have "tcp_held 0 p' w'"
    using adj(2-4) sk step(6,7) p(5) by (auto simp: tcp_held_def tcp_step_def)
  with step adj sk show thesis
    by (intro that [of io p' w']) (auto simp: tcp_sent_def tcp_rcvd_def tcp_input_def)
qed

section \<open>Events that were asked for\<close>

lemma mask_subset:
  fixes h m :: uint
  assumes "h AND NOT (1 OR 2 OR 4) = 0" "h AND 1 \<noteq> 0 \<longrightarrow> m AND 1 \<noteq> 0" "h AND 2 \<noteq> 0 \<longrightarrow> m AND 2 \<noteq> 0"
  shows "h AND NOT (m OR 4) = 0"
proof (rule bit_word_eqI)
  fix n assume n: "n < LENGTH(32)"
  have one: "x AND 2 ^ k \<noteq> 0 \<longleftrightarrow> bit x k" if "k < 32" for x :: uint and k
    using that by (simp add: bit_iff_and_push_bit_not_eq_0)
  have "x AND 1 \<noteq> 0 \<longleftrightarrow> bit x 0" "x AND 2 \<noteq> 0 \<longleftrightarrow> bit x 1" for x :: uint
    using one [of 0 x] one [of 1 x] by simp_all
  then have low: "bit h 0 \<longrightarrow> bit m 0" "bit h 1 \<longrightarrow> bit m 1" using assms by simp_all
  have "bit (h AND NOT (1 OR 2 OR 4)) n = bit 0 n" using assms(1) by simp
  then have "bit h n \<longrightarrow> bit (7 :: uint) n" using n by (auto simp: bit_simps)
  then have "bit h n \<longrightarrow> n < 3"
    using n bit_mask_iff [of 3 n, where 'a = uint] by (simp add: mask_eq_exp_minus_1)
  then have "bit h n \<longrightarrow> n = 0 \<or> n = 1 \<or> n = 2" by linarith
  moreover have "bit (4 :: uint) 2" by (simp add: bit_numeral_rec)
  ultimately show "bit (h AND NOT (m OR 4)) n = bit 0 n" using low n by (auto simp: bit_simps)
qed

text \<open>While the invariant of a pipe holds, the events found for it are ones it is registered for.\<close>

lemma stale_ev_ok:
  assumes "tcp_ok p w" "stale_ok h (tp_base p)" "h \<noteq> 0"
  shows "tcp_ev_ok p h"
proof -
  have bits: "has h SK_EV_readable \<Longrightarrow> has (tp_sk_mask p) SK_EV_readable"
    "has h SK_EV_writable \<Longrightarrow> has (tp_sk_mask p) SK_EV_writable"
    using assms(1,2) by (auto simp: tcp_ok_def tcp_inv_def stale_ok_def flags_ok_def word_flags split: if_splits)
  have "h AND NOT (tp_sk_mask p OR 4) = 0"
    by (rule mask_subset) (use bits assms(2) in \<open>simp_all add: stale_ok_def has_def event_defs\<close>)
  then show ?thesis using assms(3) by (simp add: tcp_ev_ok_def event_defs)
qed

lemma wanted_stale_ok:
  assumes "tcp_ok p w" "h AND NOT (SK_EV_readable OR SK_EV_writable OR SK_EV_error) = 0"
    and "has h SK_EV_readable \<Longrightarrow> has (tp_sk_mask p) SK_EV_readable"
      "has h SK_EV_writable \<Longrightarrow> has (tp_sk_mask p) SK_EV_writable"
  shows "stale_ok h (tp_base p)"
  using assms by (auto simp: tcp_ok_def tcp_inv_def stale_ok_def flags_ok_def word_flags split: if_splits)

section \<open>What a program relies on in a pipe\<close>

text \<open>
  A pipe of the view \<open>V\<close> on top of a tcp pipe, \<open>lt\<close>.  \<open>held h\<close> is kept by every operation on the
  pipe in a bridge; from it alone every event that was found can be handled; and it does not
  depend on other sockets.
\<close>

locale program_pipe =
  fixes V :: "('p, os_world, int) pipe_view" and lt :: "'p \<Rightarrow> tcp_pipe" and held :: "uint \<Rightarrow> 'p \<Rightarrow> os_world \<Rightarrow> bool"
  assumes held_tcp: "held h p w \<Longrightarrow> tcp_held h (lt p) w"
    and held_other: "held h p w \<Longrightarrow> evl_inv (w_evl w') \<Longrightarrow> w_sock w' (tp_sk (lt p)) = w_sock w (tp_sk (lt p)) \<Longrightarrow>
      evl_registered (w_evl w') (tp_sk (lt p)) = evl_registered (w_evl w) (tp_sk (lt p)) \<Longrightarrow> held h p w'"
    and held_recv: "held h p w \<Longrightarrow> readable (pipe_flags (v_api V) p) \<Longrightarrow> 0 < n \<Longrightarrow> n < 2 ^ 30 \<Longrightarrow>
      pipe_recv (v_api V) p n w = Ok (r, bs, p', w') \<Longrightarrow> held h p' w' \<and> tcp_step (lt p) w (lt p') w' \<and> r < 2 ^ 31"
    and held_send: "held h p w \<Longrightarrow> writable (pipe_flags (v_api V) p) \<Longrightarrow> length cs < 2 ^ 31 \<Longrightarrow>
      pipe_send (v_api V) p cs w = Ok (r, p', w') \<Longrightarrow> held h p' w' \<and> tcp_step (lt p) w (lt p') w'"
    and held_fin: "held h p w \<Longrightarrow> writable (pipe_flags (v_api V) p) \<Longrightarrow>
      pipe_send_fin (v_api V) p w = Ok (r, p', w') \<Longrightarrow> held h p' w' \<and> tcp_step (lt p) w (lt p') w'"
    and held_event: "held h p w \<Longrightarrow> h \<noteq> 0 \<Longrightarrow>
      \<exists>up p' w'. pipe_event (v_api V) p h w = Ok (up, p', w') \<and> held 0 p' w' \<and> tcp_step (lt p) w (lt p') w' \<and>
        v_sent V p' w' = v_sent V p w \<and> v_rcvd V p' w' = v_rcvd V p w \<and> v_input V p' w' = v_input V p w \<and>
        (fin_rcvd (pipe_flags (v_api V) p) \<longrightarrow> fin_rcvd (pipe_flags (v_api V) p')) \<and> (v_fin V p \<longrightarrow> v_fin V p')"
    and held_due: "held 0 p w \<Longrightarrow> stale_ok h (tp_base (lt p)) \<Longrightarrow> held h p w"
    and inv_tcp: "v_inv V p w \<Longrightarrow> tcp_ok (lt p) w"
    and ev_tcp: "v_ev V p = tcp_ev_ok (lt p)"
    and ep_tcp: "v_ep V p = tp_sk (lt p)"
    and agree_tcp: "v_agree V = tcp_agree evl_inv evl_registered"
    and view_other: "w_sock w' (tp_sk (lt p)) = w_sock w (tp_sk (lt p)) \<Longrightarrow>
      v_sent V p w' = v_sent V p w \<and> v_rcvd V p w' = v_rcvd V p w \<and> v_input V p w' = v_input V p w"
    and input_prefix: "\<exists>rest. v_input V p w = v_rcvd V p w @ rest"
    and held_done: "held h p w \<Longrightarrow> fin_rcvd (pipe_flags (v_api V) p) \<Longrightarrow> v_input V p w = v_rcvd V p w"
begin

lemma held_ev_ok: "held h p w \<Longrightarrow> v_inv V p w \<Longrightarrow> h \<noteq> 0 \<Longrightarrow> v_ev V p h"
  using stale_ev_ok [OF inv_tcp, of p w h] held_tcp [of h p w] by (simp add: ev_tcp tcp_held_def)

lemma held_reg: "held h p w \<Longrightarrow> tcp_reg (lt p) w"
  using held_tcp by (simp add: tcp_held_def)

end

interpretation tcp_program: program_pipe tcp_view "\<lambda>p. p" tcp_held
proof
  fix h p w n r bs p' w'
  assume a: "tcp_held h p w" "readable (pipe_flags (v_api tcp_view) p)" "0 < n" "n < 2 ^ 30"
    "pipe_recv (v_api tcp_view) p n w = Ok (r, bs, p', w')"
  then have "n < 2 ^ 31" "readable (tp_base p)" by (simp_all add: tcp_view_def)
  from tcp_recv_held [OF a(1) this(2) a(3) this(1)] a(5)
  show "tcp_held h p' w' \<and> tcp_step p w p' w' \<and> r < 2 ^ 31" by (simp add: tcp_view_def) metis
next
  fix h p w cs r p' w'
  assume a: "tcp_held h p w" "writable (pipe_flags (v_api tcp_view) p)" "length cs < 2 ^ 31"
    "pipe_send (v_api tcp_view) p cs w = Ok (r, p', w')"
  then have "writable (tp_base p)" by (simp add: tcp_view_def)
  from tcp_send_held [OF a(1) this a(3)] a(4)
  show "tcp_held h p' w' \<and> tcp_step p w p' w'" by (simp add: tcp_view_def) metis
next
  fix h p w r p' w'
  assume a: "tcp_held h p w" "writable (pipe_flags (v_api tcp_view) p)"
    "pipe_send_fin (v_api tcp_view) p w = Ok (r, p', w')"
  then have "\<not> fin_sent (tp_base p)" "\<not> has h SK_EV_writable"
    by (auto simp: tcp_view_def tcp_held_def stale_ok_def)
  from tcp_send_fin_held [OF a(1) this] a(3)
  show "tcp_held h p' w' \<and> tcp_step p w p' w'" by (simp add: tcp_view_def) metis
next
  fix h p w assume a: "tcp_held h p w" "h \<noteq> 0"
  obtain io p' w' where "tcp_pipe_on_activity evl_select_api p h w = Ok (Some io, p', w')"
    "tcp_held 0 p' w'" "tcp_step p w p' w'" "tcp_event_bits io (tp_base p) (tp_base p')"
    "tcp_sent p' w' = tcp_sent p w" "tcp_rcvd p' w' = tcp_rcvd p w" "tcp_input p' w' = tcp_input p w"
    by (rule tcp_event_held [OF a]) (rule that)
  then show "\<exists>up p' w'. pipe_event (v_api tcp_view) p h w = Ok (up, p', w') \<and> tcp_held 0 p' w' \<and> tcp_step p w p' w' \<and>
      v_sent tcp_view p' w' = v_sent tcp_view p w \<and> v_rcvd tcp_view p' w' = v_rcvd tcp_view p w \<and>
      v_input tcp_view p' w' = v_input tcp_view p w \<and>
      (fin_rcvd (pipe_flags (v_api tcp_view) p) \<longrightarrow> fin_rcvd (pipe_flags (v_api tcp_view) p')) \<and>
      (v_fin tcp_view p \<longrightarrow> v_fin tcp_view p')"
    by (intro exI [of _ "Some io"] exI [of _ p'] exI [of _ w']) (simp add: tcp_view_def)
qed (auto simp: tcp_view_def tcp_held_def tcp_reg_def tcp_sent_def tcp_rcvd_def tcp_input_def)

end
