(* ===== verification/DgmHeld.thy ===== *)
theory DgmHeld
  imports TcpHeld
begin

unbundle bit_operations_syntax

text \<open>
  Atx and datagram pipes between the events of one call of \<open>monitor\<close>: what their operations keep,
  on a pipe that may be broken, while events that were found for the tcp pipe below have not been
  handled yet.  A callback on such a pipe runs to its end, and whatever part of the pending data it
  can still send, nothing is lost.  The datagram pipe over an atx pipe over a tcp pipe interprets
  \<open>program_pipe\<close>.
\<close>

section \<open>What is kept\<close>

text \<open>Data that waits for the socket, and the FIN behind it.\<close>

definition atx_waits :: "tcp_pipe atx_pipe \<Rightarrow> bool" where
  "atx_waits p \<longleftrightarrow>
     (case at_pending p of
        None \<Rightarrow> True
      | Some b \<Rightarrow> wf_buf b \<and> buf_size b < 2 ^ 31 \<and> \<not> fin_sent (tp_base (at_io p)))"

text \<open>The state bits of an atx pipe are always those of the pipe below, \<open>writable\<close> masked by pending data.\<close>

definition atx_bits :: "tcp_pipe atx_pipe \<Rightarrow> pipe_flags" where
  "atx_bits p = (if at_pending p = None then tp_base (at_io p) else (tp_base (at_io p))\<lparr>writable := False\<rparr>)"

definition atx_held :: "uint \<Rightarrow> tcp_pipe atx_pipe \<Rightarrow> os_world \<Rightarrow> bool" where
  "atx_held h p w \<longleftrightarrow> tcp_held h (at_io p) w \<and> at_hooked p \<and> at_base p = atx_bits p \<and> atx_waits p"

definition dgm_held :: "uint \<Rightarrow> tcp_pipe atx_pipe dgm_pipe \<Rightarrow> os_world \<Rightarrow> bool" where
  "dgm_held h p w \<longleftrightarrow> atx_held h (dg_io p) w \<and> dg_hooked p \<and> max_hdr_size p = 5 \<and>
     (readable (dg_base p) \<longrightarrow> readable (at_base (dg_io p))) \<and>
     (writable (dg_base p) \<longrightarrow> writable (at_base (dg_io p))) \<and>
     (fin_rcvd (dg_base p) \<longrightarrow> fin_rcvd (at_base (dg_io p))) \<and>
     (fin_rcvd (at_base (dg_io p)) \<longrightarrow> dg_rx p = None) \<and>
     (case dg_rx p of None \<Rightarrow> True | Some b \<Rightarrow> capacity b < 2 ^ 31)"

section \<open>The atx pipe\<close>

lemma atx_bits_sel [simp]:
  "ready (atx_bits p) = ready (tp_base (at_io p))" "readable (atx_bits p) = readable (tp_base (at_io p))"
  "fin_rcvd (atx_bits p) = fin_rcvd (tp_base (at_io p))" "fin_sent (atx_bits p) = fin_sent (tp_base (at_io p))"
  "broken (atx_bits p) = broken (tp_base (at_io p))"
  "writable (atx_bits p) \<longleftrightarrow> at_pending p = None \<and> writable (tp_base (at_io p))"
  by (simp_all add: atx_bits_def)

lemma atx_clone_bits: "atx_pipe_clone_state tcp_io p = p\<lparr>at_base := atx_bits p\<rparr>"
  by (cases p) (simp add: atx_pipe_clone_state_def atx_bits_def)

lemma atx_bits_base [simp]: "atx_bits (p\<lparr>at_base := f\<rparr>) = atx_bits p"
  by (simp add: atx_bits_def)

lemma atx_recv_held:
  assumes held: "atx_held h p w" and rd: "readable (at_base p)" and n: "0 < n" "n < 2 ^ 31"
    and call: "atx_pipe_recv tcp_io p n w = Ok (r, bs, p', w')"
  shows "atx_held h p' w'" "tcp_step (at_io p) w (at_io p') w'" "r < 2 ^ 31" "0 < r \<Longrightarrow> r = int (length bs)" "length bs \<le> n"
    "fin_rcvd (at_base p') \<longleftrightarrow> r = 0" "writable (at_base p') \<Longrightarrow> writable (at_base p)"
proof -
  have p: "tcp_held h (at_io p) w" "readable (tp_base (at_io p))" "at_hooked p" "at_base p = atx_bits p" "atx_waits p"
    using held rd by (simp_all add: atx_held_def)
  obtain r1 bs1 q w1 where q: "tcp_pipe_recv evl_select_api (at_io p) n w = Ok (r1, bs1, q, w1)"
    "tcp_held h q w1" "tcp_step (at_io p) w q w1" "r1 < 2 ^ 31" "0 < r1 \<Longrightarrow> r1 = int (length bs1)" "length bs1 \<le> n"
    "ready (tp_base q) = ready (tp_base (at_io p))" "fin_sent (tp_base q) = fin_sent (tp_base (at_io p))"
    "writable (tp_base q) \<Longrightarrow> writable (tp_base (at_io p))" "fin_rcvd (tp_base q) \<longleftrightarrow> r1 = 0"
    by (rule tcp_recv_held [OF p(1,2) n]) (rule that)
  have eq: "r = r1" "bs = bs1" "w' = w1" "p' = p\<lparr>at_io := q, at_base := atx_bits (p\<lparr>at_io := q\<rparr>)\<rparr>"
    using call q(1) by (simp_all add: atx_pipe_recv_def atx_clone_bits)
  have "atx_bits p' = at_base p'" by (simp add: eq(4) atx_bits_def)
  then show "atx_held h p' w'"
    using q(2,7,8) p(3,5) by (simp add: atx_held_def eq atx_waits_def split: option.splits)
  show "tcp_step (at_io p) w (at_io p') w'" "r < 2 ^ 31" "0 < r \<Longrightarrow> r = int (length bs)" "length bs \<le> n"
    "fin_rcvd (at_base p') \<longleftrightarrow> r = 0" "writable (at_base p') \<Longrightarrow> writable (at_base p)"
    using q p(4) by (simp_all add: eq)
qed

lemma atx_send_held:
  assumes held: "atx_held h p w" and wr: "writable (at_base p)" and len: "length cs < 2 ^ 31"
    and call: "atx_pipe_send tcp_io p cs w = Ok (r, p', w')"
  shows "atx_held h p' w'" "tcp_step (at_io p) w (at_io p') w'" "fin_rcvd (at_base p') = fin_rcvd (at_base p)"
proof -
  have p: "tcp_held h (at_io p) w" "at_pending p = None" "writable (tp_base (at_io p))" "at_hooked p" "at_base p = atx_bits p"
    using held wr by (simp_all add: atx_held_def)
  then have no_fin: "\<not> fin_sent (tp_base (at_io p))" by (simp add: tcp_held_def)
  obtain r1 q w1 where q: "tcp_pipe_send evl_select_api (at_io p) cs w = Ok (r1, q, w1)"
    "tcp_held h q w1" "tcp_step (at_io p) w q w1" "-1 \<le> r1" "r1 \<le> int (length cs)"
    "ready (tp_base q) = ready (tp_base (at_io p))" "fin_rcvd (tp_base q) = fin_rcvd (tp_base (at_io p))"
    "fin_sent (tp_base q) = fin_sent (tp_base (at_io p))" "readable (tp_base q) \<Longrightarrow> readable (tp_base (at_io p))"
    "writable (tp_base q) \<longleftrightarrow> r1 = int (length cs)"
    by (rule tcp_send_held [OF p(1,3) len]) (rule that)
  define m where "m = nat r1"
  let ?p = "p\<lparr>at_io := q, at_base := atx_bits (p\<lparr>at_io := q\<rparr>)\<rparr>"
  have clone: "atx_pipe_clone_state tcp_io (p\<lparr>at_io := q\<rparr>) = ?p" by (simp add: atx_clone_bits)
  have bits: "atx_bits ?p = tp_base q" "atx_bits (p\<lparr>at_io := q\<rparr>) = tp_base q" using p(2) by (simp_all add: atx_bits_def)
  have same: "?p\<lparr>at_pending := None\<rparr> = ?p" using p(2) by (cases p) simp
  consider (none) "r1 = -1" | (all) "r1 = int (length cs)" | (part) "0 \<le> r1" "r1 < int (length cs)"
    using q(4,5) by linarith
  then have "\<exists>pend. p' = ?p\<lparr>at_pending := pend\<rparr> \<and> w' = w1 \<and>
    (case pend of None \<Rightarrow> True | Some b \<Rightarrow> wf_buf b \<and> buf_size b < 2 ^ 31 \<and> r1 \<noteq> int (length cs))"
  proof cases
    case none
    then have "p' = ?p \<and> w' = w1" using call q(1) p(2) clone by (simp add: atx_pipe_send_def Let_def)
    with same show ?thesis by (intro exI [of _ None]) simp
  next
    case all
    then have "c_size r1 = length cs" using len by (simp add: c_simps)
    then have "p' = ?p \<and> w' = w1" using call q(1) p(2) clone all by (simp add: atx_pipe_send_def Let_def)
    with same show ?thesis by (intro exI [of _ None]) simp
  next
    case part
    then have "c_size r1 \<noteq> length cs" "m < length cs" using len by (auto simp: c_simps m_def)
    moreover obtain b where "alloc_io_buffer (length cs - m) (Some (drop m cs)) (length cs - m) = Ok b" "wf_buf b"
      "buf_size b = length cs - m"
      by (rule alloc_io_buffer_Some [of "length cs - m" "length cs - m" "drop m cs"]) simp_all
    ultimately show ?thesis
      using call q(1) p(2) clone part len
      by (intro exI [of _ "Some b"]) (simp add: atx_pipe_send_def Let_def c_assert_eq_Ok m_def)
  qed
  then obtain pend where p': "p' = ?p\<lparr>at_pending := pend\<rparr>" "w' = w1"
    "case pend of None \<Rightarrow> True | Some b \<Rightarrow> wf_buf b \<and> buf_size b < 2 ^ 31 \<and> r1 \<noteq> int (length cs)" by blast
  have "at_base p' = atx_bits p'"
    using p'(3) q(10) bits by (cases pend) (simp_all add: p'(1) atx_bits_def)
  moreover have "atx_waits p'"
    using p'(3) q(8) no_fin by (cases pend) (simp_all add: p'(1) atx_waits_def)
  ultimately show "atx_held h p' w'"
    using q(2) p(4) by (simp add: atx_held_def p')
  show "tcp_step (at_io p) w (at_io p') w'" "fin_rcvd (at_base p') = fin_rcvd (at_base p)"
    using q(3,7) p(5) by (simp_all add: p')
qed

lemma atx_send_fin_held:
  assumes held: "atx_held h p w" and wr: "writable (at_base p)"
    and call: "atx_pipe_send_fin tcp_io p w = Ok (r, p', w')"
  shows "atx_held h p' w'" "tcp_step (at_io p) w (at_io p') w'" "fin_rcvd (at_base p') = fin_rcvd (at_base p)"
proof -
  have p: "tcp_held h (at_io p) w" "at_pending p = None" "writable (tp_base (at_io p))" "at_hooked p" "at_base p = atx_bits p"
    using held wr by (simp_all add: atx_held_def)
  then have no: "\<not> fin_sent (tp_base (at_io p))" "\<not> has h SK_EV_writable"
    by (auto simp: tcp_held_def stale_ok_def)
  obtain r1 q w1 where q: "tcp_pipe_send_fin evl_select_api (at_io p) w = Ok (r1, q, w1)"
    "tcp_held h q w1" "tcp_step (at_io p) w q w1" "fin_rcvd (tp_base q) = fin_rcvd (tp_base (at_io p))"
    by (rule tcp_send_fin_held [OF p(1) no]) (rule that)
  have eq: "w' = w1" "p' = p\<lparr>at_io := q, at_base := tp_base q\<rparr>"
    using call q(1) p(2) by (simp_all add: atx_pipe_send_fin_def c_assert_eq_Ok atx_clone_bits) (simp_all add: atx_bits_def)
  show "atx_held h p' w'" "tcp_step (at_io p) w (at_io p') w'" "fin_rcvd (at_base p') = fin_rcvd (at_base p)"
    using q p(2,4,5) by (simp_all add: eq atx_held_def atx_bits_def atx_waits_def)
qed

text \<open>The flush in the callback.  Data that is not sent stays pending; the mask is empty only when nothing broke.\<close>

definition atx_flushed :: "tcp_pipe atx_pipe \<Rightarrow> os_world \<Rightarrow> uint \<Rightarrow> tcp_pipe atx_pipe \<Rightarrow> os_world \<Rightarrow> bool" where
  "atx_flushed p w ev p' w' \<longleftrightarrow>
     tcp_held 0 (at_io p') w' \<and> tcp_step (at_io p) w (at_io p') w' \<and> atx_waits p' \<and>
     at_hooked p' = at_hooked p \<and> at_want_fin p' = at_want_fin p \<and>
     atx_sent tcp_sent p' w' = atx_sent tcp_sent p w \<and> tcp_rcvd (at_io p') w' = tcp_rcvd (at_io p) w \<and>
     tcp_input (at_io p') w' = tcp_input (at_io p) w \<and>
     fin_rcvd (tp_base (at_io p')) = fin_rcvd (tp_base (at_io p)) \<and>
     (fin_sent (tp_base (at_io p)) \<longrightarrow> fin_sent (tp_base (at_io p'))) \<and>
     (readable (tp_base (at_io p)) \<longrightarrow> readable (tp_base (at_io p')) \<or> has ev IO_EV_broken)"

lemma atx_flushed_refl: "tcp_held 0 (at_io p) w \<Longrightarrow> atx_waits p \<Longrightarrow> atx_flushed p w ev p w"
  by (simp add: atx_flushed_def tcp_held_def tcp_step_refl)

lemma atx_flushed_trans:
  assumes "atx_flushed p w ev p1 w1" "atx_flushed p1 w1 ev' p2 w2" "has ev IO_EV_broken \<Longrightarrow> has ev' IO_EV_broken"
  shows "atx_flushed p w ev' p2 w2"
  using assms tcp_step_trans unfolding atx_flushed_def by metis

lemma atx_flush_held:
  assumes held: "tcp_held 0 (at_io p) w" "writable (tp_base (at_io p))" "atx_waits p" "at_pending p = Some b"
  obtains ev' p' w' where "atx_flush tcp_io p b ev w = Ok (ev', p', w')" "atx_flushed p w ev' p' w'"
    "fin_sent (tp_base (at_io p')) = fin_sent (tp_base (at_io p))" "has ev IO_EV_broken \<Longrightarrow> has ev' IO_EV_broken"
proof -
  have b: "wf_buf b" "buf_size b < 2 ^ 31" "\<not> fin_sent (tp_base (at_io p))" "length (buf_bytes b) < 2 ^ 31"
    using held(3,4) by (simp_all add: atx_waits_def)
  obtain r q w' where q: "tcp_pipe_send evl_select_api (at_io p) (buf_bytes b) w = Ok (r, q, w')"
    "tcp_held 0 q w'" "tcp_step (at_io p) w q w'" "-1 \<le> r" "r \<le> int (buf_size b)"
    "fin_rcvd (tp_base q) = fin_rcvd (tp_base (at_io p))" "fin_sent (tp_base q) = fin_sent (tp_base (at_io p))"
    "readable (tp_base (at_io p)) \<Longrightarrow> readable (tp_base q) \<or> r < 0 \<and> broken (tp_base q)"
    "tcp_rcvd q w' = tcp_rcvd (at_io p) w" "tcp_input q w' = tcp_input (at_io p) w"
    "tcp_sent q w' = tcp_sent (at_io p) w @ take (nat r) (buf_bytes b)"
    by (rule tcp_send_held [OF held(1,2) b(4)]) (use b(1) that in simp)
  consider (none) "r = -1" | (all) "r = int (buf_size b)" | (part) "0 \<le> r" "r < int (buf_size b)"
    using q(4,5) by linarith
  then show thesis
  proof cases
    case none
    then have "atx_flush tcp_io p b ev w = Ok ((if broken (tp_base q) then ev OR IO_EV_broken else ev) AND NOT IO_EV_writable,
        p\<lparr>at_io := q\<rparr>, w')"
      using q(1) by (simp add: atx_flush_def)
    then show thesis
      by (rule that) (use q held b none in \<open>auto simp: atx_flushed_def atx_waits_def atx_sent_def word_flags\<close>)
  next
    case all
    then have "atx_flush tcp_io p b ev w = Ok (if \<not> writable (tp_base q) then ev AND NOT IO_EV_writable else ev,
        p\<lparr>at_io := q, at_pending := None\<rparr>, w')"
      using q(1) b(2) by (simp add: atx_flush_def c_simps)
    then show thesis
      by (rule that) (use q held b all in \<open>auto simp: atx_flushed_def atx_waits_def atx_sent_def word_flags\<close>)
  next
    case part
    then have "atx_flush tcp_io p b ev w = Ok (ev AND NOT IO_EV_writable,
        p\<lparr>at_io := q, at_pending := Some (buf_consume (nat r) b)\<rparr>, w')"
      using q(1) b(2) by (simp add: atx_flush_def c_simps)
    then show thesis
      by (rule that) (use q held b part in \<open>auto simp: atx_flushed_def atx_waits_def atx_sent_def word_flags\<close>)
  qed
qed

lemma atx_flush_fin_held:
  assumes held: "tcp_held 0 (at_io p) w" "atx_waits p" "\<not> fin_sent (tp_base (at_io p))"
  obtains ev' p' w' where "atx_flush_fin tcp_io (ev, p, w) = Ok (ev', p', w')" "atx_flushed p w ev' p' w'"
    "has ev IO_EV_broken \<Longrightarrow> has ev' IO_EV_broken"
proof (cases "at_pending p = None \<and> at_want_fin p")
  case False
  then have "atx_flush_fin tcp_io (ev, p, w) = Ok (ev, p, w)" by (auto simp: atx_flush_fin_def)
  then show thesis by (rule that) (simp_all add: atx_flushed_refl held)
next
  case True
  obtain r q w' where q: "tcp_pipe_send_fin evl_select_api (at_io p) w = Ok (r, q, w')"
    "tcp_held 0 q w'" "tcp_step (at_io p) w q w'" "fin_rcvd (tp_base q) = fin_rcvd (tp_base (at_io p))"
    "r < 0 \<and> broken (tp_base q) \<or> 0 \<le> r \<and> fin_sent (tp_base q) \<and> readable (tp_base q) = readable (tp_base (at_io p))"
    "tcp_rcvd q w' = tcp_rcvd (at_io p) w" "tcp_input q w' = tcp_input (at_io p) w" "tcp_sent q w' = tcp_sent (at_io p) w"
    by (rule tcp_send_fin_held [OF held(1,3)]) (simp_all add: that)
  then have "atx_flush_fin tcp_io (ev, p, w) =
      Ok ((if r < 0 \<and> broken (tp_base q) then ev OR IO_EV_broken else ev) AND NOT IO_EV_writable, p\<lparr>at_io := q\<rparr>, w')"
    using True by (simp add: atx_flush_fin_def)
  then show thesis
    by (rule that) (use q True held(3) in \<open>auto simp: atx_flushed_def atx_waits_def atx_sent_def word_flags\<close>)
qed

lemma atx_event_held:
  assumes held: "atx_held h p w" and h: "h \<noteq> 0"
  obtains up p' w' where "atx_event tcp_io p h w = Ok (up, p', w')"
    "atx_held 0 p' w'" "tcp_step (at_io p) w (at_io p') w'"
    "atx_sent tcp_sent p' w' = atx_sent tcp_sent p w" "tcp_rcvd (at_io p') w' = tcp_rcvd (at_io p) w"
    "tcp_input (at_io p') w' = tcp_input (at_io p) w" "fin_rcvd (at_base p') = fin_rcvd (at_base p)"
    "fin_sent (tp_base (at_io p)) \<Longrightarrow> fin_sent (tp_base (at_io p'))" "at_want_fin p' = at_want_fin p"
    "up = None \<Longrightarrow> readable (at_base p) \<Longrightarrow> readable (at_base p')"
    "up = None \<Longrightarrow> writable (at_base p) \<Longrightarrow> writable (at_base p')"
proof -
  have p: "tcp_held h (at_io p) w" "at_hooked p" "at_base p = atx_bits p" "atx_waits p"
    using held by (simp_all add: atx_held_def)
  obtain io q w1 where q: "tcp_pipe_on_activity evl_select_api (at_io p) h w = Ok (Some io, q, w1)"
    "tcp_held 0 q w1" "tcp_step (at_io p) w q w1" "tcp_event_bits io (tp_base (at_io p)) (tp_base q)"
    "tcp_sent q w1 = tcp_sent (at_io p) w" "tcp_rcvd q w1 = tcp_rcvd (at_io p) w" "tcp_input q w1 = tcp_input (at_io p) w"
    by (rule tcp_event_held [OF p(1) h]) (rule that)
  let ?q = "p\<lparr>at_io := q\<rparr>"
  have waits: "atx_waits ?q" using p(4) q(4) by (simp add: atx_waits_def split: option.splits)
  have start: "atx_flushed p w io ?q w1"
    using q p(2) waits by (auto simp: atx_flushed_def atx_sent_def)
  have "\<exists>ev p1 w'. (case at_pending ?q of
        Some buf \<Rightarrow> if has io IO_EV_writable then bind_res (atx_flush tcp_io ?q buf io w1) (atx_flush_fin tcp_io) else Ok (io, ?q, w1)
      | None \<Rightarrow> Ok (io, ?q, w1)) = Ok (ev, p1, w') \<and> atx_flushed p w ev p1 w' \<and>
    (at_pending p = None \<longrightarrow> ev = io \<and> p1 = ?q)"
  proof (cases "at_pending p \<noteq> None \<and> has io IO_EV_writable")
    case False
    with start show ?thesis by (auto split: option.split)
  next
    case True
    then obtain b where b: "at_pending ?q = Some b" "writable (tp_base (at_io ?q))" using q(4) by auto
    have held_q: "tcp_held 0 (at_io ?q) w1" using q(2) by simp
    obtain e2 p2 w2 where f: "atx_flush tcp_io ?q b io w1 = Ok (e2, p2, w2)" "atx_flushed ?q w1 e2 p2 w2"
      "fin_sent (tp_base (at_io p2)) = fin_sent (tp_base (at_io ?q))" "has io IO_EV_broken \<Longrightarrow> has e2 IO_EV_broken"
      by (rule atx_flush_held [OF held_q b(2) waits b(1)]) (rule that)
    have "tcp_held 0 (at_io p2) w2" "atx_waits p2" "\<not> fin_sent (tp_base (at_io p2))"
      using f(2,3) waits b(1) by (simp_all add: atx_flushed_def) (simp add: atx_waits_def)
    then obtain e3 p3 w3 where g: "atx_flush_fin tcp_io (e2, p2, w2) = Ok (e3, p3, w3)" "atx_flushed p2 w2 e3 p3 w3"
      "has e2 IO_EV_broken \<Longrightarrow> has e3 IO_EV_broken"
      by (rule atx_flush_fin_held) (rule that)
    have "atx_flushed p w e3 p3 w3"
      by (rule atx_flushed_trans [OF atx_flushed_trans [OF start f(2,4)] g(2,3)])
    with True b(1) f(1) g(1) show ?thesis by auto
  qed
  then obtain ev p1 w' where e: "(case at_pending ?q of
        Some buf \<Rightarrow> if has io IO_EV_writable then bind_res (atx_flush tcp_io ?q buf io w1) (atx_flush_fin tcp_io) else Ok (io, ?q, w1)
      | None \<Rightarrow> Ok (io, ?q, w1)) = Ok (ev, p1, w')" "atx_flushed p w ev p1 w'"
    "at_pending p = None \<longrightarrow> ev = io \<and> p1 = ?q"
    by (elim exE conjE) (rule that)
  let ?p = "p1\<lparr>at_base := atx_bits p1\<rparr>"
  let ?up = "if ev = 0 then None else Some ev"
  have "at_hooked p1" using e(2) p(2) by (simp add: atx_flushed_def)
  then have "atx_event tcp_io p h w = Ok (?up, ?p, w')"
    using q(1) e(1) by (simp add: atx_event_def atx_pipe_on_activity_def atx_clone_bits Let_def)
  then show thesis
  proof (rule that)
    show "atx_held 0 ?p w'" using e(2) p(2) by (simp add: atx_flushed_def atx_held_def atx_waits_def split: option.splits)
    show "?up = None \<Longrightarrow> readable (at_base p) \<Longrightarrow> readable (at_base ?p)"
      using e(2) p(3) by (auto simp: atx_flushed_def split: if_splits)
    show "?up = None \<Longrightarrow> writable (at_base p) \<Longrightarrow> writable (at_base ?p)"
      using e(3) p(3) q(4) by (auto split: if_splits)
  qed (use e(2) p(3) in \<open>simp_all add: atx_flushed_def atx_sent_def\<close>)
qed

section \<open>The datagram pipe\<close>

lemma dgm_clone_base: "dgm_pipe_clone_state atx_io p = p\<lparr>dg_base := at_base (dg_io p)\<rparr>"
  by (simp add: dgm_pipe_clone_state_def)

text \<open>What the parts of \<open>recv\<close> do to the fields that matter here.\<close>

lemma process_rx_frame:
  assumes "process_rx p len = Ok (r, n, out, p')"
  obtains "p' = p" "dg_rx p \<noteq> None" | b where "dg_rx p = Some b" "\<exists>k. p' = p\<lparr>dg_rx := Some (buf_consume k b)\<rparr>"
proof -
  obtain b where b: "dg_rx p = Some b" using assms by (cases "dg_rx p") (simp_all add: process_rx_def)
  obtain r1 v where parse: "io_parse_size (buf_bytes b) (buf_size b) = Ok (r1, v)"
    using assms b by (cases "io_parse_size (buf_bytes b) (buf_size b)") (auto simp: process_rx_def)
  have "p' = p \<or> (\<exists>k. p' = p\<lparr>dg_rx := Some (buf_consume k b)\<rparr>)"
    using assms b parse by (simp add: process_rx_def Let_def split: if_splits) blast
  with b that show thesis by blast
qed

lemma adjust_rx_frame:
  assumes "adjust_rx p c = Ok p'"
  shows "dg_base p' = dg_base p" "dg_io p' = dg_io p" "dg_hooked p' = dg_hooked p" "max_hdr_size p' = max_hdr_size p"
    "dg_rx p = Some b \<Longrightarrow> \<exists>b'. dg_rx p' = Some b' \<and> capacity b' = max (capacity b) c"
  using assms
  by (auto simp: adjust_rx_def alloc_io_buffer_def bind_res_eq_Ok c_assert_eq_Ok Let_def max_def split: option.splits if_splits)

text \<open>The common ends of \<open>recv\<close>.  At the end of the stream the buffer must be empty.\<close>

abbreviation dgm_parts :: "uint \<Rightarrow> tcp_pipe atx_pipe dgm_pipe \<Rightarrow> os_world \<Rightarrow> bool" where
  "dgm_parts h p w \<equiv> atx_held h (dg_io p) w \<and> dg_hooked p \<and> max_hdr_size p = 5 \<and>
     (case dg_rx p of None \<Rightarrow> True | Some b \<Rightarrow> capacity b < 2 ^ 31)"

lemma dgm_pass_held:
  assumes "dgm_recv_pass atx_io r out p w = Ok (r', bs, p', w')" "dgm_parts h p w"
    "fin_rcvd (at_base (dg_io p)) \<Longrightarrow> \<exists>b. dg_rx p = Some b \<and> buf_size b = 0"
  shows "dgm_held h p' w' \<and> dg_io p' = dg_io p \<and> w' = w \<and> r' = r"
  using assms by (auto simp: dgm_recv_pass_def dgm_clone_base dgm_held_def Let_def split: option.splits if_splits)

lemma dgm_err_held:
  assumes "dgm_recv_err p w = Ok (r', bs, p', w')" "dgm_parts h p w" "fin_rcvd (dg_base p) \<Longrightarrow> fin_rcvd (at_base (dg_io p))"
  shows "dgm_held h p' w' \<and> dg_io p' = dg_io p \<and> w' = w \<and> r' = -1"
  using assms by (auto simp: dgm_recv_err_def dgm_held_def)

lemma c_int_less: "c_int n < 2 ^ 31"
  by (simp add: c_int_def Let_def) linarith

lemma dgm_more_held:
  assumes call: "dgm_recv_more atx_io p len w = Ok (r, bs, p', w')" and parts: "dgm_parts h p w"
    and rd: "readable (at_base (dg_io p))" and fin: "\<not> fin_rcvd (dg_base p)"
  shows "dgm_held h p' w' \<and> tcp_step (at_io (dg_io p)) w (at_io (dg_io p')) w' \<and> r < 2 ^ 31"
proof -
  obtain b where b: "dg_rx p = Some b" "buf_size b < capacity b" "capacity b < 2 ^ 31"
    using call parts by (auto simp: dgm_recv_more_def c_assert_eq_Ok split: option.splits)
  obtain r1 bs1 q w1 where rcv: "atx_pipe_recv tcp_io (dg_io p) (capacity b - buf_size b) w = Ok (r1, bs1, q, w1)"
    using call b(1) by (auto simp: dgm_recv_more_def c_assert_eq_Ok bind_res_eq_Ok)
  have n: "0 < capacity b - buf_size b" "capacity b - buf_size b < 2 ^ 31" using b(2,3) by simp_all
  have "atx_held h (dg_io p) w" using parts by blast
  note q = atx_recv_held [OF this rd n rcv]
  let ?p = "p\<lparr>dg_io := q\<rparr>"
  let ?b = "b\<lparr>buf_data := take (buf_size b) (buf_data b) @ bs1 @ drop (buf_size b + length bs1) (buf_data b),
    buf_size := buf_size b + nat r1\<rparr>"
  have parts_q: "dgm_parts h ?p w1" "dgm_parts h (?p\<lparr>dg_rx := Some (c :: io_buffer)\<rparr>) w1" if "capacity c < 2 ^ 31" for c
    using parts q(1) that by simp_all
  have rest: "(if r1 < 0 then dgm_recv_pass atx_io r1 [] ?p w1
      else if r1 = 0 then if buf_size b \<noteq> 0 then dgm_recv_err ?p w1 else dgm_recv_pass atx_io r1 [] ?p w1
      else bind_res (process_rx (?p\<lparr>dg_rx := Some ?b\<rparr>) len) (\<lambda>(r, dgm_size, out, p).
        if r < 0 then dgm_recv_err p w1
        else dgm_recv_pass atx_io (if 0 < r then c_int dgm_size else -1) out p w1)) = Ok (r, bs, p', w')"
    using call unfolding dgm_recv_more_def b(1)
    by (simp only: option.case c_assert_eq_Ok atx_api_sel rcv bind_res_Ok prod.case Let_def)
  have "dgm_held h p' w' \<and> dg_io p' = q \<and> w' = w1 \<and> r < 2 ^ 31"
  proof (cases "0 < r1")
    case False
    show ?thesis
    proof (cases "r1 = 0 \<and> buf_size b \<noteq> 0")
      case True
      then have "dgm_recv_err ?p w1 = Ok (r, bs, p', w')" using rest by simp
      from dgm_err_held [OF this parts_q(1) [OF b(3)]] fin show ?thesis by auto
    next
      case noerr: False
      then have "dgm_recv_pass atx_io r1 [] ?p w1 = Ok (r, bs, p', w')" using rest False by (simp split: if_splits)
      from dgm_pass_held [OF this parts_q(1) [OF b(3)]] noerr b(1) q(3,6) show ?thesis by auto
    qed
  next
    case True
    then obtain r2 m out p2 where pr: "process_rx (?p\<lparr>dg_rx := Some ?b\<rparr>) len = Ok (r2, m, out, p2)"
      and rest: "(if r2 < 0 then dgm_recv_err p2 w1
        else dgm_recv_pass atx_io (if 0 < r2 then c_int m else -1) out p2 w1) = Ok (r, bs, p', w')"
      using rest by (auto simp: bind_res_eq_Ok)
    have "\<exists>c. p2 = ?p\<lparr>dg_rx := Some c\<rparr> \<and> capacity c < 2 ^ 31"
      using pr by (rule process_rx_frame) (use b(3) in auto)
    then obtain c where c: "p2 = ?p\<lparr>dg_rx := Some c\<rparr>" "capacity c < 2 ^ 31" by blast
    note parts2 = parts_q(2) [OF c(2), folded c(1)]
    show ?thesis
    proof (cases "r2 < 0")
      case True
      then have "dgm_recv_err p2 w1 = Ok (r, bs, p', w')" using rest by simp
      from dgm_err_held [OF this parts2] fin c(1) show ?thesis by auto
    next
      case False
      then have "dgm_recv_pass atx_io (if 0 < r2 then c_int m else -1) out p2 w1 = Ok (r, bs, p', w')" using rest by simp
      from dgm_pass_held [OF this parts2] c(1) q(6) True c_int_less [of m] show ?thesis by auto
    qed
  qed
  with q(2) show ?thesis by auto
qed

lemma dgm_recv_held:
  assumes held: "dgm_held h p w" and rd: "readable (dg_base p)" and n: "n < 2 ^ 30"
    and call: "dgm_pipe_recv atx_io p n w = Ok (r, bs, p', w')"
  shows "dgm_held h p' w' \<and> tcp_step (at_io (dg_io p)) w (at_io (dg_io p')) w' \<and> r < 2 ^ 31"
proof -
  have p: "dgm_parts h p w" "readable (at_base (dg_io p))" "max_hdr_size p = 5" using held rd by (simp_all add: dgm_held_def)
  then have tcp: "tcp_held h (at_io (dg_io p)) w" "at_base (dg_io p) = atx_bits (dg_io p)" by (simp_all add: atx_held_def)
  then have fin: "\<not> fin_rcvd (at_base (dg_io p))" using p(2) by (simp add: tcp_held_def)
  then have fin': "\<not> fin_rcvd (dg_base p)" using held by (auto simp: dgm_held_def)
  have refl: "tcp_step (at_io (dg_io p)) w (at_io (dg_io p)) w"
    using tcp(1) by (simp add: tcp_held_def tcp_step_refl)
  consider (broken) "broken (dg_base p)" | (empty) "\<not> broken (dg_base p)" "dg_rx p = None"
    | (rx) b where "\<not> broken (dg_base p)" "dg_rx p = Some b" by blast
  then show ?thesis
  proof cases
    case broken
    then show ?thesis using call held refl by (simp add: dgm_pipe_recv_def)
  next
    case empty
    then obtain b where b: "alloc_io_buffer (5 + n) None 0 = Ok b" "capacity b = 5 + n"
      and more: "dgm_recv_more atx_io (p\<lparr>dg_rx := Some b\<rparr>) n w = Ok (r, bs, p', w')"
      using call p(3) by (simp add: dgm_pipe_recv_def alloc_io_buffer_None)
    from dgm_more_held [OF more, of h] p b(2) n fin' show ?thesis by simp
  next
    case rx
    then obtain r2 m out p2 where pr: "process_rx p n = Ok (r2, m, out, p2)"
      and rest: "(if r2 < 0 then dgm_recv_err p2 w
          else if 0 < r2 then dgm_recv_pass atx_io (c_int m) out p2 w
          else if m \<noteq> 0 \<and> n < m then dgm_recv_err p2 w
          else bind_res (adjust_rx p2 (max_hdr_size p2 + n)) (\<lambda>p. dgm_recv_more atx_io p n w)) = Ok (r, bs, p', w')"
      using call by (auto simp: dgm_pipe_recv_def bind_res_eq_Ok)
    have "\<exists>c. p2 = p\<lparr>dg_rx := Some c\<rparr> \<and> capacity c < 2 ^ 31"
      using pr
    proof (rule process_rx_frame)
      assume "p2 = p"
      then show ?thesis using rx(2) p(1) by (intro exI [of _ b]) simp
    next
      fix b' assume "dg_rx p = Some b'" "\<exists>k. p2 = p\<lparr>dg_rx := Some (buf_consume k b')\<rparr>"
      then show ?thesis using p(1) by auto
    qed
    then obtain c where c: "p2 = p\<lparr>dg_rx := Some c\<rparr>" "capacity c < 2 ^ 31" by blast
    have parts2: "dgm_parts h p2 w" using p(1) c by simp
    consider (err) "dgm_recv_err p2 w = Ok (r, bs, p', w')"
      | (pass) "dgm_recv_pass atx_io (c_int m) out p2 w = Ok (r, bs, p', w')"
      | (more) p3 where "adjust_rx p2 (5 + n) = Ok p3" "dgm_recv_more atx_io p3 n w = Ok (r, bs, p', w')"
      using rest p(3) c(1) by (auto simp: bind_res_eq_Ok split: if_splits)
    then show ?thesis
    proof cases
      case err
      from dgm_err_held [OF err parts2] fin' c(1) refl show ?thesis by auto
    next
      case pass
      from dgm_pass_held [OF pass parts2] fin c(1) refl c_int_less [of m] show ?thesis by auto
    next
      case more
      obtain d where d: "dg_rx p3 = Some d" "capacity d = max (capacity c) (5 + n)"
        using adjust_rx_frame(5) [OF more(1), of c] c(1) by auto
      have "dgm_parts h p3 w" "readable (at_base (dg_io p3))" "\<not> fin_rcvd (dg_base p3)" "dg_io p3 = dg_io p"
        using adjust_rx_frame(1-4) [OF more(1)] c p d n fin' by simp_all
      with dgm_more_held [OF more(2), of h] show ?thesis by simp
    qed
  qed
qed

lemma io_store_size_stores: "\<exists>r data. io_store_size (Some b) n v = (r, Some data)"
  by (simp add: io_store_size_Some Let_def)

lemma dgm_send_held:
  assumes held: "dgm_held h p w" and wr: "writable (dg_base p)" and len: "length cs < 2 ^ 31"
    and call: "dgm_pipe_send atx_io p cs w = Ok (r, p', w')"
  shows "dgm_held h p' w' \<and> tcp_step (at_io (dg_io p)) w (at_io (dg_io p')) w'"
proof -
  have p: "dgm_parts h p w" "writable (at_base (dg_io p))" "max_hdr_size p = 5" using held wr by (simp_all add: dgm_held_def)
  have refl: "tcp_step (at_io (dg_io p)) w (at_io (dg_io p)) w"
    using p(1) by (simp add: atx_held_def tcp_held_def tcp_step_refl)
  define dgm where "dgm = \<lparr>capacity = length cs + 5, buf_head = 0, buf_size = 0, buf_data = replicate (length cs + 5) (0 :: byte)\<rparr>"
  obtain r1 data where st: "io_store_size (Some (buf_data dgm)) (capacity dgm) (of_nat (length cs)) = (r1, Some data)"
    using io_store_size_stores by blast
  have rest: "(if r1 < 0 then Ok (-1, p\<lparr>dg_base := tag_pipe_as_broken (dg_base p)\<rparr>, w)
       else c_assert (c_size r1 + length cs \<le> capacity dgm)
        (let dgm = dgm\<lparr>buf_data := take (nat r1) data @ cs @ drop (nat r1 + length cs) data, buf_size := nat r1 + length cs\<rparr>
         in bind_res (atx_pipe_send tcp_io (dg_io p) (buf_bytes dgm) w) (\<lambda>(r, q, w).
           let p = dgm_pipe_clone_state atx_io (p\<lparr>dg_io := q\<rparr>)
           in c_assert (r < 0 \<or> c_size r = buf_size dgm)
                (Ok (if 0 < r then c_int (length cs) else -1, p, w))))) = Ok (r, p', w')"
    using call unfolding dgm_pipe_send_def p(3) alloc_io_buffer_None dgm_def [symmetric]
    by (simp only: wr not_True_eq_False if_False bind_res_Ok st prod.case option.case atx_api_sel)
  show ?thesis
  proof (cases "r1 < 0")
    case True
    then have "p' = p\<lparr>dg_base := tag_pipe_as_broken (dg_base p)\<rparr>" "w' = w" using rest by auto
    then show ?thesis using held refl by (simp add: dgm_held_def)
  next
    case False
    let ?d = "dgm\<lparr>buf_data := take (nat r1) data @ cs @ drop (nat r1 + length cs) data, buf_size := nat r1 + length cs\<rparr>"
    obtain r2 q w1 where snd: "atx_pipe_send tcp_io (dg_io p) (buf_bytes ?d) w = Ok (r2, q, w1)"
      and eq: "p' = dgm_pipe_clone_state atx_io (p\<lparr>dg_io := q\<rparr>)" "w' = w1"
      and fits: "c_size r1 + length cs \<le> capacity dgm"
      using rest False by (auto simp: Let_def bind_res_eq_Ok c_assert_eq_Ok)
    have "length (buf_bytes ?d) \<le> nat r1 + length cs" using buf_bytes_le [of ?d] by simp
    moreover have "length cs < 2 ^ 28" "nat r1 \<le> 5"
      using st False len length_varint_le [of "length cs"]
      by (auto simp: io_store_size_Some Let_def unat_of_nat split: if_splits)
    ultimately have "length (buf_bytes ?d) < 2 ^ 31" by simp
    note q = atx_send_held [OF _ p(2) this snd]
    have "atx_held h (dg_io p) w" using p(1) by blast
    note q = q(1) [OF this] q(2) [OF this] q(3) [OF this]
    show ?thesis
      using q p(1) held by (simp add: eq dgm_clone_base dgm_held_def)
  qed
qed

lemma dgm_send_fin_held:
  assumes held: "dgm_held h p w" and wr: "writable (dg_base p)"
    and call: "dgm_pipe_send_fin atx_io p w = Ok (r, p', w')"
  shows "dgm_held h p' w' \<and> tcp_step (at_io (dg_io p)) w (at_io (dg_io p')) w'"
proof -
  have p: "atx_held h (dg_io p) w" "writable (at_base (dg_io p))" using held wr by (simp_all add: dgm_held_def)
  obtain r1 q w1 where fin: "atx_pipe_send_fin tcp_io (dg_io p) w = Ok (r1, q, w1)"
    and eq: "p' = p\<lparr>dg_io := q, dg_base := at_base q\<rparr>" "w' = w1"
    using call by (auto simp: dgm_pipe_send_fin_def dgm_clone_base bind_res_eq_Ok)
  from atx_send_fin_held [OF p fin] held show ?thesis by (simp add: eq dgm_held_def)
qed

lemma dgm_event_held:
  assumes held: "dgm_held h p w" and h: "h \<noteq> 0"
  shows "\<exists>up p' w'. dgm_event atx_io p h w = Ok (up, p', w') \<and> dgm_held 0 p' w' \<and>
    tcp_step (at_io (dg_io p)) w (at_io (dg_io p')) w' \<and>
    atx_sent tcp_sent (dg_io p') w' = atx_sent tcp_sent (dg_io p) w \<and>
    tcp_rcvd (at_io (dg_io p')) w' = tcp_rcvd (at_io (dg_io p)) w \<and>
    tcp_input (at_io (dg_io p')) w' = tcp_input (at_io (dg_io p)) w \<and>
    dg_rx p' = dg_rx p \<and> max_size p' = max_size p \<and>
    (fin_rcvd (dg_base p) \<longrightarrow> fin_rcvd (dg_base p')) \<and>
    (fin_sent (tp_base (at_io (dg_io p))) \<longrightarrow> fin_sent (tp_base (at_io (dg_io p')))) \<and>
    at_want_fin (dg_io p') = at_want_fin (dg_io p)"
proof -
  have p: "atx_held h (dg_io p) w" using held by (simp add: dgm_held_def)
  obtain up q w' where q: "atx_event tcp_io (dg_io p) h w = Ok (up, q, w')"
    "atx_held 0 q w'" "tcp_step (at_io (dg_io p)) w (at_io q) w'"
    "atx_sent tcp_sent q w' = atx_sent tcp_sent (dg_io p) w" "tcp_rcvd (at_io q) w' = tcp_rcvd (at_io (dg_io p)) w"
    "tcp_input (at_io q) w' = tcp_input (at_io (dg_io p)) w" "fin_rcvd (at_base q) = fin_rcvd (at_base (dg_io p))"
    "fin_sent (tp_base (at_io (dg_io p))) \<Longrightarrow> fin_sent (tp_base (at_io q))" "at_want_fin q = at_want_fin (dg_io p)"
    "up = None \<Longrightarrow> readable (at_base (dg_io p)) \<Longrightarrow> readable (at_base q)"
    "up = None \<Longrightarrow> writable (at_base (dg_io p)) \<Longrightarrow> writable (at_base q)"
    by (rule atx_event_held [OF p h]) (rule that)
  show ?thesis
  proof (cases up)
    case None
    then have "dgm_event atx_io p h w = Ok (None, p\<lparr>dg_io := q\<rparr>, w')" using q(1) by (simp add: dgm_event_def)
    moreover have "dgm_held 0 (p\<lparr>dg_io := q\<rparr>) w'"
      using held q(2,7,10,11) None by (auto simp: dgm_held_def)
    ultimately show ?thesis using q(3-9) held by (auto simp: dgm_held_def)
  next
    case (Some ev)
    let ?p = "p\<lparr>dg_io := q, dg_base := at_base q\<rparr>"
    have "dgm_event atx_io p h w = Ok (Some ev, ?p, w')"
      using q(1) Some held by (simp add: dgm_event_def dgm_pipe_on_activity_def dgm_clone_base Let_def dgm_held_def)
    moreover have "dgm_held 0 ?p w'" using held q(2,7) by (simp add: dgm_held_def)
    ultimately show ?thesis using q(3-9) held by (auto simp: dgm_held_def)
  qed
qed

abbreviation "dgm_tcp p \<equiv> at_io (dg_io p)"

interpretation dgm_program: program_pipe dgm_view "\<lambda>p. dgm_tcp p" dgm_held
proof
  fix h p w n r bs p' w'
  assume a: "dgm_held h p w" "readable (pipe_flags (v_api dgm_view) p)" "n < 2 ^ 30"
    "pipe_recv (v_api dgm_view) p n w = Ok (r, bs, p', w')"
  then show "dgm_held h p' w' \<and> tcp_step (at_io (dg_io p)) w (at_io (dg_io p')) w' \<and> r < 2 ^ 31"
    by (intro dgm_recv_held [of h p w n r bs p' w']) (simp_all add: dgm_view_def)
next
  fix h p w cs r p' w'
  assume a: "dgm_held h p w" "writable (pipe_flags (v_api dgm_view) p)" "length cs < 2 ^ 31"
    "pipe_send (v_api dgm_view) p cs w = Ok (r, p', w')"
  then show "dgm_held h p' w' \<and> tcp_step (at_io (dg_io p)) w (at_io (dg_io p')) w'"
    by (intro dgm_send_held [of h p w cs r p' w']) (simp_all add: dgm_view_def)
next
  fix h p w r p' w'
  assume a: "dgm_held h p w" "writable (pipe_flags (v_api dgm_view) p)"
    "pipe_send_fin (v_api dgm_view) p w = Ok (r, p', w')"
  then show "dgm_held h p' w' \<and> tcp_step (at_io (dg_io p)) w (at_io (dg_io p')) w'"
    by (intro dgm_send_fin_held [of h p w r p' w']) (simp_all add: dgm_view_def)
next
  fix h p w assume a: "dgm_held h p w" "h \<noteq> 0"
  show "\<exists>up p' w'. pipe_event (v_api dgm_view) p h w = Ok (up, p', w') \<and> dgm_held 0 p' w' \<and>
      tcp_step (at_io (dg_io p)) w (at_io (dg_io p')) w' \<and>
      v_sent dgm_view p' w' = v_sent dgm_view p w \<and> v_rcvd dgm_view p' w' = v_rcvd dgm_view p w \<and>
      v_input dgm_view p' w' = v_input dgm_view p w \<and>
      (fin_rcvd (pipe_flags (v_api dgm_view) p) \<longrightarrow> fin_rcvd (pipe_flags (v_api dgm_view) p')) \<and>
      (v_fin dgm_view p \<longrightarrow> v_fin dgm_view p')"
    using dgm_event_held [OF a]
    by (elim exE conjE) (intro exI conjI, auto simp: dgm_view_def dgm_sent_def dgm_rcvd_def dgm_datagrams_def
      dgm_input_def atx_fin_asked_def)
next
  fix p :: "tcp_pipe atx_pipe dgm_pipe" and w :: os_world
  let ?r = "tcp_rcvd (dgm_tcp p) w" and ?s = "script_bytes (rx_script (w_sock w (tp_sk (dgm_tcp p))))"
  let ?k = "length ?r - length (pending_bytes (dg_rx p))"
  have "\<exists>rest. payload (max_size p) (?r @ ?s) = payload (max_size p) (take ?k ?r) @ rest"
    using payload_prefix [of "max_size p" "take ?k ?r" "drop ?k ?r @ ?s"] by (metis append_assoc append_take_drop_id)
  then show "\<exists>rest. v_input dgm_view p w = v_rcvd dgm_view p w @ rest"
    by (simp add: dgm_view_def dgm_input_def dgm_rcvd_def dgm_datagrams_def payload_def tcp_input_def tcp_rcvd_def Let_def)
next
  fix h and p :: "tcp_pipe atx_pipe dgm_pipe" and w
  assume "dgm_held h p w" "fin_rcvd (pipe_flags (v_api dgm_view) p)"
  then have "dg_rx p = None" "script_bytes (rx_script (w_sock w (tp_sk (dgm_tcp p)))) = []"
    by (auto simp: dgm_view_def dgm_held_def atx_held_def tcp_held_def)
  then show "v_input dgm_view p w = v_rcvd dgm_view p w"
    by (simp add: dgm_view_def dgm_input_def dgm_rcvd_def dgm_datagrams_def payload_def tcp_input_def tcp_rcvd_def Let_def)
qed (auto simp: dgm_view_def dgm_held_def atx_held_def tcp_held_def tcp_reg_def dgm_sent_def dgm_rcvd_def dgm_datagrams_def
      dgm_input_def atx_sent_def tcp_sent_def tcp_rcvd_def tcp_input_def dgm_ok_def dgm_inv_def atx_ok_def atx_inv_def)

end
