(* ===== verification/BridgeFrame.thy ===== *)
theory BridgeFrame
  imports Bridge
begin

text \<open>
  What a bridge cannot change.  An assertion \<open>I\<close> on the two pipes and the world that receiving
  from one pipe while the other is writable, and sending to that one, keep, is kept by every
  callback of the bridge.  Nothing is assumed about the invariant of the pipes, so this holds of
  a bridge with a broken pipe too.
\<close>

definition stream_ok :: "'p br_stream \<Rightarrow> bool" where
  "stream_ok st \<longleftrightarrow> 0 < recv_size st \<and> recv_size st < 2 ^ 30"

definition pending_ok :: "'p br_stream \<Rightarrow> bool" where
  "pending_ok st \<longleftrightarrow> length (pending_bytes (st_pending st)) < 2 ^ 31"

lemma stream_ok_sel [simp]:
  "stream_ok (st\<lparr>st_pipe := p\<rparr>) = stream_ok st" "stream_ok (st\<lparr>st_rx := n\<rparr>) = stream_ok st"
  "pending_ok (st\<lparr>st_pipe := p\<rparr>) = pending_ok st" "pending_ok (st\<lparr>st_rx := n\<rparr>) = pending_ok st"
  by (simp_all add: stream_ok_def pending_ok_def)

locale bridge_frame =
  fixes sapi :: "('p, 'w) io_pipe" and dapi :: "('q, 'w) io_pipe"
    and I :: "'p \<Rightarrow> 'q \<Rightarrow> 'w \<Rightarrow> bool"
  assumes recv_frame: "I p q w \<Longrightarrow> readable (pipe_flags sapi p) \<Longrightarrow> 0 < n \<Longrightarrow> n < 2 ^ 30 \<Longrightarrow>
      pipe_recv sapi p n w = Ok (r, bs, p', w') \<Longrightarrow> I p' q w' \<and> r < 2 ^ 31"
    and send_frame: "I p q w \<Longrightarrow> writable (pipe_flags dapi q) \<Longrightarrow> length cs < 2 ^ 31 \<Longrightarrow>
      pipe_send dapi q cs w = Ok (r, q', w') \<Longrightarrow> I p q' w'"
    and fin_frame: "I p q w \<Longrightarrow> writable (pipe_flags dapi q) \<Longrightarrow>
      pipe_send_fin dapi q w = Ok (r, q', w') \<Longrightarrow> I p q' w'"
begin

abbreviation ends :: "'p br_stream \<Rightarrow> 'q br_stream \<Rightarrow> 'w \<Rightarrow> bool" where
  "ends s d w \<equiv> I (st_pipe s) (st_pipe d) w \<and> stream_ok s \<and> pending_ok d"

abbreviation kept :: "'p br_stream \<Rightarrow> 'q br_stream \<Rightarrow> 'p br_stream \<Rightarrow> 'q br_stream \<Rightarrow> 'w \<Rightarrow> bool" where
  "kept s d s' d' w' \<equiv> ends s' d' w' \<and> pending_ok s' = pending_ok s \<and> stream_ok d' = stream_ok d"

lemma flush_frame:
  assumes "br_stream_flush dapi d w = Ok (r, d', w')" "ends s d w"
  shows "kept s d s d' w'"
proof -
  obtain buf where buf: "st_pending d = Some buf" "writable (pipe_flags dapi (st_pipe d))"
    using assms(1) by (auto simp: br_stream_flush_def c_assert_eq_Ok split: option.splits)
  have small: "length (buf_bytes buf) < 2 ^ 31" using assms(2) buf(1) by (simp add: pending_ok_def)
  obtain bytes q w1 where snd: "pipe_send dapi (st_pipe d) (buf_bytes buf) w = Ok (bytes, q, w1)"
    using assms(1) buf by (cases "pipe_send dapi (st_pipe d) (buf_bytes buf) w") (auto simp: br_stream_flush_def)
  have "st_pipe d' = q \<and> w' = w1 \<and> recv_size d' = recv_size d \<and>
      (st_pending d' = None \<or> st_pending d' = Some buf \<or> st_pending d' = Some (buf_consume (nat bytes) buf))"
    using assms(1) buf snd by (simp add: br_stream_flush_def c_assert_eq_Ok Let_def split: if_splits) auto
  with send_frame [OF _ buf(2) small snd] assms(2) small le_less_trans [OF buf_bytes_consume_le small, of "nat bytes"]
  show ?thesis by (auto simp: stream_ok_def pending_ok_def)
qed

lemma tx_frame:
  assumes "br_bridge_tx dapi d buf w = Ok (r, d', sp, w')" "ends s d w" "writable (pipe_flags dapi (st_pipe d))"
    and small: "buf_size buf < 2 ^ 31"
  shows "kept s d s d' w'"
proof -
  obtain bytes q w1 where snd: "pipe_send dapi (st_pipe d) (take (buf_size buf) (buf_data buf)) w = Ok (bytes, q, w1)"
    using assms(1) by (auto simp: br_bridge_tx_def bind_res_eq_Ok)
  have "\<exists>k. st_pipe d' = q \<and> w' = w1 \<and> recv_size d' = recv_size d \<and>
      (st_pending d' = st_pending d \<or> st_pending d' = Some (buf_consume k buf))"
    using assms(1) snd by (simp add: br_bridge_tx_def c_assert_eq_Ok Let_def split: if_splits) auto
  then obtain k where d': "st_pipe d' = q" "w' = w1" "recv_size d' = recv_size d"
    "st_pending d' = st_pending d \<or> st_pending d' = Some (buf_consume k buf)" by blast
  have "length (take (buf_size buf) (buf_data buf)) < 2 ^ 31" using small by simp
  with send_frame [OF _ assms(3) _ snd] d'(1,2) assms(2) have "I (st_pipe s) (st_pipe d') w'" by simp
  moreover have "pending_ok d'"
    using d'(4) assms(2) le_less_trans [OF order_trans [OF buf_bytes_consume_le buf_bytes_le] small, of k]
    by (auto simp: pending_ok_def)
  ultimately show ?thesis using d'(3) assms(2) by (simp add: stream_ok_def)
qed

lemma rx_tx_frame:
  assumes "br_bridge_rx_tx sapi dapi s d space w = Ok (r, s', d', space', w')" "ends s d w"
  shows "kept s d s' d' w'"
proof -
  obtain buf bytes bs p w1 where wr: "readable (pipe_flags sapi (st_pipe s))" "writable (pipe_flags dapi (st_pipe d))"
    and rcv: "pipe_recv sapi (st_pipe s) (recv_size s) w = Ok (bytes, bs, p, w1)"
    and rest: "(if bytes < 0 then
                   Ok (if broken (pipe_flags sapi p) then -1 else 0, s\<lparr>st_pipe := p\<rparr>, d, Some buf, w1)
                 else if bytes = 0 then
                   c_assert (fin_rcvd (pipe_flags sapi p))
                   (c_assert (\<not> fin_sent (pipe_flags dapi (st_pipe d)))
                     (bind_res (pipe_send_fin dapi (st_pipe d) w1) (\<lambda>(r, q, w).
                       Ok (if r < 0 \<and> broken (pipe_flags dapi q) then -1 else 0,
                           s\<lparr>st_pipe := p\<rparr>, d\<lparr>st_pipe := q\<rparr>, Some buf, w))))
                 else
                   bind_res (br_bridge_tx dapi d (buf\<lparr>buf_size := nat bytes\<rparr>) w1)
                     (\<lambda>(r, d, space, w).
                       Ok (r, s\<lparr>st_pipe := p, st_rx := st_rx (s\<lparr>st_pipe := p\<rparr>) + word_of_int bytes\<rparr>, d, space, w)))
      = Ok (r, s', d', space', w')"
    using assms(1) by (auto simp: br_bridge_rx_tx_def bind_res_eq_Ok c_assert_eq_Ok Let_def split: option.splits)
  have n: "0 < recv_size s" "recv_size s < 2 ^ 30" using assms(2) by (simp_all add: stream_ok_def)
  have I1: "I p (st_pipe d) w1" "bytes < 2 ^ 31" using recv_frame [OF _ wr(1) n rcv] assms(2) by blast+
  then have ends: "ends (s\<lparr>st_pipe := p\<rparr>) d w1" using assms(2) by simp
  consider "bytes < 0" | "bytes = 0" | "0 < bytes" by linarith
  then show ?thesis
  proof cases
    case 1
    with rest ends show ?thesis by auto
  next
    case 2
    with rest ends fin_frame [OF _ wr(2)] show ?thesis
      by (auto simp: bind_res_eq_Ok c_assert_eq_Ok)
  next
    case 3
    then obtain d2 sp where tx: "br_bridge_tx dapi d (buf\<lparr>buf_size := nat bytes\<rparr>) w1 = Ok (r, d2, sp, w')"
      "s' = s\<lparr>st_pipe := p, st_rx := st_rx s + word_of_int bytes\<rparr>" "d' = d2"
      using rest by (auto simp: bind_res_eq_Ok)
    have "buf_size (buf\<lparr>buf_size := nat bytes\<rparr>) < 2 ^ 31" using I1(2) by simp
    from tx_frame [OF tx(1) ends wr(2) this] tx(2,3) show ?thesis by auto
  qed
qed

lemma relay_loop_frame:
  "br_relay_loop n sapi dapi s d buf w = Ok (r, s', d', w') \<Longrightarrow> ends s d w \<Longrightarrow> kept s d s' d' w'"
proof (induction n arbitrary: s d buf w)
  case (Suc n)
  show ?case
  proof (cases "readable (pipe_flags sapi (st_pipe s)) \<and> writable (pipe_flags dapi (st_pipe d))")
    case True
    then obtain r1 s1 d1 buf1 w1 where rx: "br_bridge_rx_tx sapi dapi s d buf w = Ok (r1, s1, d1, buf1, w1)"
      and rest: "(if r1 < 0 then Ok (-1, s1, d1, w1)
        else c_assert (buf1 \<noteq> None \<or> \<not> writable (pipe_flags dapi (st_pipe d1)))
          (br_relay_loop n sapi dapi s1 d1 buf1 w1)) = Ok (r, s', d', w')"
      using Suc.prems(1) by (auto simp: bind_res_eq_Ok)
    have ends: "kept s d s1 d1 w1" by (rule rx_tx_frame [OF rx Suc.prems(2)])
    show ?thesis
    proof (cases "r1 < 0")
      case False
      then have "br_relay_loop n sapi dapi s1 d1 buf1 w1 = Ok (r, s', d', w')"
        using rest by (simp add: c_assert_eq_Ok)
      from Suc.IH [OF this] ends show ?thesis by simp
    qed (use rest ends in auto)
  qed (use Suc.prems in auto)
qed simp

lemma relay_frame:
  assumes "br_bridge_relay n sapi dapi s d w = Ok (r, s', d', w')" "ends s d w"
  shows "kept s d s' d' w'"
proof -
  obtain buf where "br_relay_loop n sapi dapi s d (Some buf) w = Ok (r, s', d', w')"
    using assms(1) by (auto simp: br_bridge_relay_def Let_def bind_res_eq_Ok)
  then show ?thesis by (rule relay_loop_frame [OF _ assms(2)])
qed

end

text \<open>Both directions.\<close>

locale bridge_frames =
  out: bridge_frame sapi dapi I + ret: bridge_frame dapi sapi "\<lambda>q p w. I p q w"
  for sapi :: "('p, 'w) io_pipe" and dapi :: "('q, 'w) io_pipe" and I :: "'p \<Rightarrow> 'q \<Rightarrow> 'w \<Rightarrow> bool"
begin

abbreviation both :: "'p br_stream \<Rightarrow> 'q br_stream \<Rightarrow> 'w \<Rightarrow> bool" where
  "both s d w \<equiv> I (st_pipe s) (st_pipe d) w \<and> stream_ok s \<and> pending_ok s \<and> stream_ok d \<and> pending_ok d"

lemma on_writable_frame:
  assumes "br_on_writable n sapi dapi s d w = Ok (r, s', d', w')" "both s d w"
  shows "both s' d' w'"
proof -
  obtain r1 s1 w1 where f: "(if st_pending s \<noteq> None then br_stream_flush sapi s w else Ok (0, s, w)) = Ok (r1, s1, w1)"
    and rest: "(if r1 < 0 then Ok (-1, s1, d, w1)
           else if writable (pipe_flags sapi (st_pipe s1)) then
             bind_res (br_bridge_relay n dapi sapi d s1 w1)
               (\<lambda>(r, peer, self, w). Ok (if r < 0 then -1 else 0, self, peer, w))
           else Ok (0, s1, d, w1)) = Ok (r, s', d', w')"
    using assms(1) by (auto simp: br_on_writable_def bind_res_eq_Ok c_assert_eq_Ok)
  have ends: "both s1 d w1"
    using f assms(2) ret.flush_frame [of s w r1 s1 w1 d] by (auto split: if_splits)
  show ?thesis
  proof (cases "r1 < 0 \<or> \<not> writable (pipe_flags sapi (st_pipe s1))")
    case False
    then obtain r2 where "br_bridge_relay n dapi sapi d s1 w1 = Ok (r2, d', s', w')"
      using rest by (auto simp: bind_res_eq_Ok)
    from ret.relay_frame [OF this] ends show ?thesis by simp
  qed (use rest ends in \<open>auto split: if_splits\<close>)
qed

lemma on_readable_frame:
  assumes "br_on_readable n sapi dapi s d w = Ok (r, s', d', w')" "both s d w"
  shows "both s' d' w'"
  using assms out.relay_frame [of n s d w r s' d' w'] by (auto simp: br_on_readable_def split: if_splits)

lemma activity_frame:
  assumes "br_stream_on_activity n sapi dapi dead s d ev w = Ok (shut, dead', s', d', w')" "both s d w"
  shows "both s' d' w' \<and> (dead \<longrightarrow> dead' \<and> shut = None \<and> s' = s \<and> d' = d \<and> w' = w)"
proof (cases dead)
  case True
  then show ?thesis using assms by (auto simp: br_stream_on_activity_def)
next
  case False
  then obtain x r2 where x: "br_step (has ev IO_EV_writable) (br_on_writable n sapi dapi) (0, s, d, w) = Ok x"
    "br_step (has ev IO_EV_readable) (br_on_readable n sapi dapi) x = Ok (r2, s', d', w')"
    using assms(1) by (auto simp: br_stream_on_activity_def bind_res_eq_Ok split: if_splits)
  obtain r1 s1 d1 w1 where x1: "x = (r1, s1, d1, w1)" by (cases x) auto
  have "both s1 d1 w1"
    using x(1) assms(2) on_writable_frame [of n s d w r1 s1 d1 w1] x1 by (auto simp: br_step_def split: if_splits)
  then have "both s' d' w'"
    using x(2) on_readable_frame [of n s1 d1 w1 r2 s' d' w'] x1 by (auto simp: br_step_def split: if_splits)
  then show ?thesis using False by simp
qed

end

end
