(* ===== verification/Program.thy ===== *)
theory Program
  imports DgmHeld BridgeFrame
begin

unbundle bit_operations_syntax

text \<open>
  The running programs: the main loops of \<open>tcp-relay.c\<close> and \<open>tcp-proxy.c\<close>, which call \<open>monitor\<close>
  of the select() loop until the bridge goes down, with the callbacks that \<open>tcp_pipe_init\<close>
  registered.

  One call of \<open>monitor\<close> may deliver events to both pipes, and the first callback may change the
  second pipe, or break it, or shut the bridge down, before the second one runs.  The locale
  \<open>bridge_program\<close> proves, from the contracts of two pipes and the law of a bridge, that a program
  runs without a failed assertion for every behaviour of the operating system, and that what it
  has delivered when the bridge goes down is what was sent.  The relay and the two ends of the
  proxy are its three interpretations.
\<close>

section \<open>The main loop\<close>

text \<open>
  The state of a program: the bridge and the calls of \<open>on_bridge_down\<close> so far, the first of which
  sets \<open>enough\<close>.  The context of a callback is the tcp pipe it was registered with; \<open>lt\<close> and \<open>rt\<close>
  find the tcp pipe at the bottom of each side.  The loops inside the bridge get \<open>br_fuel\<close> turns,
  which they never use up.
\<close>

abbreviation "pipe_l br \<equiv> st_pipe (br_l br)"
abbreviation "pipe_r br \<equiv> st_pipe (br_r br)"
abbreviation "downs_of shut \<equiv> (case shut of None \<Rightarrow> [] | Some graceful \<Rightarrow> [graceful])"

type_synonym ('p, 'q) program = "('p, 'q) br_bridge \<times> bool list"
type_synonym 'p view = "('p, os_world, int) pipe_view"

definition program_cb ::
  "'p view \<Rightarrow> ('p \<Rightarrow> tcp_pipe) \<Rightarrow> 'q view \<Rightarrow> ('q \<Rightarrow> tcp_pipe) \<Rightarrow> ('p, 'q) program evl_cb" where
  "program_cb V lt U rt c ev x w =
     (case x of (br, downs) \<Rightarrow>
        let n = br_fuel V U br w in
        bind_res
          (if c = tp_self (lt (pipe_l br)) then br_event n (v_api V) (v_api U) Left_side br ev w
           else if c = tp_self (rt (pipe_r br)) then br_event n (v_api V) (v_api U) Right_side br ev w
           else Stop Undefined_behaviour)
          (\<lambda>(shut, br, w). Ok ((br, downs @ downs_of shut), w)))"

text \<open>The loop \<open>while (! enough)\<close>, for as many turns as the operating system answers \<open>select\<close>.\<close>

fun main_loop ::
  "'p view \<Rightarrow> ('p \<Rightarrow> tcp_pipe) \<Rightarrow> 'q view \<Rightarrow> ('q \<Rightarrow> tcp_pipe) \<Rightarrow> (nat \<times> nat \<Rightarrow> select_reply) list \<Rightarrow>
   ('p, 'q) program \<Rightarrow> os_world \<Rightarrow> (('p, 'q) program \<times> os_world) res" where
  "main_loop V lt U rt [] x w = Ok (x, w)"
| "main_loop V lt U rt (os # oss) x w =
     (if snd x \<noteq> [] then Ok (x, w)
      else bind_res (evl_select_monitor (program_cb V lt U rt) os 100 x w)
        (\<lambda>(r, x, w). main_loop V lt U rt oss x w))"

text \<open>The programs, from the two connected sockets on; \<open>a\<close> and \<open>b\<close> are the addresses of the tcp pipes.\<close>

definition relay_program ::
  "nat \<Rightarrow> nat \<Rightarrow> int \<Rightarrow> int \<Rightarrow> (nat \<times> nat \<Rightarrow> select_reply) list \<Rightarrow> os_world \<Rightarrow>
   ((tcp_pipe, tcp_pipe) program \<times> os_world) res" where
  "relay_program a b c2p p2s oss w =
     bind_res (br_bridge_init tcp_io tcp_io (relay_bridge a b c2p p2s) w)
       (\<lambda>(br, w). main_loop tcp_view (\<lambda>p. p) tcp_view (\<lambda>p. p) oss (br, []) w)"

definition client_program ::
  "nat \<Rightarrow> nat \<Rightarrow> int \<Rightarrow> int \<Rightarrow> (nat \<times> nat \<Rightarrow> select_reply) list \<Rightarrow> os_world \<Rightarrow>
   ((tcp_pipe, tcp_pipe atx_pipe dgm_pipe) program \<times> os_world) res" where
  "client_program a b c2p p2s oss w =
     bind_res (br_bridge_init tcp_io dgm_io (proxy_client_bridge a b c2p p2s) w)
       (\<lambda>(br, w). main_loop tcp_view (\<lambda>p. p) dgm_view (\<lambda>p. dgm_tcp p) oss (br, []) w)"

definition server_program ::
  "nat \<Rightarrow> nat \<Rightarrow> int \<Rightarrow> int \<Rightarrow> (nat \<times> nat \<Rightarrow> select_reply) list \<Rightarrow> os_world \<Rightarrow>
   ((tcp_pipe atx_pipe dgm_pipe, tcp_pipe) program \<times> os_world) res" where
  "server_program a b c2p p2s oss w =
     bind_res (br_bridge_init dgm_io tcp_io (proxy_server_bridge a b c2p p2s) w)
       (\<lambda>(br, w). main_loop dgm_view (\<lambda>p. dgm_tcp p) tcp_view (\<lambda>p. p) oss (br, []) w)"

section \<open>Events that are due\<close>

definition due :: "(nat \<times> uint) list \<Rightarrow> nat \<Rightarrow> uint" where
  "due evs c = (case map_of evs c of None \<Rightarrow> 0 | Some h \<Rightarrow> h)"

lemma due_simps [simp]: "due [] c = 0" "due ((c', h) # evs) c = (if c = c' then h else due evs c)"
  by (simp_all add: due_def)

lemma due_none: "c \<notin> fst ` set evs \<Longrightarrow> due evs c = 0"
  by (simp add: due_def map_of_eq_None_iff [THEN iffD2])

lemma due_in: "due evs c \<noteq> 0 \<Longrightarrow> (c, due evs c) \<in> set evs"
  by (auto simp: due_def dest: map_of_SomeD split: option.splits)

lemma evl_have_bits:
  "has (evl_have r w x) SK_EV_readable = r" "has (evl_have r w x) SK_EV_writable = w"
  "has (evl_have r w x) SK_EV_error = x"
  "evl_have r w x AND NOT (SK_EV_readable OR SK_EV_writable OR SK_EV_error) = 0"
  by (cases r; cases w; cases x; simp add: evl_have_def has_def event_defs)+

text \<open>What \<open>select\<close> reports was asked for.\<close>

lemma evl_due_member:
  assumes "(c, h) \<in> set (evl_due reg reply)"
  obtains sk m where "reg sk = Some (m, c)" "h \<noteq> 0"
    "has h SK_EV_readable \<Longrightarrow> has m SK_EV_readable" "has h SK_EV_writable \<Longrightarrow> has m SK_EV_writable"
    "h AND NOT (SK_EV_readable OR SK_EV_writable OR SK_EV_error) = 0"
proof (cases reply)
  case (Sel_ready R W X)
  let ?h = "\<lambda>sk. evl_have (sk \<in> wanting reg SK_EV_readable \<inter> R) (sk \<in> wanting reg SK_EV_writable \<inter> W) (sk \<in> dom reg \<inter> X)"
  obtain sk where sk: "c = snd (the (reg sk))" "h = ?h sk" "h \<noteq> 0"
    using assms Sel_ready by (auto simp: evl_due_def evl_ready_def Let_def split: if_splits)
  have "sk \<in> dom reg" using sk(2,3) wanting_dom [of reg] by auto
  then obtain m where m: "reg sk = Some (m, c)" using sk(1) by auto
  have "has h SK_EV_readable \<Longrightarrow> has m SK_EV_readable" "has h SK_EV_writable \<Longrightarrow> has m SK_EV_writable"
    using sk(2) in_wanting(2) [of reg sk m c, OF m] by (simp_all add: evl_have_bits)
  moreover have "h AND NOT (SK_EV_readable OR SK_EV_writable OR SK_EV_error) = 0"
    unfolding sk(2) by (rule evl_have_bits(4))
  ultimately show thesis by (rule that [OF m sk(3)])
qed (use assms in \<open>simp add: evl_due_def\<close>)

lemma distinct_picks:
  assumes "distinct xs" "inj_on g (set xs)" "\<And>x. f x = [] \<or> f x = [(g x, k x)]"
  shows "distinct (map fst (concat (map f xs))) \<and> fst ` set (concat (map f xs)) \<subseteq> g ` set xs"
  using assms(1,2)
proof (induction xs)
  case (Cons x xs)
  then have IH: "distinct (map fst (concat (map f xs)))" "fst ` set (concat (map f xs)) \<subseteq> g ` set xs"
    by (simp_all add: inj_on_def)
  have "g x \<notin> g ` set xs" using Cons.prems by (auto simp: inj_on_def)
  then have "g x \<notin> fst ` set (concat (map f xs))" using IH(2) by blast
  then show ?case using assms(3) [of x] IH by (elim disjE) (simp_all del: set_concat add: subset_insertI2)
qed simp

lemma evl_due_distinct:
  assumes "finite (dom reg)" "inj_on (\<lambda>sk. snd (the (reg sk))) (dom reg)"
  shows "distinct (map fst (evl_due reg reply))"
proof (cases reply)
  case (Sel_ready R W X)
  let ?h = "\<lambda>sk. evl_have (sk \<in> wanting reg SK_EV_readable \<inter> R) (sk \<in> wanting reg SK_EV_writable \<inter> W) (sk \<in> dom reg \<inter> X)"
  have "distinct (map fst (concat (map (\<lambda>sk. if ?h sk = 0 then [] else [(snd (the (reg sk)), ?h sk)])
      (sorted_list_of_set (dom reg)))))"
    by (rule distinct_picks [where g = "\<lambda>sk. snd (the (reg sk))" and k = ?h, THEN conjunct1]) (use assms in simp_all)
  then show ?thesis using Sel_ready by (simp add: evl_due_def evl_ready_def Let_def del: Int_iff evl_have_zero)
qed (simp add: evl_due_def)

section \<open>The states of a program\<close>

text \<open>
  Two pipes, \<open>a\<close> and \<open>b\<close> on the sockets \<open>sl\<close> and \<open>sr\<close>, with the events \<open>h\<close> and \<open>k\<close> not handled
  yet, in a loop that differs from \<open>e0\<close> in event masks only.
\<close>

definition program_frame ::
  "('p \<Rightarrow> tcp_pipe) \<Rightarrow> (uint \<Rightarrow> 'p \<Rightarrow> os_world \<Rightarrow> bool) \<Rightarrow> ('q \<Rightarrow> tcp_pipe) \<Rightarrow> (uint \<Rightarrow> 'q \<Rightarrow> os_world \<Rightarrow> bool) \<Rightarrow>
   evl_select \<Rightarrow> int \<Rightarrow> int \<Rightarrow> nat \<Rightarrow> nat \<Rightarrow> uint \<Rightarrow> uint \<Rightarrow> 'p \<Rightarrow> 'q \<Rightarrow> os_world \<Rightarrow> bool" where
  "program_frame lt hl rt hr e0 sl sr a b h k p q w \<longleftrightarrow>
     hl h p w \<and> hr k q w \<and> tp_sk (lt p) = sl \<and> tp_sk (rt q) = sr \<and> sl \<noteq> sr \<and>
     tp_self (lt p) = a \<and> tp_self (rt q) = b \<and>
     evl_quiet e0 (w_evl w) \<and> dom (evl_registered (w_evl w)) = {sl, sr}"

lemma program_frame_swap:
  "program_frame lt hl rt hr e0 sl sr a b h k p q w = program_frame rt hr lt hl e0 sr sl b a k h q p w"
  by (auto simp: program_frame_def)

definition streams_ok :: "('p, 'q) br_bridge \<Rightarrow> bool" where
  "streams_ok br \<longleftrightarrow> stream_ok (br_l br) \<and> pending_ok (br_l br) \<and> stream_ok (br_r br) \<and> pending_ok (br_r br)"

text \<open>
  The state while the events \<open>evs\<close> are still to be dispatched: \<open>A\<close> and \<open>B\<close> are the streams of the
  two peers.  Until the first call of \<open>on_bridge_down\<close> the invariant of the bridge holds; after it
  the streams are complete or cut off, as it said.
\<close>

definition program_state ::
  "'p view \<Rightarrow> ('p \<Rightarrow> tcp_pipe) \<Rightarrow> (uint \<Rightarrow> 'p \<Rightarrow> os_world \<Rightarrow> bool) \<Rightarrow>
   'q view \<Rightarrow> ('q \<Rightarrow> tcp_pipe) \<Rightarrow> (uint \<Rightarrow> 'q \<Rightarrow> os_world \<Rightarrow> bool) \<Rightarrow>
   byte list \<Rightarrow> byte list \<Rightarrow> int \<Rightarrow> int \<Rightarrow> nat \<Rightarrow> nat \<Rightarrow> (nat \<times> uint) list \<Rightarrow> ('p, 'q) program \<Rightarrow> os_world \<Rightarrow> bool" where
  "program_state V lt hl U rt hr A B sl sr a b evs x w \<longleftrightarrow>
     (case x of (br, downs) \<Rightarrow>
        distinct (map fst evs) \<and> fst ` set evs \<subseteq> {a, b} \<and> 0 \<notin> snd ` set evs \<and> a \<noteq> b \<and>
        program_frame lt hl rt hr (w_evl w) sl sr a b (due evs a) (due evs b) (pipe_l br) (pipe_r br) w \<and>
        streams_ok br \<and> v_input V (pipe_l br) w = A \<and> v_input U (pipe_r br) w = B \<and>
        (if downs = [] then br_inv V U br w
         else br_dead br \<and> (downs = [True] \<and> br_complete V U br w \<or> downs = [False] \<and> br_prefixes V U br w)))"

lemma program_state_swap:
  "program_state V lt hl U rt hr A B sl sr a b evs (br, downs) w =
   program_state U rt hr V lt hl B A sr sl b a evs (mirror br, downs) w"
  unfolding program_state_def program_frame_swap [of lt hl]
  by (auto simp: streams_ok_def br_inv_def br_complete_def br_prefixes_def)

section \<open>One event\<close>

locale bridge_program =
  l: program_pipe V lt hl + r: program_pipe U rt hr
  for V :: "'p view" and lt hl and U :: "'q view" and rt hr +
  assumes event: "br_inv V U br w \<Longrightarrow> br_ev_ok V U side br ev \<Longrightarrow> br_fuel V U br w \<le> n \<Longrightarrow>
      \<exists>shut br' w'. br_event n (v_api V) (v_api U) side br ev w = Ok (shut, br', w') \<and> br_kept V U br w br' w' \<and>
        (case shut of None \<Rightarrow> br_inv V U br' w'
         | Some g \<Rightarrow> br_dead br' \<and> (if g then br_complete V U br' w' else br_prefixes V U br' w'))"
    and other: "br_inv V U br w \<Longrightarrow> tcp_agree evl_inv evl_registered (tp_sk (lt (pipe_l br))) w w' \<Longrightarrow>
      tcp_agree evl_inv evl_registered (tp_sk (rt (pipe_r br))) w w' \<Longrightarrow> br_inv V U br w'"
begin

abbreviation "held_both \<equiv> program_frame lt hl rt hr"
abbreviation "state \<equiv> program_state V lt hl U rt hr"

lemma frame_step:
  assumes I: "held_both e0 sl sr a b h k p q w" and step: "tcp_step (lt p) w (lt p') w'" and p': "hl h' p' w'"
  shows "held_both e0 sl sr a b h' k p' q w'"
proof -
  have I': "hl h p w" "hr k q w" "tp_sk (lt p) = sl" "tp_sk (rt q) = sr" "sl \<noteq> sr"
    "dom (evl_registered (w_evl w)) = {sl, sr}" "evl_quiet e0 (w_evl w)"
    using I by (simp_all add: program_frame_def)
  have same: "w_sock w' sr = w_sock w sr" "evl_registered (w_evl w') sr = evl_registered (w_evl w) sr"
    "evl_inv (w_evl w')" "evl_quiet (w_evl w) (w_evl w')"
    using I'(3,5) step by (auto simp: tcp_step_def tcp_reg_def)
  have q: "hr k q w'" by (rule r.held_other [OF I'(2)]) (use same I'(4) in simp_all)
  have "(evl_registered (w_evl w') s = None) = (evl_registered (w_evl w) s = None)" for s
    using I'(3) step l.held_reg [OF I'(1)] by (cases "s = sl") (auto simp: tcp_step_def tcp_reg_def)
  then have "dom (evl_registered (w_evl w')) = {sl, sr}" using I'(6) by (auto simp: dom_def)
  with I step p' q evl_quiet_trans [OF I'(7) same(4)] show ?thesis by (simp add: program_frame_def tcp_step_def)
qed

end

text \<open>The same program seen from the other side.\<close>

lemma br_event_mirror:
  "br_event n sio dio (case side of Left_side \<Rightarrow> Right_side | Right_side \<Rightarrow> Left_side) br ev w =
   bind_res (br_event n dio sio side (mirror br) ev w) (\<lambda>(shut, br, w). Ok (shut, mirror br, w))"
proof (cases side)
  case Left_side
  then show ?thesis by (simp add: br_event_def event_mirror)
next
  case Right_side
  then show ?thesis
    by (cases "br_event_l n sio dio br ev w") (auto simp: br_event_def event_mirror [of n dio sio])
qed

sublocale bridge_program \<subseteq> flip: bridge_program U rt hr V lt hl
proof unfold_locales
  fix br w side ev n
  assume a: "br_inv U V br w" "br_ev_ok U V side br ev" "br_fuel U V br w \<le> n"
  let ?other = "case side of Left_side \<Rightarrow> Right_side | Right_side \<Rightarrow> Left_side"
  have "br_inv V U (mirror br) w" "br_ev_ok V U ?other (mirror br) ev" "br_fuel V U (mirror br) w \<le> n"
    using a by (auto simp: br_inv_def br_ev_ok_def br_fuel_def split: br_side.split)
  then obtain shut br' w' where e: "br_event n (v_api V) (v_api U) ?other (mirror br) ev w = Ok (shut, br', w')"
    "br_kept V U (mirror br) w br' w'"
    "case shut of None \<Rightarrow> br_inv V U br' w'
     | Some g \<Rightarrow> br_dead br' \<and> (if g then br_complete V U br' w' else br_prefixes V U br' w')"
    using event [of "mirror br" w ?other ev n] by blast
  have "br_event n (v_api U) (v_api V) side br ev w = Ok (shut, mirror br', w')"
    using e(1) br_event_mirror [of n "v_api U" "v_api V" ?other br ev w] by (cases side) simp_all
  moreover have "br_kept U V br w (mirror br') w'"
    using e(2) by (auto simp: br_kept_def l.agree_tcp r.agree_tcp)
  moreover have "case shut of None \<Rightarrow> br_inv U V (mirror br') w'
     | Some g \<Rightarrow> br_dead (mirror br') \<and>
       (if g then br_complete U V (mirror br') w' else br_prefixes U V (mirror br') w')"
    using e(3) by (cases shut) (auto simp: br_inv_def br_complete_def br_prefixes_def)
  ultimately show "\<exists>shut br' w'. br_event n (v_api U) (v_api V) side br ev w = Ok (shut, br', w') \<and> br_kept U V br w br' w' \<and>
        (case shut of None \<Rightarrow> br_inv U V br' w'
         | Some g \<Rightarrow> br_dead br' \<and> (if g then br_complete U V br' w' else br_prefixes U V br' w'))"
    by blast
next
  fix br w w'
  assume a: "br_inv U V br w" "tcp_agree evl_inv evl_registered (tp_sk (rt (pipe_l br))) w w'"
    "tcp_agree evl_inv evl_registered (tp_sk (lt (pipe_r br))) w w'"
  then have "br_inv V U (mirror br) w" by (auto simp: br_inv_def)
  from other [OF this, of w'] a(2,3) show "br_inv U V br w'" by (auto simp: br_inv_def)
qed

context bridge_program begin

lemma frame_step_r:
  assumes I: "held_both e0 sl sr a b h k p q w" and step: "tcp_step (rt q) w (rt q') w'" and q': "hr k' q' w'"
  shows "held_both e0 sl sr a b h k' p q' w'"
  using flip.frame_step [OF I [unfolded program_frame_swap [of lt hl]] step q'] unfolding program_frame_swap [of lt hl] .

lemma held_bridge: "bridge_frame (v_api V) (v_api U) (held_both e0 sl sr a b h k)"
proof
  fix p q w n r bs p' w'
  assume I: "held_both e0 sl sr a b h k p q w" and rd: "readable (pipe_flags (v_api V) p)" "0 < n" "n < 2 ^ 30"
    and call: "pipe_recv (v_api V) p n w = Ok (r, bs, p', w')"
  have "hl h p w" using I by (simp add: program_frame_def)
  from l.held_recv [OF this rd call] show "held_both e0 sl sr a b h k p' q w' \<and> r < 2 ^ 31"
    using frame_step [OF I] by blast
next
  fix p q w cs r q' w'
  assume I: "held_both e0 sl sr a b h k p q w" and wr: "writable (pipe_flags (v_api U) q)" "length cs < 2 ^ 31"
    and call: "pipe_send (v_api U) q cs w = Ok (r, q', w')"
  have "hr k q w" using I by (simp add: program_frame_def)
  from r.held_send [OF this wr call] show "held_both e0 sl sr a b h k p q' w'"
    using frame_step_r [OF I] by blast
next
  fix p q w r q' w'
  assume I: "held_both e0 sl sr a b h k p q w" and wr: "writable (pipe_flags (v_api U) q)"
    and call: "pipe_send_fin (v_api U) q w = Ok (r, q', w')"
  have "hr k q w" using I by (simp add: program_frame_def)
  from r.held_fin [OF this wr call] show "held_both e0 sl sr a b h k p q' w'"
    using frame_step_r [OF I] by blast
qed

end

context bridge_program begin

lemma held_bridges: "bridge_frames (v_api V) (v_api U) (held_both e0 sl sr a b h k)"
proof (intro bridge_frames.intro held_bridge)
  show "bridge_frame (v_api U) (v_api V) (\<lambda>q p w. held_both e0 sl sr a b h k p q w)"
    using flip.held_bridge [of e0 sr sl b a k h] unfolding program_frame_swap [of rt hr] by simp
qed

text \<open>An event on the left pipe, whatever state the bridge is in.\<close>

lemma event_held:
  assumes I: "held_both e0 sl sr a b h k (pipe_l br) (pipe_r br) w" "streams_ok br" "h \<noteq> 0"
    and call: "br_event_l n (v_api V) (v_api U) br h w = Ok (shut, br', w')"
  shows "held_both e0 sl sr a b 0 k (pipe_l br') (pipe_r br') w' \<and> streams_ok br'"
proof -
  have p: "hl h (pipe_l br) w" using I(1) by (simp add: program_frame_def)
  obtain up p' w1 where e: "pipe_event (v_api V) (pipe_l br) h w = Ok (up, p', w1)" "hl 0 p' w1"
    "tcp_step (lt (pipe_l br)) w (lt p') w1"
    using l.held_event [OF p I(3)] by blast
  have I1: "held_both e0 sl sr a b 0 k p' (pipe_r br) w1"
    by (rule frame_step [OF I(1) e(3,2)])
  show ?thesis
  proof (cases up)
    case None
    then have "br' = br\<lparr>br_l := (br_l br)\<lparr>st_pipe := p'\<rparr>\<rparr>" "w' = w1" using call e(1) by (simp_all add: br_event_l_def)
    with I1 I(2) show ?thesis by (simp add: streams_ok_def)
  next
    case (Some io)
    then obtain dead s' d' where act: "br_stream_on_activity n (v_api V) (v_api U) (br_dead br) ((br_l br)\<lparr>st_pipe := p'\<rparr>) (br_r br) io w1 =
        Ok (shut, dead, s', d', w')" "br' = br\<lparr>br_dead := dead, br_l := s', br_r := d'\<rparr>"
      using call e(1) by (auto simp: br_event_l_def bind_res_eq_Ok)
    from bridge_frames.activity_frame [OF held_bridges act(1), of e0 sl sr a b 0 k] I1 I(2) act(2) show ?thesis
      by (simp add: streams_ok_def)
  qed
qed

text \<open>When the bridge is down the callback does nothing, but an atx pipe may still send what it holds.\<close>

lemma event_dead:
  assumes I: "held_both e0 sl sr a b h k (pipe_l br) (pipe_r br) w" "h \<noteq> 0" "br_dead br"
  obtains p' w' where "br_event_l n (v_api V) (v_api U) br h w = Ok (None, br\<lparr>br_l := (br_l br)\<lparr>st_pipe := p'\<rparr>\<rparr>, w')"
    "v_sent V p' w' = v_sent V (pipe_l br) w" "v_rcvd V p' w' = v_rcvd V (pipe_l br) w"
    "v_input V p' w' = v_input V (pipe_l br) w"
    "fin_rcvd (pipe_flags (v_api V) (pipe_l br)) \<Longrightarrow> fin_rcvd (pipe_flags (v_api V) p')"
    "v_fin V (pipe_l br) \<Longrightarrow> v_fin V p'"
    "v_sent U (pipe_r br) w' = v_sent U (pipe_r br) w" "v_rcvd U (pipe_r br) w' = v_rcvd U (pipe_r br) w"
    "v_input U (pipe_r br) w' = v_input U (pipe_r br) w"
proof -
  have p: "hl h (pipe_l br) w" "tp_sk (rt (pipe_r br)) \<noteq> tp_sk (lt (pipe_l br))"
    using I(1) by (auto simp: program_frame_def)
  obtain up p' w' where e: "pipe_event (v_api V) (pipe_l br) h w = Ok (up, p', w')"
    "tcp_step (lt (pipe_l br)) w (lt p') w'"
    "v_sent V p' w' = v_sent V (pipe_l br) w" "v_rcvd V p' w' = v_rcvd V (pipe_l br) w"
    "v_input V p' w' = v_input V (pipe_l br) w"
    "fin_rcvd (pipe_flags (v_api V) (pipe_l br)) \<longrightarrow> fin_rcvd (pipe_flags (v_api V) p')"
    "v_fin V (pipe_l br) \<longrightarrow> v_fin V p'"
    using l.held_event [OF p(1) I(2)] by blast
  have "w_sock w' (tp_sk (rt (pipe_r br))) = w_sock w (tp_sk (rt (pipe_r br)))"
    using e(2) p(2) by (simp add: tcp_step_def)
  note r.view_other [OF this]
  moreover have "br_event_l n (v_api V) (v_api U) br h w = Ok (None, br\<lparr>br_l := (br_l br)\<lparr>st_pipe := p'\<rparr>\<rparr>, w')"
    using e(1) I(3) by (cases up; cases br) (simp_all add: br_event_l_def br_stream_on_activity_def)
  ultimately show thesis using e(3-7) by (intro that [of p' w']) simp_all
qed

text \<open>The callback of the left pipe.\<close>

lemma left_step:
  assumes J: "state A B sl sr a b ((a, h) # evs) (br, downs) w" and n: "br_fuel V U br w \<le> n"
  shows "\<exists>shut br' w'. br_event_l n (v_api V) (v_api U) br h w = Ok (shut, br', w') \<and>
    evl_quiet (w_evl w) (w_evl w') \<and> state A B sl sr a b evs (br', downs @ downs_of shut) w'"
proof -
  have pre: "distinct (map fst evs)" "fst ` set evs \<subseteq> {a, b}" "0 \<notin> snd ` set evs" "a \<noteq> b"
    and h: "h \<noteq> 0" and new: "due evs a = 0"
    using J due_none [of a evs] by (auto simp: program_state_def image_iff)
  have I: "held_both (w_evl w) sl sr a b h (due evs b) (pipe_l br) (pipe_r br) w" and ok: "streams_ok br"
    and input: "v_input V (pipe_l br) w = A" "v_input U (pipe_r br) w = B"
    using J by (auto simp: program_state_def)
  have held: "hl h (pipe_l br) w" using I by (simp add: program_frame_def)
  have close: "evl_quiet (w_evl w) (w_evl w') \<and>
      held_both (w_evl w') sl sr a b (due evs a) (due evs b) (pipe_l br') (pipe_r br') w' \<and> streams_ok br'"
    if "br_event_l n (v_api V) (v_api U) br h w = Ok (shut, br', w')" for shut br' w'
    using event_held [OF I ok h that] new by (auto simp: program_frame_def)
  show ?thesis
  proof (cases "downs = []")
    case True
    then have inv: "br_inv V U br w" using J by (simp add: program_state_def)
    then have "v_ev V (pipe_l br) h" using l.held_ev_ok [OF held _ h] by (simp add: br_inv_def)
    then have ev: "br_ev_ok V U Left_side br h" by (simp add: br_ev_ok_def)
    obtain shut br' w' where e: "br_event_l n (v_api V) (v_api U) br h w = Ok (shut, br', w')"
      "br_kept V U br w br' w'"
      "case shut of None \<Rightarrow> br_inv V U br' w'
       | Some g \<Rightarrow> br_dead br' \<and> (if g then br_complete V U br' w' else br_prefixes V U br' w')"
      using event [OF inv ev n] by (auto simp: br_event_def)
    have "v_input V (pipe_l br') w' = A" "v_input U (pipe_r br') w' = B"
      using e(2) input by (simp_all add: br_kept_def)
    moreover have "if downs_of shut = [] then br_inv V U br' w'
      else br_dead br' \<and> (downs_of shut = [True] \<and> br_complete V U br' w' \<or> downs_of shut = [False] \<and> br_prefixes V U br' w')"
      using e(3) by (cases shut) (auto split: if_splits)
    ultimately show ?thesis
      using close [OF e(1)] e(1) pre True
      by (intro exI [of _ shut] exI [of _ br'] exI [of _ w']) (simp add: program_state_def)
  next
    case False
    then have dead: "br_dead br" using J by (simp add: program_state_def)
    obtain p' w' where e: "br_event_l n (v_api V) (v_api U) br h w = Ok (None, br\<lparr>br_l := (br_l br)\<lparr>st_pipe := p'\<rparr>\<rparr>, w')"
      "v_sent V p' w' = v_sent V (pipe_l br) w" "v_rcvd V p' w' = v_rcvd V (pipe_l br) w"
      "v_input V p' w' = v_input V (pipe_l br) w"
      "fin_rcvd (pipe_flags (v_api V) (pipe_l br)) \<Longrightarrow> fin_rcvd (pipe_flags (v_api V) p')"
      "v_fin V (pipe_l br) \<Longrightarrow> v_fin V p'"
      "v_sent U (pipe_r br) w' = v_sent U (pipe_r br) w" "v_rcvd U (pipe_r br) w' = v_rcvd U (pipe_r br) w"
      "v_input U (pipe_r br) w' = v_input U (pipe_r br) w"
      by (rule event_dead [OF I h dead]) (rule that)
    let ?br = "br\<lparr>br_l := (br_l br)\<lparr>st_pipe := p'\<rparr>\<rparr>"
    have same: "br_complete V U br w \<Longrightarrow> br_complete V U ?br w'" "br_prefixes V U br w \<Longrightarrow> br_prefixes V U ?br w'"
      using e by (simp_all add: br_complete_def br_prefixes_def)
    have "state A B sl sr a b evs (?br, downs) w'"
      using J False close [OF e(1)] pre e(4,9) same input by (auto simp: program_state_def)
    with close [OF e(1)] e(1) show ?thesis
      by (intro exI [of _ None] exI [of _ ?br] exI [of _ w']) simp
  qed
qed

end

section \<open>One call of monitor\<close>

context bridge_program begin

text \<open>The callback of either pipe.\<close>

lemma cb_step:
  assumes J: "state A B sl sr a b ((c, h) # evs) x w"
  shows "\<exists>x' w'. program_cb V lt U rt c h x w = Ok (x', w') \<and> evl_quiet (w_evl w) (w_evl w') \<and>
    state A B sl sr a b evs x' w'"
proof -
  obtain br downs where x: "x = (br, downs)" by (cases x)
  let ?n = "br_fuel V U br w"
  have ids: "tp_self (lt (pipe_l br)) = a" "tp_self (rt (pipe_r br)) = b" "a \<noteq> b" "c = a \<or> c = b"
    using J by (auto simp: x program_state_def program_frame_def)
  show ?thesis
  proof (cases "c = a")
    case True
    then obtain shut br' w' where "br_event_l ?n (v_api V) (v_api U) br h w = Ok (shut, br', w')"
      "evl_quiet (w_evl w) (w_evl w')" "state A B sl sr a b evs (br', downs @ downs_of shut) w'"
      using left_step [of A B sl sr a b h evs br downs w ?n] J x by blast
    with True ids x show ?thesis by (simp add: program_cb_def br_event_def Let_def)
  next
    case False
    then have c: "c = b" using ids by simp
    have J': "flip.state B A sr sl b a ((b, h) # evs) (mirror br, downs) w"
      using J c unfolding x program_state_swap [of V lt] by simp
    have n: "br_fuel U V (mirror br) w \<le> ?n" by (simp add: br_fuel_def)
    obtain shut br' w' where e: "br_event_l ?n (v_api U) (v_api V) (mirror br) h w = Ok (shut, br', w')"
      "evl_quiet (w_evl w) (w_evl w')" "flip.state B A sr sl b a evs (br', downs @ downs_of shut) w'"
      using flip.left_step [OF J' n] by blast
    have "br_event_r ?n (v_api V) (v_api U) br h w = Ok (shut, mirror br', w')"
      using e(1) by (simp add: event_mirror)
    moreover have "state A B sl sr a b evs (mirror br', downs @ downs_of shut) w'"
      unfolding program_state_swap [of V lt] using e(3) by simp
    ultimately show ?thesis
      using e(2) c ids x by (simp add: program_cb_def br_event_def Let_def)
  qed
qed

text \<open>Only the sockets and the registrations matter.\<close>

lemma state_cong:
  assumes J: "state A B sl sr a b evs x w" and sock: "w_sock w' = w_sock w"
    and evl: "evl_inv (w_evl w')" "evl_registered (w_evl w') = evl_registered (w_evl w)"
  shows "state A B sl sr a b evs x w'"
proof -
  obtain br downs where x: "x = (br, downs)" by (cases x)
  have I: "held_both (w_evl w) sl sr a b (due evs a) (due evs b) (pipe_l br) (pipe_r br) w"
    using J by (simp add: x program_state_def)
  then have "hl (due evs a) (pipe_l br) w" "hr (due evs b) (pipe_r br) w" by (simp_all add: program_frame_def)
  then have "hl (due evs a) (pipe_l br) w'" "hr (due evs b) (pipe_r br) w'"
    using l.held_other [OF _ evl(1)] r.held_other [OF _ evl(1)] sock evl(2) by simp_all
  then have "held_both (w_evl w') sl sr a b (due evs a) (due evs b) (pipe_l br) (pipe_r br) w'"
    using I evl(2) by (simp add: program_frame_def)
  moreover have "br_inv V U br w \<Longrightarrow> br_inv V U br w'"
    using other [of br w w'] sock evl by (simp add: tcp_agree_def)
  moreover have "br_complete V U br w' = br_complete V U br w" "br_prefixes V U br w' = br_prefixes V U br w"
    "v_input V (pipe_l br) w' = v_input V (pipe_l br) w" "v_input U (pipe_r br) w' = v_input U (pipe_r br) w"
    using l.view_other [of w' "pipe_l br" w] r.view_other [of w' "pipe_r br" w] sock
    by (simp_all add: br_complete_def br_prefixes_def)
  ultimately show ?thesis using J by (auto simp: x program_state_def)
qed

lemma state_touch:
  assumes J: "state A B sl sr a b evs x w" and touch: "evl_touch (w_evl w) e'"
  shows "state A B sl sr a b evs x (w\<lparr>w_evl := e'\<rparr>)"
proof (rule state_cong [OF J])
  obtain br downs where x: "x = (br, downs)" by (cases x)
  have "hl (due evs a) (pipe_l br) w" using J by (simp add: x program_state_def program_frame_def)
  from l.held_reg [OF this] have "evl_inv (w_evl w)" by (simp add: tcp_reg_def)
  then obtain t reg where "evl_rep (w_evl w) t reg" by (auto simp: evl_inv_def)
  then have "evl_rep e' t reg" "evl_registered (w_evl w) = reg"
    using evl_touch_rep [OF touch] evl_rep_registered by blast+
  then show "evl_inv (w_evl (w\<lparr>w_evl := e'\<rparr>))"
    "evl_registered (w_evl (w\<lparr>w_evl := e'\<rparr>)) = evl_registered (w_evl w)"
    using evl_rep_registered by (auto simp: evl_inv_def)
qed simp

text \<open>What \<open>select\<close> finds can be dispatched.\<close>

lemma state_due:
  assumes J: "state A B sl sr a b [] (br, []) w"
  shows "state A B sl sr a b (evl_due (evl_registered (w_evl w)) reply) (br, []) w"
proof -
  let ?reg = "evl_registered (w_evl w)"
  let ?evs = "evl_due ?reg reply"
  have I: "held_both (w_evl w) sl sr a b 0 0 (pipe_l br) (pipe_r br) w" and ab: "a \<noteq> b" and inv: "br_inv V U br w"
    using J by (simp_all add: program_state_def)
  then have held: "hl 0 (pipe_l br) w" "hr 0 (pipe_r br) w" by (simp_all add: program_frame_def)
  have ok: "tcp_ok (lt (pipe_l br)) w" "tcp_ok (rt (pipe_r br)) w"
    using inv l.inv_tcp r.inv_tcp by (simp_all add: br_inv_def)
  have reg: "?reg sl = Some (tp_sk_mask (lt (pipe_l br)), a)" "?reg sr = Some (tp_sk_mask (rt (pipe_r br)), b)"
    "dom ?reg = {sl, sr}"
    using I l.held_reg [OF held(1)] r.held_reg [OF held(2)] by (auto simp: program_frame_def tcp_reg_def)
  have event: "(c = a \<and> stale_ok h (tp_base (lt (pipe_l br))) \<or> c = b \<and> stale_ok h (tp_base (rt (pipe_r br)))) \<and> h \<noteq> 0"
    if ev: "(c, h) \<in> set ?evs" for c h
  proof -
    obtain sk m where e: "?reg sk = Some (m, c)" "h \<noteq> 0"
      "has h SK_EV_readable \<Longrightarrow> has m SK_EV_readable" "has h SK_EV_writable \<Longrightarrow> has m SK_EV_writable"
      "h AND NOT (SK_EV_readable OR SK_EV_writable OR SK_EV_error) = 0"
      by (rule evl_due_member [OF ev]) (rule that)
    then have "sk \<in> {sl, sr}" using reg(3) by blast
    then show ?thesis
      using e reg wanted_stale_ok [OF ok(1) e(5)] wanted_stale_ok [OF ok(2) e(5)] by auto
  qed
  have "distinct (map fst ?evs)"
    by (rule evl_due_distinct) (use reg ab in \<open>auto simp: inj_on_def\<close>)
  moreover have "stale_ok (due ?evs a) (tp_base (lt (pipe_l br)))"
    using event [OF due_in, of a] ab by (cases "due ?evs a = 0") auto
  moreover have "stale_ok (due ?evs b) (tp_base (rt (pipe_r br)))"
    using event [OF due_in, of b] ab by (cases "due ?evs b = 0") auto
  ultimately have "hl (due ?evs a) (pipe_l br) w" "hr (due ?evs b) (pipe_r br) w" "distinct (map fst ?evs)"
    using l.held_due [OF held(1)] r.held_due [OF held(2)] by blast+
  moreover have "fst ` set ?evs \<subseteq> {a, b}" "0 \<notin> snd ` set ?evs" using event by force+
  ultimately show ?thesis
    using J I by (simp add: program_state_def program_frame_def)
qed

lemma monitor_state:
  assumes J: "state A B sl sr a b [] (br, []) w" and flags: "\<not> in_callback (w_evl w)" "\<not> dead (w_evl w)"
  shows "\<exists>r x' w'. evl_select_monitor (program_cb V lt U rt) os ms (br, []) w = Ok (r, x', w') \<and>
    state A B sl sr a b [] x' w' \<and> \<not> in_callback (w_evl w') \<and> \<not> dead (w_evl w')"
proof -
  have "hl 0 (pipe_l br) w" using J by (simp add: program_state_def program_frame_def)
  from l.held_reg [OF this] have inv: "evl_inv (w_evl w)" by (simp add: tcp_reg_def)
  have "state A B sl sr a b (evl_due (evl_registered (w_evl w)) (os (select_timeout ms))) (br, []) (w\<lparr>w_errno := errno\<rparr>)"
    for errno
    by (rule state_cong [OF state_due [OF J]]) (use inv in simp_all)
  from evl_monitor_run [where J = "state A B sl sr a b" and cb = "program_cb V lt U rt" and x = "(br, [])" and w = w
      and os = os and ms = ms, OF inv flags state_touch cb_step this]
  show ?thesis by blast
qed

lemma main_loop_run:
  "state A B sl sr a b [] x w \<Longrightarrow> \<not> in_callback (w_evl w) \<Longrightarrow> \<not> dead (w_evl w) \<Longrightarrow>
   \<exists>x' w'. main_loop V lt U rt oss x w = Ok (x', w') \<and> state A B sl sr a b [] x' w'"
proof (induction oss arbitrary: x w)
  case (Cons os oss)
  obtain br downs where x: "x = (br, downs)" by (cases x)
  show ?case
  proof (cases "downs = []")
    case True
    then obtain r x' w' where m: "evl_select_monitor (program_cb V lt U rt) os 100 x w = Ok (r, x', w')"
      "state A B sl sr a b [] x' w'" "\<not> in_callback (w_evl w')" "\<not> dead (w_evl w')"
      using monitor_state [of A B sl sr a b br w os 100] Cons.prems x by blast
    from Cons.IH [OF m(2-4)] m(1) True x show ?thesis by simp
  qed (use Cons.prems x in auto)
qed auto

text \<open>What a state of the program says of the two peers.\<close>

lemma state_delivered:
  assumes J: "state A B sl sr a b [] (br, downs) w"
  shows "\<exists>rest. A = v_sent U (pipe_r br) w @ rest" "\<exists>rest. B = v_sent V (pipe_l br) w @ rest" "length downs \<le> 1"
    "downs = [True] \<Longrightarrow> A = v_sent U (pipe_r br) w \<and> B = v_sent V (pipe_l br) w"
proof -
  have I: "hl 0 (pipe_l br) w" "hr 0 (pipe_r br) w" "v_input V (pipe_l br) w = A" "v_input U (pipe_r br) w = B"
    using J by (simp_all add: program_state_def program_frame_def)
  have "(\<exists>x. v_rcvd V (pipe_l br) w = v_sent U (pipe_r br) w @ x) \<and>
      (\<exists>x. v_rcvd U (pipe_r br) w = v_sent V (pipe_l br) w @ x) \<and> length downs \<le> 1"
    using J by (auto simp: program_state_def br_inv_def br_direction_def br_link_def br_prefixes_def
      br_complete_def split: if_splits)
  then show "\<exists>rest. A = v_sent U (pipe_r br) w @ rest" "\<exists>rest. B = v_sent V (pipe_l br) w @ rest" "length downs \<le> 1"
    using l.input_prefix [of "pipe_l br" w] r.input_prefix [of "pipe_r br" w] I(3,4) by auto
  show "A = v_sent U (pipe_r br) w \<and> B = v_sent V (pipe_l br) w" if "downs = [True]"
    using J that l.held_done [OF I(1)] r.held_done [OF I(2)] I(3,4)
    by (simp add: program_state_def br_complete_def)
qed

text \<open>From a bridge that has just been initialised.\<close>

lemma state_start:
  assumes "held_both (w_evl w) sl sr a b 0 0 p q w" "a \<noteq> b" "br_inv V U (fresh_bridge n p q) w" "0 < n" "n < 2 ^ 30"
  shows "state (v_input V p w) (v_input U q w) sl sr a b [] (fresh_bridge n p q, []) w"
  using assms by (simp add: program_state_def streams_ok_def stream_ok_def pending_ok_def)

end

section \<open>The three programs\<close>

interpretation relay_prog: bridge_program tcp_view "\<lambda>p. p" tcp_held tcp_view "\<lambda>p. p" tcp_held
proof unfold_locales
  fix br w side ev n
  assume "br_inv tcp_view tcp_view br w" "br_ev_ok tcp_view tcp_view side br ev" "br_fuel tcp_view tcp_view br w \<le> n"
  then show "\<exists>shut br' w'. br_event n (v_api tcp_view) (v_api tcp_view) side br ev w = Ok (shut, br', w') \<and>
      br_kept tcp_view tcp_view br w br' w' \<and>
      (case shut of None \<Rightarrow> br_inv tcp_view tcp_view br' w'
       | Some g \<Rightarrow> br_dead br' \<and> (if g then br_complete tcp_view tcp_view br' w' else br_prefixes tcp_view tcp_view br' w'))"
    using relay_laws(1) by (simp add: tcp_view_def)
next
  fix br w w'
  assume "br_inv tcp_view tcp_view br w" "tcp_agree evl_inv evl_registered (tp_sk (pipe_l br)) w w'"
    "tcp_agree evl_inv evl_registered (tp_sk (pipe_r br)) w w'"
  then show "br_inv tcp_view tcp_view br w'" using relay.other_law [folded tcp_view_def] by blast
qed

interpretation client_prog: bridge_program tcp_view "\<lambda>p. p" tcp_held dgm_view "\<lambda>p. dgm_tcp p" dgm_held
proof unfold_locales
  fix br w side ev n
  assume "br_inv tcp_view dgm_view br w" "br_ev_ok tcp_view dgm_view side br ev" "br_fuel tcp_view dgm_view br w \<le> n"
  then show "\<exists>shut br' w'. br_event n (v_api tcp_view) (v_api dgm_view) side br ev w = Ok (shut, br', w') \<and>
      br_kept tcp_view dgm_view br w br' w' \<and>
      (case shut of None \<Rightarrow> br_inv tcp_view dgm_view br' w'
       | Some g \<Rightarrow> br_dead br' \<and> (if g then br_complete tcp_view dgm_view br' w' else br_prefixes tcp_view dgm_view br' w'))"
    using client_laws(1) by (simp add: tcp_view_def dgm_view_def)
next
  fix br w w'
  assume "br_inv tcp_view dgm_view br w" "tcp_agree evl_inv evl_registered (tp_sk (pipe_l br)) w w'"
    "tcp_agree evl_inv evl_registered (tp_sk (dgm_tcp (pipe_r br))) w w'"
  then show "br_inv tcp_view dgm_view br w'" using proxy.other_law [folded tcp_view_def dgm_view_def] by blast
qed

text \<open>The proxy's server is the client seen from the other side: \<open>client_prog.flip\<close>.\<close>

text \<open>An event loop as \<open>new_event_loop_select\<close> leaves it when the memory it got was zero.\<close>

definition fresh_loop :: "evl_select \<Rightarrow> bool" where
  "fresh_loop e \<longleftrightarrow> evl_inv e \<and> evl_registered e = Map.empty \<and> \<not> in_callback e \<and> \<not> dead e"

lemma new_loop_fresh: "fresh_loop (new_event_loop_select False False g)"
  using evl_new_inv [of False False g] evl_rep_registered [OF evl_new_inv, of False False g]
  by (auto simp: fresh_loop_def evl_inv_def) (simp_all add: new_event_loop_select_def)

lemma add_socket_law:
  assumes "evl_inv e" "evl_sk_valid sk" "evl_registered e sk = None"
  obtains e' where "add_socket evl_select_api sk m c e = Ok e'" "evl_inv e'"
    "evl_registered e' = (evl_registered e)(sk \<mapsto> (m, c))" "in_callback e' = in_callback e" "dead e' = dead e"
proof -
  obtain t reg where rep: "evl_rep e t reg" using assms(1) by (auto simp: evl_inv_def)
  have reg: "evl_registered e = reg" by (rule evl_rep_registered [OF rep])
  obtain e' t' where "evl_select_add_socket sk m c e = Ok e'" "evl_rep e' t' (reg(sk \<mapsto> (m, c)))"
    "in_callback e' = in_callback e" "dead e' = dead e"
    using evl_add_law [OF rep, of sk m c] assms(2,3) reg by (auto simp: evl_sk_valid_def)
  with reg show thesis
    by (intro that [of e']) (auto simp: evl_select_api_def evl_inv_def evl_rep_registered)
qed

text \<open>The two tcp pipes of a program after \<open>br->init\<close>.\<close>

lemma tcp_init_held:
  assumes "tcp_pipe_init evl_select_api ((new_tcp_pipe a sk)\<lparr>tp_hooked := True\<rparr>) w = Ok (p, w')"
    "evl_inv (w_evl w)" "evl_sk_valid sk" "evl_registered (w_evl w) sk = None"
  shows "tcp_held 0 p w'" "tp_self p = a" "tp_sk p = sk" "tp_base p = zero_flags" "w_sock w' = w_sock w"
    "evl_inv (w_evl w')" "evl_registered (w_evl w') = (evl_registered (w_evl w))(sk \<mapsto> (SK_EV_writable, a))"
    "in_callback (w_evl w') = in_callback (w_evl w)" "dead (w_evl w') = dead (w_evl w)"
proof -
  obtain e where e: "add_socket evl_select_api sk SK_EV_writable a (w_evl w) = Ok e" "evl_inv e"
    "evl_registered e = (evl_registered (w_evl w))(sk \<mapsto> (SK_EV_writable, a))"
    "in_callback e = in_callback (w_evl w)" "dead e = dead (w_evl w)"
    by (rule add_socket_law [OF assms(2-4)]) (rule that)
  have "p = (new_tcp_pipe a sk)\<lparr>tp_hooked := True, tp_evl := True, tp_sk_mask := SK_EV_writable\<rparr>" "w' = w\<lparr>w_evl := e\<rparr>"
    using assms(1) e(1) by (auto simp: tcp_pipe_init_def new_tcp_pipe_def get_pipe_state_zero)
  with e show "tcp_held 0 p w'" "tp_self p = a" "tp_sk p = sk" "tp_base p = zero_flags" "w_sock w' = w_sock w"
    "evl_inv (w_evl w')" "evl_registered (w_evl w') = (evl_registered (w_evl w))(sk \<mapsto> (SK_EV_writable, a))"
    "in_callback (w_evl w') = in_callback (w_evl w)" "dead (w_evl w') = dead (w_evl w)"
    by (simp_all add: tcp_held_def tcp_reg_def new_tcp_pipe_def)
qed

lemma tcp_pair_held:
  assumes fresh: "fresh_sockets w c2p p2s" "fresh_loop (w_evl w)"
    and init: "tcp_pipe_init evl_select_api ((new_tcp_pipe a c2p)\<lparr>tp_hooked := True\<rparr>) w = Ok (p, w1)"
      "tcp_pipe_init evl_select_api ((new_tcp_pipe b p2s)\<lparr>tp_hooked := True\<rparr>) w1 = Ok (q, w2)"
  shows "tcp_held 0 p w2" "tcp_held 0 q w2" "tp_self p = a" "tp_self q = b" "tp_sk p = c2p" "tp_sk q = p2s" "c2p \<noteq> p2s"
    "tp_base p = zero_flags" "tp_base q = zero_flags" "dom (evl_registered (w_evl w2)) = {c2p, p2s}"
    "\<not> in_callback (w_evl w2)" "\<not> dead (w_evl w2)"
    "tcp_input p w2 = script_bytes (rx_script (w_sock w c2p))" "tcp_input q w2 = script_bytes (rx_script (w_sock w p2s))"
proof -
  have f: "evl_inv (w_evl w)" "evl_sk_valid c2p" "evl_sk_valid p2s" "c2p \<noteq> p2s" "evl_registered (w_evl w) = Map.empty"
    "\<not> in_callback (w_evl w)" "\<not> dead (w_evl w)" "rx_log (w_sock w c2p) = []" "rx_log (w_sock w p2s) = []"
    using fresh by (simp_all add: fresh_sockets_def fresh_loop_def)
  have p: "tcp_held 0 p w1" "tp_self p = a" "tp_sk p = c2p" "tp_base p = zero_flags" "w_sock w1 = w_sock w"
    "evl_inv (w_evl w1)" "evl_registered (w_evl w1) = [c2p \<mapsto> (SK_EV_writable, a)]"
    "in_callback (w_evl w1) = in_callback (w_evl w)" "dead (w_evl w1) = dead (w_evl w)"
    using tcp_init_held [OF init(1) f(1,2)] f(5) by simp_all
  have "evl_registered (w_evl w1) p2s = None" using p(7) f(4) by simp
  note q = tcp_init_held [OF init(2) p(6) f(3) this]
  show "tcp_held 0 p w2"
    by (rule tcp_program.held_other [OF p(1)]) (use q p f(4) in simp_all)
  show "tcp_held 0 q w2" "tp_self p = a" "tp_self q = b" "tp_sk p = c2p" "tp_sk q = p2s" "c2p \<noteq> p2s"
    "tp_base p = zero_flags" "tp_base q = zero_flags" "dom (evl_registered (w_evl w2)) = {c2p, p2s}"
    "\<not> in_callback (w_evl w2)" "\<not> dead (w_evl w2)"
    "tcp_input p w2 = script_bytes (rx_script (w_sock w c2p))" "tcp_input q w2 = script_bytes (rx_script (w_sock w p2s))"
    using p q f by (auto simp: tcp_input_def)
qed

lemma dgm_init_held:
  assumes "dgm_ok d w" "dg_base d = zero_flags" "dg_rx d = None" "at_pending (dg_io d) = None"
    "tp_base (dgm_tcp d) = zero_flags" "tcp_held 0 (dgm_tcp d) w"
  shows "dgm_held 0 d w"
proof -
  have s: "stale_of (at_base (dg_io d)) zero_flags" "at_hooked (dg_io d)" "dg_hooked d" "max_hdr_size d = 5"
    using assms by (simp_all add: dgm_ok_def dgm_inv_def atx_ok_def atx_inv_def)
  then have "at_base (dg_io d) = zero_flags"
    using stale_of_sel [OF s(1)] by (cases "at_base (dg_io d)") (auto simp: stale_of_def zero_flags_def)
  with s assms show ?thesis by (simp add: dgm_held_def atx_held_def atx_waits_def atx_bits_def)
qed

text \<open>Each program from its two sockets on.\<close>

lemma relay_program_run:
  assumes fresh: "fresh_sockets w c2p p2s" "fresh_loop (w_evl w)" and ab: "a \<noteq> b"
  shows "\<exists>br downs w'. relay_program a b c2p p2s oss w = Ok ((br, downs), w') \<and>
    (\<exists>rest. script_bytes (rx_script (w_sock w c2p)) = tx_log (w_sock w' p2s) @ rest) \<and>
    (\<exists>rest. script_bytes (rx_script (w_sock w p2s)) = tx_log (w_sock w' c2p) @ rest) \<and>
    length downs \<le> 1 \<and>
    (downs = [True] \<longrightarrow> script_bytes (rx_script (w_sock w c2p)) = tx_log (w_sock w' p2s) \<and>
      script_bytes (rx_script (w_sock w p2s)) = tx_log (w_sock w' c2p))"
proof -
  obtain p q w1 w2 where i: "br_bridge_init tcp_io tcp_io (relay_bridge a b c2p p2s) w = Ok (fresh_bridge (1024 * 1024) p q, w2)"
    "br_inv tcp_view tcp_view (fresh_bridge (1024 * 1024) p q) w2"
    "tcp_pipe_init evl_select_api ((new_tcp_pipe a c2p)\<lparr>tp_hooked := True\<rparr>) w = Ok (p, w1)"
    "tcp_pipe_init evl_select_api ((new_tcp_pipe b p2s)\<lparr>tp_hooked := True\<rparr>) w1 = Ok (q, w2)"
    using relay_start [OF fresh(1), of a b] by blast
  note h = tcp_pair_held [OF fresh i(3,4)]
  have "program_frame (\<lambda>p. p) tcp_held (\<lambda>p. p) tcp_held (w_evl w2) c2p p2s a b 0 0 p q w2"
    using h by (simp add: program_frame_def)
  from relay_prog.state_start [OF this ab i(2)]
  have "relay_prog.state (script_bytes (rx_script (w_sock w c2p))) (script_bytes (rx_script (w_sock w p2s)))
      c2p p2s a b [] (fresh_bridge (1024 * 1024) p q, []) w2"
    using h by (simp add: tcp_view_def)
  then obtain br downs w' where m: "main_loop tcp_view (\<lambda>p. p) tcp_view (\<lambda>p. p) oss (fresh_bridge (1024 * 1024) p q, []) w2 =
      Ok ((br, downs), w')"
    "relay_prog.state (script_bytes (rx_script (w_sock w c2p))) (script_bytes (rx_script (w_sock w p2s)))
      c2p p2s a b [] (br, downs) w'"
    using relay_prog.main_loop_run [OF _ h(11,12), where oss = oss] by fast
  have "tp_sk (pipe_l br) = c2p" "tp_sk (pipe_r br) = p2s" using m(2) by (simp_all add: program_state_def program_frame_def)
  then have "v_sent tcp_view (pipe_l br) w' = tx_log (w_sock w' c2p)" "v_sent tcp_view (pipe_r br) w' = tx_log (w_sock w' p2s)"
    by (simp_all add: tcp_view_def tcp_sent_def)
  with relay_prog.state_delivered [OF m(2)] m(1) i(1) show ?thesis by (simp add: relay_program_def)
qed

lemma client_program_run:
  assumes fresh: "fresh_sockets w c2p p2s" "fresh_loop (w_evl w)" and ab: "a \<noteq> b"
    and safe: "safe_stream proxy_size (script_bytes (rx_script (w_sock w p2s)))"
  shows "\<exists>br downs w'. client_program a b c2p p2s oss w = Ok ((br, downs), w') \<and>
    (\<exists>queued. pending_bytes (at_pending (dg_io (pipe_r br))) = queued \<and>
      (\<exists>rest. script_bytes (rx_script (w_sock w c2p)) = payload (2 ^ 28) (tx_log (w_sock w' p2s) @ queued) @ rest) \<and>
      (\<exists>rest. payload proxy_size (script_bytes (rx_script (w_sock w p2s))) = tx_log (w_sock w' c2p) @ rest) \<and>
      length downs \<le> 1 \<and>
      (downs = [True] \<longrightarrow> script_bytes (rx_script (w_sock w c2p)) = payload (2 ^ 28) (tx_log (w_sock w' p2s) @ queued) \<and>
        payload proxy_size (script_bytes (rx_script (w_sock w p2s))) = tx_log (w_sock w' c2p)))"
proof -
  obtain p d w1 w2 where i: "br_bridge_init tcp_io dgm_io (proxy_client_bridge a b c2p p2s) w = Ok (fresh_bridge proxy_size p d, w2)"
    "br_inv tcp_view dgm_view (fresh_bridge proxy_size p d) w2" "max_size d = proxy_size"
    "dg_base d = zero_flags" "dg_rx d = None" "at_pending (dg_io d) = None"
    "tcp_pipe_init evl_select_api ((new_tcp_pipe a c2p)\<lparr>tp_hooked := True\<rparr>) w = Ok (p, w1)"
    "tcp_pipe_init evl_select_api ((new_tcp_pipe b p2s)\<lparr>tp_hooked := True\<rparr>) w1 = Ok (dgm_tcp d, w2)"
    using proxy_client_start [OF fresh(1) safe, of a b] by fastforce
  note h = tcp_pair_held [OF fresh i(7,8)]
  have "dgm_ok d w2" using i(2) by (simp add: br_inv_def dgm_view_def)
  from dgm_init_held [OF this i(4-6) h(9,2)]
  have "program_frame (\<lambda>p. p) tcp_held (\<lambda>p. dgm_tcp p) dgm_held (w_evl w2) c2p p2s a b 0 0 p d w2"
    using h by (simp add: program_frame_def)
  from client_prog.state_start [OF this ab i(2)]
  have "client_prog.state (script_bytes (rx_script (w_sock w c2p))) (payload proxy_size (script_bytes (rx_script (w_sock w p2s))))
      c2p p2s a b [] (fresh_bridge proxy_size p d, []) w2"
    using h(13,14) i(3) by (simp add: tcp_view_def dgm_view_def dgm_input_def) (simp add: proxy_size_def)
  then obtain br downs w' where m: "main_loop tcp_view (\<lambda>p. p) dgm_view (\<lambda>p. dgm_tcp p) oss (fresh_bridge proxy_size p d, []) w2 =
      Ok ((br, downs), w')"
    "client_prog.state (script_bytes (rx_script (w_sock w c2p))) (payload proxy_size (script_bytes (rx_script (w_sock w p2s))))
      c2p p2s a b [] (br, downs) w'"
    using client_prog.main_loop_run [OF _ h(11,12), where oss = oss] by fast
  have "tp_sk (pipe_l br) = c2p" "tp_sk (dgm_tcp (pipe_r br)) = p2s" using m(2) by (simp_all add: program_state_def program_frame_def)
  then have "v_sent tcp_view (pipe_l br) w' = tx_log (w_sock w' c2p)"
    "v_sent dgm_view (pipe_r br) w' = payload (2 ^ 28) (tx_log (w_sock w' p2s) @ pending_bytes (at_pending (dg_io (pipe_r br))))"
    by (simp_all add: tcp_view_def dgm_view_def dgm_sent_def atx_sent_def tcp_sent_def)
  with client_prog.state_delivered [OF m(2)] m(1) i(1) show ?thesis by (simp add: client_program_def)
qed

lemma server_program_run:
  assumes fresh: "fresh_sockets w c2p p2s" "fresh_loop (w_evl w)" and ab: "a \<noteq> b"
    and safe: "safe_stream proxy_size (script_bytes (rx_script (w_sock w c2p)))"
  shows "\<exists>br downs w'. server_program a b c2p p2s oss w = Ok ((br, downs), w') \<and>
    (\<exists>queued. pending_bytes (at_pending (dg_io (pipe_l br))) = queued \<and>
      (\<exists>rest. payload proxy_size (script_bytes (rx_script (w_sock w c2p))) = tx_log (w_sock w' p2s) @ rest) \<and>
      (\<exists>rest. script_bytes (rx_script (w_sock w p2s)) = payload (2 ^ 28) (tx_log (w_sock w' c2p) @ queued) @ rest) \<and>
      length downs \<le> 1 \<and>
      (downs = [True] \<longrightarrow> payload proxy_size (script_bytes (rx_script (w_sock w c2p))) = tx_log (w_sock w' p2s) \<and>
        script_bytes (rx_script (w_sock w p2s)) = payload (2 ^ 28) (tx_log (w_sock w' c2p) @ queued)))"
proof -
  obtain d q w1 w2 where i: "br_bridge_init dgm_io tcp_io (proxy_server_bridge a b c2p p2s) w = Ok (fresh_bridge proxy_size d q, w2)"
    "br_inv dgm_view tcp_view (fresh_bridge proxy_size d q) w2" "max_size d = proxy_size"
    "dg_base d = zero_flags" "dg_rx d = None" "at_pending (dg_io d) = None"
    "tcp_pipe_init evl_select_api ((new_tcp_pipe a c2p)\<lparr>tp_hooked := True\<rparr>) w = Ok (dgm_tcp d, w1)"
    "tcp_pipe_init evl_select_api ((new_tcp_pipe b p2s)\<lparr>tp_hooked := True\<rparr>) w1 = Ok (q, w2)"
    using proxy_server_start [OF fresh(1) safe, of a b] by fastforce
  note h = tcp_pair_held [OF fresh i(7,8)]
  have "dgm_ok d w2" using i(2) by (simp add: br_inv_def dgm_view_def)
  from dgm_init_held [OF this i(4-6) h(8,1)]
  have "program_frame (\<lambda>p. dgm_tcp p) dgm_held (\<lambda>p. p) tcp_held (w_evl w2) c2p p2s a b 0 0 d q w2"
    using h by (simp add: program_frame_def)
  from client_prog.flip.state_start [OF this ab i(2)]
  have "client_prog.flip.state (payload proxy_size (script_bytes (rx_script (w_sock w c2p)))) (script_bytes (rx_script (w_sock w p2s)))
      c2p p2s a b [] (fresh_bridge proxy_size d q, []) w2"
    using h(13,14) i(3) by (simp add: tcp_view_def dgm_view_def dgm_input_def) (simp add: proxy_size_def)
  then obtain br downs w' where m: "main_loop dgm_view (\<lambda>p. dgm_tcp p) tcp_view (\<lambda>p. p) oss (fresh_bridge proxy_size d q, []) w2 =
      Ok ((br, downs), w')"
    "client_prog.flip.state (payload proxy_size (script_bytes (rx_script (w_sock w c2p)))) (script_bytes (rx_script (w_sock w p2s)))
      c2p p2s a b [] (br, downs) w'"
    using client_prog.flip.main_loop_run [OF _ h(11,12), where oss = oss] by fast
  have "tp_sk (dgm_tcp (pipe_l br)) = c2p" "tp_sk (pipe_r br) = p2s" using m(2) by (simp_all add: program_state_def program_frame_def)
  then have "v_sent tcp_view (pipe_r br) w' = tx_log (w_sock w' p2s)"
    "v_sent dgm_view (pipe_l br) w' = payload (2 ^ 28) (tx_log (w_sock w' c2p) @ pending_bytes (at_pending (dg_io (pipe_l br))))"
    by (simp_all add: tcp_view_def dgm_view_def dgm_sent_def atx_sent_def tcp_sent_def)
  with client_prog.flip.state_delivered [OF m(2)] m(1) i(1) show ?thesis by (simp add: server_program_def)
qed

end
