(* ===== verification/Tools.thy ===== *)
theory Tools
  imports Startup Program
begin

text \<open>
  The two programs as a whole: the start of \<open>Startup\<close> and, when it ends with two sockets, the
  bridge and the main loop of \<open>Program\<close>.
\<close>

section \<open>tcp-relay and tcp-proxy\<close>

text \<open>
  \<open>w\<close> is the world as the pipes find it, but for the event loop, which \<open>main\<close> creates in memory
  whose content is \<open>junk\<close>.
\<close>

type_synonym junk = "bool \<times> bool \<times> (nat \<Rightarrow> select_sk)"

definition with_loop :: "junk \<Rightarrow> os_world \<Rightarrow> os_world" where
  "with_loop junk w = (case junk of (a, b, c) \<Rightarrow> w\<lparr>w_evl := new_event_loop_select a b c\<rparr>)"

definition startup_state :: startup where "startup_state = \<lparr>su_log = [], su_errno = 0\<rparr>"

datatype 'a running = Exited int | Running 'a os_world

definition tcp_relay ::
  "(string \<Rightarrow> 32 word) \<Rightarrow> os \<Rightarrow> string list \<Rightarrow> junk \<Rightarrow> nat \<Rightarrow> nat \<Rightarrow> (nat \<times> nat \<Rightarrow> select_reply) list \<Rightarrow> os_world \<Rightarrow>
   (tcp_pipe, tcp_pipe) program running res" where
  "tcp_relay inet_addr os args junk a b oss w =
     bind_res (relay_startup inet_addr os args startup_state) (\<lambda>(out, _). case out of
       Exit_with code \<Rightarrow> Ok (Exited code)
     | Connected c2p p2s \<Rightarrow>
         bind_res (relay_program a b c2p p2s oss (with_loop junk w)) (\<lambda>(x, w). Ok (Running x w)))"

text \<open>The proxy ends with the one bridge or the other.\<close>

datatype proxy_bridge =
    As_client "(tcp_pipe, tcp_pipe atx_pipe dgm_pipe) program"
  | As_server "(tcp_pipe atx_pipe dgm_pipe, tcp_pipe) program"

definition tcp_proxy ::
  "(string \<Rightarrow> 32 word) \<Rightarrow> os \<Rightarrow> string \<Rightarrow> string list \<Rightarrow> junk \<Rightarrow> nat \<Rightarrow> nat \<Rightarrow> (nat \<times> nat \<Rightarrow> select_reply) list \<Rightarrow>
   os_world \<Rightarrow> proxy_bridge running res" where
  "tcp_proxy inet_addr os prog args junk a b oss w =
     bind_res (proxy_startup inet_addr os prog args startup_state) (\<lambda>(client, out, _). case out of
       Exit_with code \<Rightarrow> Ok (Exited code)
     | Connected c2p p2s \<Rightarrow>
         if client
         then bind_res (client_program a b c2p p2s oss (with_loop junk w)) (\<lambda>(x, w). Ok (Running (As_client x) w))
         else bind_res (server_program a b c2p p2s oss (with_loop junk w)) (\<lambda>(x, w). Ok (Running (As_server x) w)))"

section \<open>Correctness\<close>

text \<open>
  What one direction of a running bridge has done: \<open>dst\<close> has been sent a prefix of \<open>src\<close>, and all
  of it when the bridge went down gracefully.
\<close>

definition carried :: "byte list \<Rightarrow> byte list \<Rightarrow> bool list \<Rightarrow> bool" where
  "carried src dst downs \<longleftrightarrow> prefix dst src \<and> (downs = [True] \<longrightarrow> dst = src)"

abbreviation "from_peer w sk \<equiv> script_bytes (rx_script (w_sock w sk))"
abbreviation "to_peer w sk \<equiv> tx_log (w_sock w sk)"

text \<open>
  The operating system gives out descriptors that fit an \<open>fd_set\<close>, not the same one twice, and
  nothing has been sent or received on them.
\<close>

definition good_sockets :: "os_world \<Rightarrow> int \<Rightarrow> int \<Rightarrow> bool" where
  "good_sockets w c2p p2s \<longleftrightarrow> c2p < FD_SETSIZE \<and> p2s < FD_SETSIZE \<and> c2p \<noteq> p2s \<and>
     rx_log (w_sock w c2p) = [] \<and> tx_log (w_sock w c2p) = [] \<and> rx_log (w_sock w p2s) = [] \<and> tx_log (w_sock w p2s) = []"

lemma with_loop_sock: "w_sock (with_loop junk w) = w_sock w"
  by (simp add: with_loop_def split: prod.splits)

lemma with_loop_fresh:
  assumes "good_sockets w c2p p2s" "0 \<le> c2p" "0 \<le> p2s"
  shows "fresh_sockets (with_loop (False, False, g) w) c2p p2s" "fresh_loop (w_evl (with_loop (False, False, g) w))"
  using assms new_loop_fresh [of g]
  by (auto simp: with_loop_def good_sockets_def fresh_sockets_def fresh_loop_def evl_sk_valid_def)

lemma carriedI:
  "\<exists>rest. src = dst @ rest \<Longrightarrow> (downs = [True] \<Longrightarrow> src = dst) \<Longrightarrow> carried src dst downs"
  by (auto simp: carried_def prefix_def)

lemma failing_step_range:
  assumes "cs \<noteq> []" "prefix cs (serve_calls listen sk c2p flags @ dial_calls p2s flags' sa)"
  shows "0 \<le> failing_step cs" "failing_step cs \<le> 5"
proof -
  have "last cs \<in> set (serve_calls listen sk c2p flags @ dial_calls p2s flags' sa)"
    using assms last_in_set [of cs] set_mono_prefix [OF assms(2)] by blast
  then show "0 \<le> failing_step cs" "failing_step cs \<le> 5"
    by (auto simp: serve_calls_def dial_calls_def unblock_calls_def failing_step_def split: if_splits)
qed

lemma startup_exit_code:
  "startup_outcome os e listen ip port cs0 (Exit_with code) s \<Longrightarrow> e \<le> code \<and> code \<le> e + 5"
  using failing_step_range by (fastforce simp: startup_outcome_def)

lemma startup_connected:
  "startup_outcome os e listen ip port cs0 (Connected c2p p2s) s \<Longrightarrow> 0 \<le> c2p \<and> 0 \<le> p2s"
  by (auto simp: startup_outcome_def)


text \<open>A client that sends two bytes, a server that sends nothing.\<close>

abbreviation "example_peers \<equiv>
  \<lparr>w_evl = new_event_loop_select False False undefined,
   w_sock = \<lambda>sk. example_sock (if sk = 3 then [Rx_data 7 [8], Rx_eof] else [Rx_eof]) [], w_errno = 0\<rparr>"


text \<open>
  C2. The program tcp-proxy, from its arguments on, under the same conditions and for a wire that
  holds no frames a pipe cannot take.  A syntax error exits with 1, a refused call with a code from
  1 to 6.  Otherwise the program runs without a failed assertion, an invalid access or an endless
  loop: the wire carries, in frames, a prefix of what the local peer sends, counting the bytes the
  atomic-send pipe still holds; the local peer is sent a prefix of what the frames on the wire
  carry; and both are complete when the bridge goes down gracefully.
\<close>

theorem tcp_proxy_correct:
  assumes args: "proxy_args args proxy_defaults = Ok conf"
    and good: "\<forall>client c2p p2s s. proxy_startup inet_addr os prog args startup_state = Ok (client, Connected c2p p2s, s) \<longrightarrow>
      good_sockets w c2p p2s \<and> safe_stream proxy_size (from_peer w (if client then p2s else c2p))"
    and ab: "a \<noteq> b"
  shows "(\<exists>code. tcp_proxy inet_addr os prog args (False, False, g) a b oss w = Ok (Exited code) \<and> 1 \<le> code \<and> code \<le> 6) \<or>
    (\<exists>client c2p p2s s downs w' queued. proxy_startup inet_addr os prog args startup_state = Ok (client, Connected c2p p2s, s) \<and>
      length downs \<le> 1 \<and>
      (if client then
         (\<exists>br. tcp_proxy inet_addr os prog args (False, False, g) a b oss w = Ok (Running (As_client (br, downs)) w') \<and>
           queued = pending_bytes (at_pending (dg_io (pipe_r br)))) \<and>
         carried (from_peer w c2p) (payload (2 ^ 28) (to_peer w' p2s @ queued)) downs \<and>
         carried (payload proxy_size (from_peer w p2s)) (to_peer w' c2p) downs
       else
         (\<exists>br. tcp_proxy inet_addr os prog args (False, False, g) a b oss w = Ok (Running (As_server (br, downs)) w') \<and>
           queued = pending_bytes (at_pending (dg_io (pipe_l br)))) \<and>
         carried (payload proxy_size (from_peer w c2p)) (to_peer w' p2s) downs \<and>
         carried (from_peer w p2s) (payload (2 ^ 28) (to_peer w' c2p @ queued)) downs))"
proof (cases conf)
  case None
  with args show ?thesis by (simp add: tcp_proxy_def proxy_startup_def)
next
  case (Some conf)
  with args have "proxy_args args proxy_defaults = Ok (Some conf)" by simp
  then obtain out s where start: "proxy_startup inet_addr os prog args startup_state = Ok (pc_client conf, out, s)"
    "startup_outcome os 1 (pxy_port conf) (inet_addr (srv_addr conf)) (srv_port conf)
       (calls (su_log startup_state) @ [Sys_signal_ignore SIGPIPE]) out s"
    by (rule proxy_startup_run) (rule that)
  show ?thesis
  proof (cases out)
    case (Exit_with code)
    with start startup_exit_code show ?thesis by (fastforce simp: tcp_proxy_def)
  next
    case (Connected c2p p2s)
    with start good have ok: "good_sockets w c2p p2s" "0 \<le> c2p" "0 \<le> p2s"
      "safe_stream proxy_size (from_peer w (if pc_client conf then p2s else c2p))" using startup_connected by blast+
    note fresh = with_loop_fresh [OF ok(1-3), of g] with_loop_sock
    show ?thesis
    proof (cases "pc_client conf")
      case True
      with ok(4) have "safe_stream proxy_size (from_peer (with_loop (False, False, g) w) p2s)" by (simp add: fresh(3))
      from client_program_run [OF fresh(1,2) ab this, of oss, unfolded fresh(3)]
      obtain br downs w' where r: "client_program a b c2p p2s oss (with_loop (False, False, g) w) = Ok ((br, downs), w')"
        "carried (from_peer w c2p) (payload (2 ^ 28) (to_peer w' p2s @ pending_bytes (at_pending (dg_io (pipe_r br))))) downs"
        "carried (payload proxy_size (from_peer w p2s)) (to_peer w' c2p) downs" "length downs \<le> 1"
        by (fastforce intro: carriedI)
      with start(1) Connected True show ?thesis by (fastforce simp: tcp_proxy_def)
    next
      case False
      with ok(4) have "safe_stream proxy_size (from_peer (with_loop (False, False, g) w) c2p)" by (simp add: fresh(3))
      from server_program_run [OF fresh(1,2) ab this, of oss, unfolded fresh(3)]
      obtain br downs w' where r: "server_program a b c2p p2s oss (with_loop (False, False, g) w) = Ok ((br, downs), w')"
        "carried (payload proxy_size (from_peer w c2p)) (to_peer w' p2s) downs"
        "carried (from_peer w p2s) (payload (2 ^ 28) (to_peer w' c2p @ pending_bytes (at_pending (dg_io (pipe_l br))))) downs"
        "length downs \<le> 1"
        by (fastforce intro: carriedI)
      with start(1) Connected False show ?thesis by (fastforce simp: tcp_proxy_def)
    qed
  qed
qed

theorem tcp_proxy_correct_witness:
  "\<exists>br downs w'. tcp_proxy (\<lambda>_. 0x0100007F) example_os [] [] (False, False, undefined) 1 2
      [\<lambda>_. Sel_ready {} {3, 4} {}, \<lambda>_. Sel_ready {3} {} {}] example_peers = Ok (Running (As_client (br, downs)) w') \<and>
    carried [7, 8] (payload (2 ^ 28) (to_peer w' 4 @ pending_bytes (at_pending (dg_io (pipe_r br))))) downs"
proof -
  have args: "proxy_args [] proxy_defaults = Ok (Some proxy_defaults)" by simp
  obtain s where s: "proxy_startup (\<lambda>_. 0x0100007F) example_os [] [] startup_state = Ok (True, Connected 3 4, s)"
    using example_proxy_connected [OF args] unfolding startup_state_def by (fastforce simp: proxy_defaults_def)
  have "good_sockets example_peers 3 4" "safe_stream proxy_size (from_peer example_peers 4)"
    by (simp_all add: good_sockets_def FD_SETSIZE_def safe_stream_def)
  then have "\<forall>client c2p p2s t. proxy_startup (\<lambda>_. 0x0100007F) example_os [] [] startup_state = Ok (client, Connected c2p p2s, t) \<longrightarrow>
      good_sockets example_peers c2p p2s \<and> safe_stream proxy_size (from_peer example_peers (if client then p2s else c2p))"
    using s by simp
  from tcp_proxy_correct [OF args this, of 1 2 undefined "[\<lambda>_. Sel_ready {} {3, 4} {}, \<lambda>_. Sel_ready {3} {} {}]"] s
  show ?thesis by (auto simp: tcp_proxy_def bind_res_eq_Ok split: if_splits)
qed

end
