(* ===== verification/Defects.thy ===== *)
theory Defects
  imports Tools
begin

unbundle bit_operations_syntax

text \<open>
  Two runs of \<open>tcp-proxy\<close> that do not end as they should, both from a FIN that the atomic-send pipe
  holds back behind data: when it is sent at last nobody is told and the program waits for ever,
  and a bridge may go down gracefully while it is still held back.
\<close>

section \<open>The deferred FIN\<close>

text \<open>A socket call that succeeds at once.\<close>

lemma sk_send_all:
  assumes "tx_script (w_sock w sk) = Tx_accept k # rest" "length bs \<le> k" "length bs < 2 ^ 31"
  shows "sk_send sk bs w = (int (length bs),
    w\<lparr>w_sock := (w_sock w)(sk := (w_sock w sk)\<lparr>tx_script := rest, tx_log := tx_log (w_sock w sk) @ bs\<rparr>)\<rparr>)"
  using assms by (subst sk_send_def, subst send_retry.simps) (simp add: c_int_small Let_def)

lemma sk_shutdown_now:
  "shut_script (w_sock w sk) = [] \<Longrightarrow>
   sk_shutdown sk w = (0, w\<lparr>w_sock := (w_sock w)(sk := (w_sock w sk)\<lparr>fin_out := True\<rparr>)\<rparr>)"
  by (simp add: sk_shutdown_def)

abbreviation "last_flags \<equiv>
  \<lparr>ready = True, broken = False, readable = False, fin_rcvd = True, writable = False, fin_sent = False\<rparr>"

text \<open>
  The right side of a client proxy whose wire has ended, with data and then a FIN waiting for the
  socket, and the socket takes both.
\<close>

definition last_pending :: "tcp_pipe atx_pipe dgm_pipe \<Rightarrow> io_buffer \<Rightarrow> os_world \<Rightarrow> bool" where
  "last_pending d b w \<longleftrightarrow>
     tp_base (dgm_tcp d) = last_flags \<and> tp_evl (dgm_tcp d) \<and> tp_hooked (dgm_tcp d) \<and> tp_sk_mask (dgm_tcp d) = SK_EV_writable \<and>
     at_pending (dg_io d) = Some b \<and> at_want_fin (dg_io d) \<and> wf_buf b \<and> 0 < buf_size b \<and> buf_size b < 2 ^ 31 \<and>
     shut_script (w_sock w (tp_sk (dgm_tcp d))) = [] \<and>
     (\<exists>k rest. tx_script (w_sock w (tp_sk (dgm_tcp d))) = Tx_accept k # rest \<and> buf_size b \<le> k)"

lemma deferred_fin_event:
  assumes d: "last_pending d b w" and evl: "evl_inv (w_evl w)"
    "evl_registered (w_evl w) (tp_sk (dgm_tcp d)) = Some (SK_EV_writable, c)"
  obtains d' w' where "dgm_event atx_io d SK_EV_writable w = Ok (None, d', w')"
    "tp_base (dgm_tcp d') = last_flags\<lparr>fin_sent := True\<rparr>" "at_pending (dg_io d') = None" "dg_base d' = dg_base d"
    "tp_sk (dgm_tcp d') = tp_sk (dgm_tcp d)" "tp_self (dgm_tcp d') = tp_self (dgm_tcp d)"
    "evl_inv (w_evl w')" "evl_registered (w_evl w') = (evl_registered (w_evl w))(tp_sk (dgm_tcp d) \<mapsto> (0, c))"
    "evl_quiet (w_evl w) (w_evl w')" "fin_out (w_sock w' (tp_sk (dgm_tcp d)))"
    "tx_log (w_sock w' (tp_sk (dgm_tcp d))) = tx_log (w_sock w (tp_sk (dgm_tcp d))) @ buf_bytes b"
proof -
  let ?q = "dgm_tcp d" and ?sk = "tp_sk (dgm_tcp d)"
  obtain e where e: "evl_select_mod_socket ?sk 0 (w_evl w) = Ok e" "evl_inv e"
    "evl_registered e = (evl_registered (w_evl w))(?sk \<mapsto> (0, c))"
    using evl.mod_law [OF evl, of 0] by (auto simp: evl_select_api_def)
  then have quiet: "evl_quiet (w_evl w) e" using mod_socket_quiet by blast
  obtain k rest where k: "tx_script (w_sock w ?sk) = Tx_accept k # rest" "buf_size b \<le> k"
    using d by (auto simp: last_pending_def)
  have len: "length (buf_bytes b) = buf_size b" using d by (auto simp: last_pending_def wf_buf_def buf_bytes_def)
  let ?q1 = "?q\<lparr>tp_base := last_flags\<lparr>writable := True\<rparr>, tp_sk_mask := 0\<rparr>" and ?w1 = "w\<lparr>w_evl := e\<rparr>"
  let ?w2 = "?w1\<lparr>w_sock := (w_sock w)(?sk := (w_sock w ?sk)\<lparr>tx_script := rest, tx_log := tx_log (w_sock w ?sk) @ buf_bytes b\<rparr>)\<rparr>"
  let ?q3 = "?q\<lparr>tp_base := last_flags\<lparr>fin_sent := True\<rparr>, tp_sk_mask := 0\<rparr>"
  let ?w3 = "?w2\<lparr>w_sock := (w_sock ?w2)(?sk := (w_sock ?w2 ?sk)\<lparr>fin_out := True\<rparr>)\<rparr>"
  have f: "tp_base ?q = last_flags" "tp_evl ?q" "tp_hooked ?q" "tp_sk_mask ?q = SK_EV_writable" "at_pending (dg_io d) = Some b"
    "at_want_fin (dg_io d)" "shut_script (w_sock w ?sk) = []" "0 < buf_size b" "buf_size b < 2 ^ 31"
    using d by (simp_all add: last_pending_def)
  have nz: "SK_EV_writable \<noteq> 0" by (simp add: event_defs)
  have event: "tcp_pipe_on_activity evl_select_api ?q SK_EV_writable w = Ok (Some IO_EV_writable, ?q1, ?w1)"
    using f(1-4) e(1) nz by (simp add: tcp_pipe_on_activity_def tcp_ready_events_def tcp_pipe_adjust_event_mask_def tcp_wanted_def
      evl_select_api_def word_flags Let_def)
  have send: "tcp_pipe_send evl_select_api ?q1 (buf_bytes b) ?w1 = Ok (int (buf_size b), ?q1, ?w2)"
    using f sk_send_all [of ?w1 ?sk k rest "buf_bytes b"] k len
    by (simp add: tcp_pipe_send_def tcp_pipe_adjust_event_mask_def tcp_wanted_def c_size_nonneg Let_def)
  have fin: "tcp_pipe_send_fin evl_select_api ?q1 ?w2 = Ok (0, ?q3, ?w3)"
    using f sk_shutdown_now [of ?w2 ?sk]
    by (simp add: tcp_pipe_send_fin_def tcp_pipe_adjust_event_mask_def tcp_wanted_def Let_def)
  let ?a = "atx_pipe_clone_state tcp_io ((dg_io d)\<lparr>at_io := ?q3, at_pending := None\<rparr>)"
  have "atx_event tcp_io (dg_io d) SK_EV_writable w = Ok (None, ?a, ?w3)"
    using f event send fin
    by (simp add: atx_event_def atx_pipe_on_activity_def atx_flush_def atx_flush_fin_def word_flags c_int_small c_size_nonneg Let_def)
  then have "dgm_event atx_io d SK_EV_writable w = Ok (None, d\<lparr>dg_io := ?a\<rparr>, ?w3)"
    by (simp add: dgm_event_def)
  then show thesis
    by (rule that) (use e quiet f in simp_all)
qed

section \<open>Waiting for ever\<close>

text \<open>A turn of \<open>select\<close> that finds no socket in an exceptional state.\<close>

definition no_errors :: "int set \<Rightarrow> select_reply \<Rightarrow> bool" where
  "no_errors S reply \<longleftrightarrow> (case reply of Sel_error e \<Rightarrow> True | Sel_ready R W X \<Rightarrow> X \<inter> S = {})"

lemma evl_touch_reg:
  assumes "evl_touch e e'" "evl_inv e"
  shows "evl_inv e'" "evl_registered e' = evl_registered e"
proof -
  obtain t reg where "evl_rep e t reg" using assms(2) by (auto simp: evl_inv_def)
  then have "evl_rep e' t reg" "evl_registered e = reg"
    using evl_touch_rep [OF assms(1)] evl_rep_registered by blast+
  then show "evl_inv e'" "evl_registered e' = evl_registered e"
    using evl_rep_registered by (auto simp: evl_inv_def)
qed

lemma evl_inv_finite: "evl_inv e \<Longrightarrow> finite (dom (evl_registered e))"
  by (auto simp: evl_inv_def dest: evl_rep_finite simp: evl_rep_registered)

lemma evl_due_idle:
  assumes "\<And>sk m c. reg sk = Some (m, c) \<Longrightarrow> m = 0" "finite (dom reg)" "no_errors (dom reg) reply"
  shows "evl_due reg reply = []"
proof (cases reply)
  case (Sel_ready R W X)
  have none: "wanting reg f = {}" for f
    using assms(1) by (fastforce simp: wanting_def has_def split: option.splits)
  have "dom reg \<inter> X = {}" using assms(3) Sel_ready by (auto simp: no_errors_def)
  then show ?thesis using Sel_ready assms(2) by (simp add: evl_due_def none evl_ready_Nil)
qed (simp add: evl_due_def)

text \<open>One turn of the main loop in which one event is due.\<close>

lemma monitor_one:
  fixes P :: "'x \<Rightarrow> (int \<Rightarrow> sock) \<Rightarrow> (int \<rightharpoonup> uint \<times> nat) \<Rightarrow> bool"
  assumes evl: "evl_inv (w_evl w)" "\<not> in_callback (w_evl w)" "\<not> dead (w_evl w)"
    and due: "evl_due (evl_registered (w_evl w)) (os (select_timeout ms)) = [(c, h)]"
    and cb: "\<And>v. w_sock v = w_sock w \<Longrightarrow> evl_inv (w_evl v) \<Longrightarrow> evl_registered (w_evl v) = evl_registered (w_evl w) \<Longrightarrow>
      \<exists>y v'. cb c h x v = Ok (y, v') \<and> evl_quiet (w_evl v) (w_evl v') \<and> evl_inv (w_evl v') \<and>
        P y (w_sock v') (evl_registered (w_evl v'))"
  shows "\<exists>r y w'. evl_select_monitor cb os ms x w = Ok (r, y, w') \<and> evl_inv (w_evl w') \<and>
    \<not> in_callback (w_evl w') \<and> \<not> dead (w_evl w') \<and> P y (w_sock w') (evl_registered (w_evl w'))"
proof -
  define J where "J evs y v \<longleftrightarrow> evl_inv (w_evl v) \<and>
    (evs = [(c, h)] \<and> y = x \<and> w_sock v = w_sock w \<and> evl_registered (w_evl v) = evl_registered (w_evl w) \<or>
     evs = [] \<and> P y (w_sock v) (evl_registered (w_evl v)))"
    for evs :: "(nat \<times> uint) list" and y :: 'x and v :: os_world
  have touch: "J evs y (v\<lparr>w_evl := e'\<rparr>)" if "J evs y v" "evl_touch (w_evl v) e'" for evs y v e'
    using that evl_touch_reg [OF that(2)] by (simp add: J_def)
  have start: "J (evl_due (evl_registered (w_evl w)) (os (select_timeout ms))) x (w\<lparr>w_errno := errno\<rparr>)" for errno
    using evl(1) due by (simp add: J_def)
  have step: "\<exists>y' v'. cb c' h' y v = Ok (y', v') \<and> evl_quiet (w_evl v) (w_evl v') \<and> J evs y' v'"
    if "J ((c', h') # evs) y v" for c' h' evs y v
    using that cb [of v] by (fastforce simp: J_def)
  from evl_monitor_run [where J = J and cb = cb and os = os and ms = ms and x = x and w = w, OF evl touch step start]
  show ?thesis by (auto simp: J_def)
qed

lemma main_loop_idle:
  assumes "evl_inv (w_evl w)" "\<not> in_callback (w_evl w)" "\<not> dead (w_evl w)"
    and "\<And>sk m c. evl_registered (w_evl w) sk = Some (m, c) \<Longrightarrow> m = 0"
    and "\<forall>os \<in> set oss. no_errors (dom (evl_registered (w_evl w))) (os (select_timeout 100))"
  shows "\<exists>w'. main_loop V lt U rt oss (br, []) w = Ok ((br, []), w') \<and> w_sock w' = w_sock w"
  using assms
proof (induction oss arbitrary: w)
  case (Cons os oss)
  let ?reg = "evl_registered (w_evl w)"
  define J where "J evs x v \<longleftrightarrow> evs = [] \<and> x = (br, []) \<and> w_sock v = w_sock w \<and> evl_inv (w_evl v) \<and>
    evl_registered (w_evl v) = ?reg" for evs :: "(nat \<times> uint) list" and x :: "('a, 'b) program" and v :: os_world
  have touch: "J evs x (v\<lparr>w_evl := e'\<rparr>)" if "J evs x v" "evl_touch (w_evl v) e'" for evs x v e'
    using that evl_touch_reg [OF that(2)] by (simp add: J_def)
  have "evl_due ?reg (os (select_timeout 100)) = []"
    by (rule evl_due_idle) (use Cons.prems evl_inv_finite in auto)
  then have start: "J (evl_due ?reg (os (select_timeout 100))) (br, []) (w\<lparr>w_errno := errno\<rparr>)" for errno
    using Cons.prems(1) by (simp add: J_def)
  have "\<exists>x' w'. program_cb V lt U rt c h x v = Ok (x', w') \<and> evl_quiet (w_evl v) (w_evl w') \<and> J evs x' w'"
    if "J ((c, h) # evs) x v" for c h evs x v
    using that by (simp add: J_def)
  from evl_monitor_run [where J = J and cb = "program_cb V lt U rt" and os = os and ms = 100 and x = "(br, [])" and w = w, OF Cons.prems(1-3) touch this start]
  obtain r w' where m: "evl_select_monitor (program_cb V lt U rt) os 100 (br, []) w = Ok (r, (br, []), w')"
    "w_sock w' = w_sock w" "evl_inv (w_evl w')" "evl_registered (w_evl w') = ?reg" "\<not> in_callback (w_evl w')" "\<not> dead (w_evl w')"
    by (auto simp: J_def)
  obtain w2 where "main_loop V lt U rt oss (br, []) w' = Ok ((br, []), w2)" "w_sock w2 = w_sock w'"
    using Cons.IH [of w'] m Cons.prems(4,5) by (fastforce simp: m(4))
  with m show ?case by simp
qed simp

lemma evl_due_one:
  assumes "evl_registered e = [sl \<mapsto> (0, a), sr \<mapsto> (m, b)]" "sl \<noteq> sr" "X \<inter> {sl, sr} = {}"
    "h = evl_have (sr \<in> R \<and> has m SK_EV_readable) (sr \<in> W \<and> has m SK_EV_writable) False" "h \<noteq> 0"
  shows "evl_due (evl_registered e) (Sel_ready R W X) = [(b, h)]"
proof -
  let ?reg = "evl_registered e"
  define g where "g sk = (let have = evl_have (sk \<in> wanting ?reg SK_EV_readable \<inter> R) (sk \<in> wanting ?reg SK_EV_writable \<inter> W)
      (sk \<in> dom ?reg \<inter> X) in if have = 0 then [] else [(snd (the (?reg sk)), have)])" for sk
  have want: "sr \<in> wanting ?reg f \<longleftrightarrow> has m f" "sl \<notin> wanting ?reg f" for f
    using assms(1,2) by (auto simp: wanting_def has_def)
  have dom: "dom ?reg = {sl, sr}" using assms(1) by auto
  have "g sl = []" "g sr = [(b, h)]"
    using assms want by (simp_all add: g_def Let_def conj_commute)
  moreover have "sorted_list_of_set {sl, sr} = [sl, sr] \<or> sorted_list_of_set {sl, sr} = [sr, sl]"
    using assms(2) by (auto simp: sorted_list_of_set_insert_remove)
  moreover have "evl_due ?reg (Sel_ready R W X) = concat (map g (sorted_list_of_set {sl, sr}))"
    unfolding evl_due_def select_reply.case evl_ready_def g_def [abs_def] dom ..
  ultimately show ?thesis by (elim disjE) simp_all
qed

text \<open>
  The last stage of a client proxy: the local peer has had everything and has been told so, the
  wire has ended, and the last data with the FIN behind it wait in the atomic-send pipe.
\<close>

definition last_stage ::
  "int \<Rightarrow> int \<Rightarrow> nat \<Rightarrow> nat \<Rightarrow> (tcp_pipe, tcp_pipe atx_pipe dgm_pipe) br_bridge \<Rightarrow> io_buffer \<Rightarrow> os_world \<Rightarrow> bool" where
  "last_stage sl sr a b br buf w \<longleftrightarrow>
     tp_base (pipe_l br) = last_flags\<lparr>fin_sent := True\<rparr> \<and> tp_self (pipe_l br) = a \<and>
     last_pending (pipe_r br) buf w \<and> tp_sk (dgm_tcp (pipe_r br)) = sr \<and> tp_self (dgm_tcp (pipe_r br)) = b \<and>
     a \<noteq> b \<and> sl \<noteq> sr \<and> evl_inv (w_evl w) \<and> \<not> in_callback (w_evl w) \<and> \<not> dead (w_evl w) \<and>
     evl_registered (w_evl w) = [sl \<mapsto> (0, a), sr \<mapsto> (SK_EV_writable, b)]"

lemma last_stage_turn:
  assumes s0: "last_stage sl sr a b br buf w"
    and first: "os (select_timeout 100) = Sel_ready R W X" "sr \<in> W" "X \<inter> {sl, sr} = {}"
  shows "\<exists>r d v. evl_select_monitor (program_cb tcp_view (\<lambda>p. p) dgm_view (\<lambda>p. dgm_tcp p)) os 100 (br, []) w =
      Ok (r, (br\<lparr>br_r := (br_r br)\<lparr>st_pipe := d\<rparr>\<rparr>, []), v) \<and>
    evl_inv (w_evl v) \<and> \<not> in_callback (w_evl v) \<and> \<not> dead (w_evl v) \<and>
    evl_registered (w_evl v) = [sl \<mapsto> (0, a), sr \<mapsto> (0, b)] \<and>
    tp_base (dgm_tcp d) = last_flags\<lparr>fin_sent := True\<rparr> \<and>
    to_peer v sr = to_peer w sr @ buf_bytes buf \<and> fin_out (w_sock v sr)"
proof -
  have s: "tp_base (pipe_l br) = last_flags\<lparr>fin_sent := True\<rparr>" "tp_self (pipe_l br) = a" "last_pending (pipe_r br) buf w"
    "tp_sk (dgm_tcp (pipe_r br)) = sr" "tp_self (dgm_tcp (pipe_r br)) = b" "a \<noteq> b" "sl \<noteq> sr" "evl_inv (w_evl w)"
    "\<not> in_callback (w_evl w)" "\<not> dead (w_evl w)" "evl_registered (w_evl w) = [sl \<mapsto> (0, a), sr \<mapsto> (SK_EV_writable, b)]"
    using s0 by (simp_all add: last_stage_def)
  let ?cb = "program_cb tcp_view (\<lambda>p. p) dgm_view (\<lambda>p. dgm_tcp p)"
  let ?P = "\<lambda>x sock reg. \<exists>d. x = (br\<lparr>br_r := (br_r br)\<lparr>st_pipe := d\<rparr>\<rparr>, []) \<and>
    tp_base (dgm_tcp d) = last_flags\<lparr>fin_sent := True\<rparr> \<and> tx_log (sock sr) = to_peer w sr @ buf_bytes buf \<and>
    fin_out (sock sr) \<and> reg = [sl \<mapsto> (0, a), sr \<mapsto> (0, b)]"
  have due: "evl_due (evl_registered (w_evl w)) (os (select_timeout 100)) = [(b, SK_EV_writable)]"
    using evl_due_one [OF s(11,7) first(3), of SK_EV_writable R W] first(1,2) by (simp add: evl_have_def word_flags) (simp add: event_defs)
  have step: "\<exists>y v'. ?cb b SK_EV_writable (br, []) v = Ok (y, v') \<and> evl_quiet (w_evl v) (w_evl v') \<and> evl_inv (w_evl v') \<and>
      ?P y (w_sock v') (evl_registered (w_evl v'))"
    if v: "w_sock v = w_sock w" "evl_inv (w_evl v)" "evl_registered (w_evl v) = evl_registered (w_evl w)" for v
  proof -
    have "last_pending (pipe_r br) buf v" using s(3) v(1) by (simp add: last_pending_def)
    moreover have "evl_registered (w_evl v) (tp_sk (dgm_tcp (pipe_r br))) = Some (SK_EV_writable, b)" using v(3) s(4,7,11) by simp
    ultimately obtain d v' where d: "dgm_event atx_io (pipe_r br) SK_EV_writable v = Ok (None, d, v')"
      "tp_base (dgm_tcp d) = last_flags\<lparr>fin_sent := True\<rparr>"
      "evl_inv (w_evl v')" "evl_registered (w_evl v') = (evl_registered (w_evl v))(sr \<mapsto> (0, b))"
      "evl_quiet (w_evl v) (w_evl v')" "fin_out (w_sock v' sr)" "tx_log (w_sock v' sr) = tx_log (w_sock v sr) @ buf_bytes buf"
      using s(4) by (elim deferred_fin_event [OF _ v(2)]) auto
    have "?cb b SK_EV_writable (br, []) v = Ok ((br\<lparr>br_r := (br_r br)\<lparr>st_pipe := d\<rparr>\<rparr>, []), v')"
      using d(1) s(2,5,6) by (simp add: program_cb_def br_event_def br_event_r_def dgm_view_def Let_def)
    with d v s(11) show ?thesis by (intro exI [of _ "(br\<lparr>br_r := (br_r br)\<lparr>st_pipe := d\<rparr>\<rparr>, [])"] exI [of _ v'] conjI exI [of _ d]) simp_all
  qed
  obtain r x v where m: "evl_select_monitor ?cb os 100 (br, []) w = Ok (r, x, v)" "evl_inv (w_evl v)"
    "\<not> in_callback (w_evl v)" "\<not> dead (w_evl v)" "?P x (w_sock v) (evl_registered (w_evl v))"
    using monitor_one [where P = ?P and cb = ?cb and os = os and ms = 100 and x = "(br, [])" and w = w, OF s(8-10) due step] by blast
  then show ?thesis by blast
qed


section \<open>Down before the data is out\<close>

lemma sk_recv_eof:
  assumes "rx_script (w_sock w sk) = Rx_eof # rest"
  shows "sk_recv sk n w = (0, [], w)"
proof -
  have "w_sock w sk = (w_sock w sk)\<lparr>rx_script := Rx_eof # rest\<rparr>" using assms by (cases "w_sock w sk") simp
  then have "(w_sock w)(sk := (w_sock w sk)\<lparr>rx_script := Rx_eof # rest\<rparr>) = w_sock w" by (rule fun_upd_idem)
  with assms show ?thesis by (subst sk_recv_def, subst recv_retry.simps) (simp add: Let_def)
qed

abbreviation "busy_right \<equiv>
  \<lparr>ready = True, broken = False, readable = False, fin_rcvd = False, writable = False, fin_sent = False\<rparr>"
abbreviation "ended_left \<equiv>
  \<lparr>ready = True, broken = False, readable = False, fin_rcvd = True, writable = True, fin_sent = False\<rparr>"

text \<open>
  The right side of a client proxy with data and a FIN waiting in the atomic-send pipe, when the
  wire ends.
\<close>

definition ending_wire :: "tcp_pipe atx_pipe dgm_pipe \<Rightarrow> io_buffer \<Rightarrow> os_world \<Rightarrow> bool" where
  "ending_wire d buf w \<longleftrightarrow>
     tp_base (dgm_tcp d) = busy_right \<and> tp_evl (dgm_tcp d) \<and> tp_hooked (dgm_tcp d) \<and>
     tp_sk_mask (dgm_tcp d) = SK_EV_readable OR SK_EV_writable \<and>
     at_pending (dg_io d) = Some buf \<and> at_want_fin (dg_io d) \<and> at_hooked (dg_io d) \<and>
     dg_hooked d \<and> dg_rx d = None \<and> max_hdr_size d = 5 \<and>
     (\<exists>rest. rx_script (w_sock w (tp_sk (dgm_tcp d))) = Rx_eof # rest)"

lemma ending_wire_event:
  assumes d: "ending_wire d buf w" and evl: "evl_inv (w_evl w)"
    "evl_registered (w_evl w) (tp_sk (dgm_tcp d)) = Some (SK_EV_readable OR SK_EV_writable, c)"
  obtains d1 d2 w' where "dgm_event atx_io d SK_EV_readable w = Ok (Some IO_EV_readable, d1, w')"
    "dg_base d1 = busy_right\<lparr>readable := True\<rparr>"
    "0 < len \<Longrightarrow> dgm_pipe_recv atx_io d1 len w' = Ok (0, [], d2, w')" "dg_base d2 = busy_right\<lparr>fin_rcvd := True\<rparr>"
    "at_pending (dg_io d2) = Some buf" "at_want_fin (dg_io d2)" "w_sock w' = w_sock w" "evl_inv (w_evl w')"
    "evl_quiet (w_evl w) (w_evl w')"
proof -
  let ?q = "dgm_tcp d" and ?sk = "tp_sk (dgm_tcp d)"
  obtain e where e: "evl_select_mod_socket ?sk SK_EV_writable (w_evl w) = Ok e" "evl_inv e"
    using evl.mod_law [OF evl, of SK_EV_writable] by (auto simp: evl_select_api_def)
  then have quiet: "evl_quiet (w_evl w) e" using mod_socket_quiet by blast
  obtain rest where eof: "rx_script (w_sock w ?sk) = Rx_eof # rest" using d by (auto simp: ending_wire_def)
  have f: "tp_base ?q = busy_right" "tp_evl ?q" "tp_hooked ?q" "tp_sk_mask ?q = SK_EV_readable OR SK_EV_writable"
    "at_pending (dg_io d) = Some buf" "at_want_fin (dg_io d)" "at_hooked (dg_io d)" "dg_hooked d" "dg_rx d = None" "max_hdr_size d = 5"
    using d by (simp_all add: ending_wire_def)
  let ?q1 = "?q\<lparr>tp_base := busy_right\<lparr>readable := True\<rparr>, tp_sk_mask := SK_EV_writable\<rparr>" and ?w1 = "w\<lparr>w_evl := e\<rparr>"
  let ?q2 = "?q\<lparr>tp_base := busy_right\<lparr>fin_rcvd := True\<rparr>, tp_sk_mask := SK_EV_writable\<rparr>"
  let ?a1 = "atx_pipe_clone_state tcp_io ((dg_io d)\<lparr>at_io := ?q1\<rparr>)"
  let ?a2 = "atx_pipe_clone_state tcp_io (?a1\<lparr>at_io := ?q2\<rparr>)"
  have nz: "SK_EV_readable OR SK_EV_writable \<noteq> SK_EV_writable" "IO_EV_readable \<noteq> 0" by (simp_all add: event_defs)
  have event: "tcp_pipe_on_activity evl_select_api ?q SK_EV_readable w = Ok (Some IO_EV_readable, ?q1, ?w1)"
    using f(1-4) e(1) nz by (simp add: tcp_pipe_on_activity_def tcp_ready_events_def tcp_pipe_adjust_event_mask_def tcp_wanted_def
      evl_select_api_def word_flags Let_def)
  have recv: "tcp_pipe_recv evl_select_api ?q1 n ?w1 = Ok (0, [], ?q2, ?w1)" for n
    using f sk_recv_eof [of ?w1 ?sk rest n] eof
    by (simp add: tcp_pipe_recv_def tcp_pipe_adjust_event_mask_def tcp_wanted_def Let_def)
  have "atx_event tcp_io (dg_io d) SK_EV_readable w = Ok (Some IO_EV_readable, ?a1, ?w1)"
    using f event nz(2) by (simp add: atx_event_def atx_pipe_on_activity_def word_flags Let_def)
  then have up: "dgm_event atx_io d SK_EV_readable w = Ok (Some IO_EV_readable, dgm_pipe_clone_state atx_io (d\<lparr>dg_io := ?a1\<rparr>), ?w1)"
    using f(8) by (simp add: dgm_event_def dgm_pipe_on_activity_def Let_def)
  let ?d1 = "dgm_pipe_clone_state atx_io (d\<lparr>dg_io := ?a1\<rparr>)"
  let ?d2 = "dgm_pipe_clone_state atx_io (?d1\<lparr>dg_rx := None, dg_io := ?a2\<rparr>)"
  have recv: "dgm_pipe_recv atx_io ?d1 len ?w1 = Ok (0, [], ?d2, ?w1)" if "0 < len"
    using f recv that
    by (simp add: dgm_pipe_recv_def alloc_io_buffer_None dgm_recv_more_def atx_pipe_recv_def dgm_recv_pass_def Let_def
      dgm_pipe_clone_state_def)
  show thesis
    by (rule that [OF up _ recv]) (use f e quiet in simp_all)
qed

definition closing_stage ::
  "int \<Rightarrow> int \<Rightarrow> nat \<Rightarrow> nat \<Rightarrow> (tcp_pipe, tcp_pipe atx_pipe dgm_pipe) br_bridge \<Rightarrow> io_buffer \<Rightarrow> os_world \<Rightarrow> bool" where
  "closing_stage sl sr a b br buf w \<longleftrightarrow>
     tp_base (pipe_l br) = ended_left \<and> tp_evl (pipe_l br) \<and> tp_sk_mask (pipe_l br) = 0 \<and> tp_sk (pipe_l br) = sl \<and>
     tp_self (pipe_l br) = a \<and> shut_script (w_sock w sl) = [] \<and> \<not> br_dead br \<and> 0 < recv_size (br_r br) \<and>
     st_pending (br_l br) = None \<and>
     ending_wire (pipe_r br) buf w \<and> tp_sk (dgm_tcp (pipe_r br)) = sr \<and> tp_self (dgm_tcp (pipe_r br)) = b \<and>
     a \<noteq> b \<and> sl \<noteq> sr \<and> evl_inv (w_evl w) \<and> \<not> in_callback (w_evl w) \<and> \<not> dead (w_evl w) \<and>
     evl_registered (w_evl w) = [sl \<mapsto> (0, a), sr \<mapsto> (SK_EV_readable OR SK_EV_writable, b)]"

text \<open>The event on the bridge: the FIN of the wire is relayed, and the bridge goes down.\<close>

lemma closing_event:
  assumes l: "tp_base (pipe_l br) = ended_left" "tp_evl (pipe_l br)" "tp_sk_mask (pipe_l br) = 0"
      "shut_script (w_sock w (tp_sk (pipe_l br))) = []"
    and br: "\<not> br_dead br" "0 < recv_size (br_r br)" "st_pending (br_l br) = None"
    and r: "ending_wire (pipe_r br) buf w" "evl_inv (w_evl w)"
      "evl_registered (w_evl w) (tp_sk (dgm_tcp (pipe_r br))) = Some (SK_EV_readable OR SK_EV_writable, c)"
  obtains br' w' where "br_event_r (Suc (Suc n)) tcp_io dgm_io br SK_EV_readable w = Ok (Some True, br', w')"
    "at_pending (dg_io (pipe_r br')) = Some buf" "at_want_fin (dg_io (pipe_r br'))"
    "\<And>sk. tx_log (w_sock w' sk) = tx_log (w_sock w sk)" "evl_inv (w_evl w')" "evl_quiet (w_evl w) (w_evl w')"
proof -
  obtain d1 d2 w1 where d: "dgm_event atx_io (pipe_r br) SK_EV_readable w = Ok (Some IO_EV_readable, d1, w1)"
    "dg_base d1 = busy_right\<lparr>readable := True\<rparr>"
    "dgm_pipe_recv atx_io d1 (recv_size (br_r br)) w1 = Ok (0, [], d2, w1)" "dg_base d2 = busy_right\<lparr>fin_rcvd := True\<rparr>"
    "at_pending (dg_io d2) = Some buf" "at_want_fin (dg_io d2)" "w_sock w1 = w_sock w" "evl_inv (w_evl w1)"
    "evl_quiet (w_evl w) (w_evl w1)"
    by (rule ending_wire_event [OF r, of "recv_size (br_r br)"]) (use br(2) in blast)
  let ?p = "pipe_l br"
  let ?p' = "?p\<lparr>tp_base := ended_left\<lparr>writable := False, fin_sent := True\<rparr>\<rparr>"
  let ?w2 = "w1\<lparr>w_sock := (w_sock w1)(tp_sk ?p := (w_sock w1 (tp_sk ?p))\<lparr>fin_out := True\<rparr>)\<rparr>"
  have fin: "tcp_pipe_send_fin evl_select_api ?p w1 = Ok (0, ?p', ?w2)"
    using l sk_shutdown_now [of w1 "tp_sk ?p"] d(7)
    by (simp add: tcp_pipe_send_fin_def tcp_pipe_adjust_event_mask_def tcp_wanted_def Let_def)
  let ?self = "(br_r br)\<lparr>st_pipe := d1\<rparr>" and ?self' = "(br_r br)\<lparr>st_pipe := d2\<rparr>" and ?peer' = "(br_l br)\<lparr>st_pipe := ?p'\<rparr>"
  have turn: "\<exists>b'. br_bridge_rx_tx dgm_io tcp_io ?self (br_l br) (Some b) w1 = Ok (0, ?self', ?peer', Some b', ?w2)"
    if "recv_size (br_r br) \<le> capacity b" for b
    using that br(3) d(2,3,4) l(1) fin by (simp add: br_bridge_rx_tx_def Let_def)
  have loop: "br_relay_loop (Suc (Suc n)) dgm_io tcp_io ?self (br_l br) (Some b) w1 = Ok (0, ?self', ?peer', ?w2)"
    if cap: "recv_size (br_r br) \<le> capacity b" for b
  proof -
    obtain b' where "br_bridge_rx_tx dgm_io tcp_io ?self (br_l br) (Some b) w1 = Ok (0, ?self', ?peer', Some b', ?w2)"
      using turn [OF cap] by blast
    then show ?thesis using d(2,4) l(1) by simp
  qed
  have "br_bridge_relay (Suc (Suc n)) dgm_io tcp_io ?self (br_l br) w1 = Ok (0, ?self', ?peer', ?w2)"
    unfolding br_bridge_relay_def Let_def alloc_io_buffer_None bind_res_Ok by (rule loop) simp
  then have "br_stream_on_activity (Suc (Suc n)) dgm_io tcp_io (br_dead br) ?self (br_l br) IO_EV_readable w1 =
      Ok (Some True, True, ?self', ?peer', ?w2)"
    using br(1) d(2,4) l(1)
    by (simp add: br_stream_on_activity_def br_step_def br_on_readable_def word_flags del: br_relay_loop.simps)
  with d(1) have "br_event_r (Suc (Suc n)) tcp_io dgm_io br SK_EV_readable w =
      Ok (Some True, br\<lparr>br_dead := True, br_l := ?peer', br_r := ?self'\<rparr>, ?w2)"
    by (simp add: br_event_r_def Let_def)
  then show thesis
    by (rule that) (use d(5-9) in simp_all)
qed


text \<open>A state of a client proxy with a frame of one byte and a FIN in the atomic-send pipe.\<close>

abbreviation "waiting_buf \<equiv> \<lparr>capacity = 2, buf_head = 0, buf_size = 2, buf_data = [1, 6]\<rparr>"
abbreviation "waiting_bridge f g \<equiv>
  \<lparr>br_evl = True, br_hooked = True, br_dead = False,
   br_l = (fresh_stream proxy_size (example_tcp f))\<lparr>st_rx := 1\<rparr>,
   br_r = (fresh_stream proxy_size
     \<lparr>dg_base = g, dg_hooked = True,
      dg_io = \<lparr>at_base = g, at_hooked = True, at_io = (example_tcp g)\<lparr>tp_sk := 4, tp_self := 2\<rparr>,
        at_pending = Some waiting_buf, at_want_fin = True\<rparr>,
      max_size = proxy_size, max_hdr_size = 5, dg_rx = None\<rparr>)\<lparr>st_tx := 1\<rparr>\<rparr>"
abbreviation "waiting_world e rxs txs \<equiv>
  \<lparr>w_evl = e, w_sock = \<lambda>sk. (example_sock rxs txs)\<lparr>rx_log := (if sk = 3 then [6] else [])\<rparr>, w_errno = 0\<rparr>"

lemma waiting_bridge_inv:
  assumes "evl_inv e" "evl_registered e = [3 \<mapsto> (tcp_wanted f, 1), 4 \<mapsto> (tcp_wanted g, 2)]"
    and "flags_ok f" "flags_ok g" "ready f" "ready g" "fin_rcvd f" "\<not> readable f" "\<not> writable g" "\<not> fin_sent g"
      "fin_rcvd g \<longleftrightarrow> fin_sent f" "\<not> readable g" "script_bytes rxs = []"
  shows "br_inv tcp_view dgm_view (waiting_bridge f g) (waiting_world e rxs txs)"
proof -
  have ok: "tcp_ok (example_tcp f) (waiting_world e rxs txs)" "tcp_ok ((example_tcp g)\<lparr>tp_sk := 4, tp_self := 2\<rparr>) (waiting_world e rxs txs)"
    using assms by (simp_all add: tcp_ok_def tcp_inv_def)
  have frame: "[1, 6] = [] @ frame [6]" by (simp add: frame_def varint_small)
  have "well_framed ([] @ frame [6])" by (rule well_framed_snoc) simp_all
  moreover have "payload (2 ^ 28) ([] @ frame [6]) = [] @ [6]" by (subst payload_frame(3)) (simp_all add: whole_def payload_def datagrams_def)
  ultimately have f: "well_framed [1, 6]" "payload (2 ^ 28) [1, 6] = [6]" unfolding frame by simp_all
  have g: "stale_of g (g\<lparr>writable := False\<rparr>)" using assms(9) by (intro stale_ofI) simp_all
  show ?thesis
    using assms ok f g by (simp add: br_inv_def br_direction_def br_link_def tcp_view_def dgm_view_def dgm_ok_def dgm_inv_def atx_ok_def
      atx_inv_def tcp_rcvd_def tcp_sent_def tcp_input_def atx_sent_def atx_fin_asked_def dgm_sent_def dgm_rcvd_def dgm_datagrams_def datagrams_def
      whole_def safe_stream_def proxy_size_def tcp_lim_def dgm_lim_def wf_buf_def buf_bytes_def)
qed

lemma two_sockets:
  obtains e where "evl_inv e" "evl_registered e = [3 \<mapsto> (m, 1), 4 \<mapsto> (m', 2)]" "\<not> in_callback e" "\<not> dead e"
proof -
  let ?e0 = "new_event_loop_select False False undefined"
  have e0: "evl_inv ?e0" "evl_registered ?e0 = Map.empty" "\<not> in_callback ?e0" "\<not> dead ?e0"
    using new_loop_fresh [of undefined] by (simp_all add: fresh_loop_def)
  obtain e1 where e1: "evl_inv e1" "evl_registered e1 = [3 \<mapsto> (m, 1)]" "\<not> in_callback e1" "\<not> dead e1"
    by (rule add_socket_law [OF e0(1), of 3 m 1]) (use e0 in \<open>simp_all add: evl_sk_valid_def FD_SETSIZE_def\<close>)
  obtain e2 where "evl_inv e2" "evl_registered e2 = [3 \<mapsto> (m, 1), 4 \<mapsto> (m', 2)]" "\<not> in_callback e2" "\<not> dead e2"
    by (rule add_socket_law [OF e1(1), of 4 m' 2]) (use e1 in \<open>simp_all add: evl_sk_valid_def FD_SETSIZE_def\<close>)
  then show thesis by (rule that)
qed



end
