(* ===== verification/BridgeFuel.thy ===== *)
theory BridgeFuel
  imports App
begin

text \<open>
  The loops of the bridge end.  The model of \<open>br_bridge_relay\<close> counts its turns; here a run that
  returns is shown to return the same with any larger number of turns, so that with the
  laws of the bridge every event has one outcome from \<open>br_fuel\<close> turns on: that of the loop as it
  is written in the code, which therefore ends.
\<close>

section \<open>More turns change nothing\<close>

text \<open>\<open>b\<close> returns what \<open>a\<close> returns, if \<open>a\<close> returns.\<close>

definition le_res :: "'a res \<Rightarrow> 'a res \<Rightarrow> bool" where
  "le_res a b \<longleftrightarrow> (\<forall>x. a = Ok x \<longrightarrow> b = Ok x)"

named_theorems le_rules \<open>monotonicity of the control structures\<close>

lemma le_res_refl [le_rules]: "le_res a a"
  by (simp add: le_res_def)

lemma le_res_bind [le_rules]: "le_res a b \<Longrightarrow> (\<And>x. le_res (f x) (g x)) \<Longrightarrow> le_res (bind_res a f) (bind_res b g)"
  by (auto simp: le_res_def bind_res_eq_Ok)

lemma le_res_if [le_rules]: "(c \<Longrightarrow> le_res a b) \<Longrightarrow> (\<not> c \<Longrightarrow> le_res a' b') \<Longrightarrow> le_res (if c then a else a') (if c then b else b')"
  by simp

lemma le_res_assert [le_rules]: "le_res a b \<Longrightarrow> le_res (c_assert c a) (c_assert c b)"
  by (auto simp: le_res_def c_assert_eq_Ok)

lemma le_res_prod [le_rules]: "(\<And>x y. le_res (f x y) (g x y)) \<Longrightarrow> le_res (case p of (x, y) \<Rightarrow> f x y) (case p of (x, y) \<Rightarrow> g x y)"
  by (cases p) simp

lemma le_res_option [le_rules]:
  "le_res a b \<Longrightarrow> (\<And>x. le_res (f x) (g x)) \<Longrightarrow>
   le_res (case z of None \<Rightarrow> a | Some x \<Rightarrow> f x) (case z of None \<Rightarrow> b | Some x \<Rightarrow> g x)"
  by (cases z) simp_all

lemma le_res_Ok: "le_res a b \<Longrightarrow> a = Ok x \<Longrightarrow> b = Ok x"
  by (simp add: le_res_def)

lemma br_relay_loop_more:
  "n \<le> m \<Longrightarrow> le_res (br_relay_loop n sio dio src dst buf w) (br_relay_loop m sio dio src dst buf w)"
proof (induction n arbitrary: m src dst buf w)
  case (Suc n)
  then obtain k where m: "m = Suc k" "n \<le> k" by (cases m) auto
  then show ?case
    unfolding m(1) br_relay_loop.simps by (intro le_rules Suc.IH)
qed (simp add: le_res_def)

lemma br_bridge_relay_more:
  assumes "n \<le> m"
  shows "le_res (br_bridge_relay n sio dio src dst w) (br_bridge_relay m sio dio src dst w)"
  unfolding br_bridge_relay_def Let_def by (intro le_rules br_relay_loop_more assms)

lemma br_on_writable_more:
  assumes "n \<le> m"
  shows "le_res (br_on_writable n io pio self peer w) (br_on_writable m io pio self peer w)"
  unfolding br_on_writable_def by (intro le_rules br_bridge_relay_more [OF assms])

lemma br_on_readable_more:
  assumes "n \<le> m"
  shows "le_res (br_on_readable n io pio self peer w) (br_on_readable m io pio self peer w)"
  unfolding br_on_readable_def by (intro le_rules br_bridge_relay_more [OF assms])

lemma br_stream_on_activity_more:
  assumes "n \<le> m"
  shows "le_res (br_stream_on_activity n io pio gone self peer events w) (br_stream_on_activity m io pio gone self peer events w)"
  unfolding br_stream_on_activity_def br_step_def
  by (intro le_rules br_on_writable_more [OF assms] br_on_readable_more [OF assms])

lemma br_event_more:
  assumes "n \<le> m"
  shows "le_res (br_event n lio rio side br ev w) (br_event m lio rio side br ev w)"
proof (cases side)
  case Left_side
  then show ?thesis
    unfolding br_event_def br_event_l_def Let_def by (simp only: br_side.case) (intro le_rules br_stream_on_activity_more [OF assms])
next
  case Right_side
  then show ?thesis
    unfolding br_event_def br_event_r_def Let_def by (simp only: br_side.case) (intro le_rules br_stream_on_activity_more [OF assms])
qed

lemma br_event_settles:
  assumes "br_event k lio rio side br ev w = Ok out"
  shows "\<exists>out. \<forall>n \<ge> k. br_event n lio rio side br ev w = Ok out"
proof (intro exI allI impI)
  fix n assume "k \<le> n"
  then show "br_event n lio rio side br ev w = Ok out"
    using assms by (rule le_res_Ok [OF br_event_more])
qed

section \<open>Every event has an outcome\<close>

text \<open>
  C6. The bridge never hangs.  Whatever event the loop delivers to a relay or to a proxy, in a state
  its invariant allows and for every behaviour of the sockets, the loops of the callback end: the
  outcome is the same for every bound on their turns from \<open>br_fuel\<close> on, a bound computed from what
  the two peers still have to say.
\<close>

theorem bridge_events_end:
  "(br_inv tcp_view tcp_view br w \<and> br_ev_ok tcp_view tcp_view side br ev \<longrightarrow>
      (\<exists>out. \<forall>n \<ge> br_fuel tcp_view tcp_view br w. br_event n tcp_io tcp_io side br ev w = Ok out)) \<and>
   (br_inv tcp_view dgm_view pr w \<and> br_ev_ok tcp_view dgm_view side pr ev \<longrightarrow>
      (\<exists>out. \<forall>n \<ge> br_fuel tcp_view dgm_view pr w. br_event n tcp_io dgm_io side pr ev w = Ok out)) \<and>
   (br_inv dgm_view tcp_view sr w \<and> br_ev_ok dgm_view tcp_view side sr ev \<longrightarrow>
      (\<exists>out. \<forall>n \<ge> br_fuel dgm_view tcp_view sr w. br_event n dgm_io tcp_io side sr ev w = Ok out))"
proof (intro conjI impI; elim conjE)
  assume "br_inv tcp_view tcp_view br w" "br_ev_ok tcp_view tcp_view side br ev"
  then obtain out where "br_event (br_fuel tcp_view tcp_view br w) tcp_io tcp_io side br ev w = Ok out"
    using relay_laws(1) [OF _ _ order_refl, of br w side ev] by blast
  then show "\<exists>out. \<forall>n \<ge> br_fuel tcp_view tcp_view br w. br_event n tcp_io tcp_io side br ev w = Ok out"
    by (rule br_event_settles)
next
  assume "br_inv tcp_view dgm_view pr w" "br_ev_ok tcp_view dgm_view side pr ev"
  then obtain out where "br_event (br_fuel tcp_view dgm_view pr w) tcp_io dgm_io side pr ev w = Ok out"
    using client_laws(1) [OF _ _ order_refl, of pr w side ev] by blast
  then show "\<exists>out. \<forall>n \<ge> br_fuel tcp_view dgm_view pr w. br_event n tcp_io dgm_io side pr ev w = Ok out"
    by (rule br_event_settles)
next
  assume "br_inv dgm_view tcp_view sr w" "br_ev_ok dgm_view tcp_view side sr ev"
  then obtain out where "br_event (br_fuel dgm_view tcp_view sr w) dgm_io tcp_io side sr ev w = Ok out"
    using server_laws(1) [OF _ _ order_refl, of sr w side ev] by blast
  then show "\<exists>out. \<forall>n \<ge> br_fuel dgm_view tcp_view sr w. br_event n dgm_io tcp_io side sr ev w = Ok out"
    by (rule br_event_settles)
qed

theorem bridge_events_end_witness:
  "\<exists>br w out. br_inv tcp_view dgm_view br w \<and>
    (\<forall>n \<ge> br_fuel tcp_view dgm_view br w. br_event n tcp_io dgm_io Right_side br SK_EV_error w = Ok out)"
proof -
  have "safe_stream proxy_size (script_bytes (rx_script (w_sock example_world 4)))"
    by (simp add: safe_stream_def)
  then obtain br w where "br_inv tcp_view dgm_view br w"
    using proxy_client_start [OF example_fresh] by blast
  moreover have "br_ev_ok tcp_view dgm_view Right_side br SK_EV_error"
    using error_event by (simp add: br_ev_ok_def dgm_view_def)
  ultimately show ?thesis using bridge_events_end by blast
qed

end
