(* ===== verification/SocketWin.thy ===== *)
theory SocketWin
  imports Startup
begin

text \<open>
  The Windows version of the socket calls, \<open>sys/inc.windows/libp/socket.h\<close>, over the same scripts and
  the same operating system as the Linux one, with \<open>WSAGetLastError\<close> in the place of \<open>errno\<close>.
\<close>

section \<open>The wrappers\<close>

text \<open>The values of \<open>winsock2.h\<close>.\<close>

definition WSAEWOULDBLOCK :: int where "WSAEWOULDBLOCK = 10035"
definition WSAEINPROGRESS :: int where "WSAEINPROGRESS = 10036"
definition WSAETIMEDOUT :: int where "WSAETIMEDOUT = 10060"
definition WSAECONNREFUSED :: int where "WSAECONNREFUSED = 10061"
definition FIONBIO :: int where "FIONBIO = -2147195266"

text \<open>
  The static \<open>wsa.wVersion\<close> is the state; \<open>WSAStartup\<close> is a function from the version asked for
  (\<open>MAKEWORD(2,0)\<close> is 2) to its result and what it stores.
\<close>

definition sk_init_win :: "(16 word \<Rightarrow> int \<times> 16 word) \<Rightarrow> 16 word \<Rightarrow> int \<times> 16 word" where
  "sk_init_win wsa_startup version = (if version \<noteq> 0 then (0, version) else wsa_startup 2)"

definition sk_create_win :: "os \<Rightarrow> int \<Rightarrow> int \<Rightarrow> int \<Rightarrow> startup \<Rightarrow> int \<times> startup" where
  "sk_create_win os family kind protocol = call_ret os (Sys_socket family kind protocol)"

definition sk_bind_win :: "os \<Rightarrow> int \<Rightarrow> sockaddr_in \<Rightarrow> nat \<Rightarrow> startup \<Rightarrow> int \<times> startup" where
  "sk_bind_win os sk addr alen = call_ret os (Sys_bind sk addr alen)"

definition sk_connect_win :: "os \<Rightarrow> int \<Rightarrow> sockaddr_in \<Rightarrow> nat \<Rightarrow> startup \<Rightarrow> int \<times> startup" where
  "sk_connect_win os sk addr alen = call_ret os (Sys_connect sk addr alen)"

definition sk_listen_win :: "os \<Rightarrow> int \<Rightarrow> int \<Rightarrow> startup \<Rightarrow> int \<times> startup" where
  "sk_listen_win os sk backlog = call_ret os (Sys_listen sk backlog)"

definition sk_accept_win :: "os \<Rightarrow> int \<Rightarrow> sockaddr_in \<Rightarrow> nat \<Rightarrow> startup \<Rightarrow> int \<times> sockaddr_in \<times> startup" where
  "sk_accept_win os sk addr alen = call_addr os (Sys_accept sk alen) addr"

definition sk_getsockname_win :: "os \<Rightarrow> int \<Rightarrow> sockaddr_in \<Rightarrow> nat \<Rightarrow> startup \<Rightarrow> int \<times> sockaddr_in \<times> startup" where
  "sk_getsockname_win os sk addr alen = call_addr os (Sys_getsockname sk alen) addr"

definition sk_getpeername_win :: "os \<Rightarrow> int \<Rightarrow> sockaddr_in \<Rightarrow> nat \<Rightarrow> startup \<Rightarrow> int \<times> sockaddr_in \<times> startup" where
  "sk_getpeername_win os sk addr alen = call_addr os (Sys_getpeername sk alen) addr"

definition sk_setsockopt_win :: "os \<Rightarrow> int \<Rightarrow> int \<Rightarrow> int \<Rightarrow> int \<Rightarrow> startup \<Rightarrow> int \<times> startup" where
  "sk_setsockopt_win os sk level opt val = call_ret os (Sys_setsockopt sk level opt val)"

definition sk_unblock_win :: "os \<Rightarrow> int \<Rightarrow> startup \<Rightarrow> int \<times> startup" where
  "sk_unblock_win os sk = call_ret os (Sys_ioctlsocket sk FIONBIO 1)"

definition sk_conn_fatal_win :: "int \<Rightarrow> bool" where
  "sk_conn_fatal_win err \<longleftrightarrow> err \<noteq> WSAEINPROGRESS"

definition sk_recv_fatal_win :: "int \<Rightarrow> bool" where
  "sk_recv_fatal_win err \<longleftrightarrow> err \<noteq> WSAEWOULDBLOCK"

definition sk_send_fatal_win :: "int \<Rightarrow> bool" where
  "sk_send_fatal_win err \<longleftrightarrow> err \<noteq> WSAEWOULDBLOCK"

definition sk_conn_refused_win :: "int \<Rightarrow> bool" where
  "sk_conn_refused_win err \<longleftrightarrow> err = WSAECONNREFUSED"

definition sk_conn_timeout_win :: "int \<Rightarrow> bool" where
  "sk_conn_timeout_win err \<longleftrightarrow> err = WSAETIMEDOUT"

text \<open>
  The calls on a connected socket.  They are not repeated after an interruption.  A receive that
  finds nothing fails with \<open>WSAEWOULDBLOCK\<close>, as does a send with no space.
\<close>

definition recvfrom_win :: "nat \<Rightarrow> recv_reply list \<Rightarrow> int \<Rightarrow> int \<times> byte list \<times> int \<times> recv_reply list" where
  "recvfrom_win n script err = (if script = [] then (-1, [], WSAEWOULDBLOCK, []) else sys_recvfrom n script err)"

definition sendto_win :: "nat \<Rightarrow> send_reply list \<Rightarrow> int \<Rightarrow> int \<times> int \<times> send_reply list" where
  "sendto_win n script err = (if script = [] then (-1, WSAEWOULDBLOCK, []) else sys_sendto n script err)"

definition sk_recv_win :: "int \<Rightarrow> nat \<Rightarrow> 'e world \<Rightarrow> int \<times> byte list \<times> 'e world" where
  "sk_recv_win sk n w =
     (let s = w_sock w sk; (r, bs, e, script) = recvfrom_win n (rx_script s) (w_errno w) in
      (r, bs, w\<lparr>w_sock := (w_sock w)(sk := s\<lparr>rx_script := script, rx_log := rx_log s @ bs\<rparr>), w_errno := e\<rparr>))"

definition sk_send_win :: "int \<Rightarrow> byte list \<Rightarrow> 'e world \<Rightarrow> int \<times> 'e world" where
  "sk_send_win sk bs w =
     (let s = w_sock w sk; (r, e, script) = sendto_win (length bs) (tx_script s) (w_errno w) in
      (r, w\<lparr>w_sock := (w_sock w)(sk := s\<lparr>tx_script := script, tx_log := tx_log s @ take (nat r) bs\<rparr>), w_errno := e\<rparr>))"

text \<open>\<open>shutdown\<close>, \<open>getsockopt(SO_ERROR)\<close> and the empty address are as on Linux.\<close>

definition sk_shutdown_win :: "int \<Rightarrow> 'e world \<Rightarrow> int \<times> 'e world" where
  "sk_shutdown_win sk w = sk_shutdown sk w"

definition sk_close_win :: "int \<Rightarrow> 'e world \<Rightarrow> 'e world" where
  "sk_close_win sk w = w\<lparr>w_sock := (w_sock w)(sk := (w_sock w sk)\<lparr>sk_open := False\<rparr>)\<rparr>"

definition sk_errno_win :: "'e world \<Rightarrow> int" where
  "sk_errno_win w = w_errno w"

definition sk_error_win :: "int \<Rightarrow> 'e world \<Rightarrow> int \<times> 'e world" where
  "sk_error_win sk w = sk_error sk w"

definition sockaddr_in_init_win :: sockaddr_in where
  "sockaddr_in_init_win = \<lparr>sin_family = word_of_int AF_INET, sin_port = 0, sin_addr = 0\<rparr>"

section \<open>The same bytes as on Linux\<close>

text \<open>The outcome of a call as a tcp pipe sees it: success, try again later, or a broken pipe.\<close>

datatype verdict = Done int | Later | Fatal

definition verdict :: "(int \<Rightarrow> bool) \<Rightarrow> int \<Rightarrow> int \<Rightarrow> verdict" where
  "verdict fatal r err = (if 0 \<le> r then Done r else if fatal err then Fatal else Later)"

text \<open>A Windows script that says what a Linux script says: only the codes of the errors differ.\<close>

definition err_match :: "int \<Rightarrow> int \<Rightarrow> bool" where
  "err_match e e' \<longleftrightarrow> e \<noteq> EINTR \<and> (e' = WSAEWOULDBLOCK \<longleftrightarrow> e = EAGAIN \<or> e = ENOMEM)"

fun rx_match :: "recv_reply \<Rightarrow> recv_reply \<Rightarrow> bool" where
  "rx_match (Rx_error e) (Rx_error e') = err_match e e'"
| "rx_match x y = (x = y)"

fun tx_match :: "send_reply \<Rightarrow> send_reply \<Rightarrow> bool" where
  "tx_match (Tx_error e) (Tx_error e') = err_match e e'"
| "tx_match x y = (x = y)"

lemma fatal_match: "err_match e e' \<Longrightarrow> sk_recv_fatal_win e' = sk_recv_fatal e \<and> sk_send_fatal_win e' = sk_send_fatal e"
  by (auto simp: err_match_def sk_recv_fatal_def sk_send_fatal_def sk_recv_fatal_win_def sk_send_fatal_win_def
    EAGAIN_def EWOULDBLOCK_def)

lemma rx_match_data [simp]: "rx_match (Rx_data b bs) y \<longleftrightarrow> y = Rx_data b bs" "rx_match Rx_eof y \<longleftrightarrow> y = Rx_eof"
  by (cases y; auto)+

lemma tx_match_accept [simp]: "tx_match (Tx_accept k) y \<longleftrightarrow> y = Tx_accept k"
  by (cases y) auto

lemma c_int_nonneg: "k < 2 ^ 31 \<Longrightarrow> 0 \<le> c_int k"
  by (simp add: c_int_small)

text \<open>One receive and one send on matching scripts.\<close>

lemma recv_match:
  assumes "list_all2 rx_match xs ys" "n < 2 ^ 31"
  obtains r b e1 xs' e2 ys' where "recv_retry n xs e = (r, b, e1, xs')" "recvfrom_win n ys e' = (r, b, e2, ys')"
    "list_all2 rx_match xs' ys'" "verdict sk_recv_fatal r e1 = verdict sk_recv_fatal_win r e2"
proof (cases xs)
  case Nil
  then show thesis using assms
    by (intro that [of "-1" "[]" EAGAIN "[]" WSAEWOULDBLOCK "[]"])
      (simp_all add: recv_retry.simps recvfrom_win_def verdict_def sk_recv_fatal_def sk_recv_fatal_win_def EAGAIN_def EINTR_def)
next
  case (Cons x xs1)
  then obtain y ys1 where ys: "ys = y # ys1" "rx_match x y" "list_all2 rx_match xs1 ys1"
    using assms(1) by (auto simp: list_all2_Cons1)
  show thesis
  proof (cases x)
    case (Rx_data b bs)
    let ?rest = "\<lambda>s. case drop n (b # bs) of [] \<Rightarrow> s | b' # bs' \<Rightarrow> Rx_data b' bs' # s"
    have "list_all2 rx_match (?rest xs1) (?rest ys1)" using ys(3) by (simp split: list.splits)
    moreover have "0 \<le> c_int (length (take n (b # bs)))" using assms(2) by (intro c_int_nonneg) simp
    moreover have "xs = Rx_data b bs # xs1" "ys = Rx_data b bs # ys1" using Cons ys(1,2) Rx_data by simp_all
    ultimately show thesis
      by (intro that [of "c_int (length (take n (b # bs)))" "take n (b # bs)" e "?rest xs1" e' "?rest ys1"])
        (simp_all add: recv_retry.simps recvfrom_win_def verdict_def)
  next
    case Rx_eof
    then show thesis using Cons ys
      by (intro that [of 0 "[]" e xs e' ys]) (simp_all add: recv_retry.simps recvfrom_win_def verdict_def)
  next
    case (Rx_error a)
    then obtain a' where a: "y = Rx_error a'" "err_match a a'" using ys(2) by (cases y) auto
    then have "a \<noteq> EINTR" by (simp add: err_match_def)
    then show thesis using Cons ys a Rx_error fatal_match [OF a(2)]
      by (intro that [of "-1" "[]" a xs1 a' ys1]) (simp_all add: recv_retry.simps recvfrom_win_def verdict_def)
  qed
qed

lemma send_match:
  assumes "list_all2 tx_match xs ys" "n < 2 ^ 31"
  obtains r e1 xs' e2 ys' where "send_retry n xs e = (r, e1, xs')" "sendto_win n ys e' = (r, e2, ys')"
    "list_all2 tx_match xs' ys'" "verdict sk_send_fatal r e1 = verdict sk_send_fatal_win r e2"
proof (cases xs)
  case Nil
  then show thesis using assms
    by (intro that [of "-1" EAGAIN "[]" WSAEWOULDBLOCK "[]"])
      (simp_all add: send_retry.simps sendto_win_def verdict_def sk_send_fatal_def sk_send_fatal_win_def EAGAIN_def EINTR_def)
next
  case (Cons x xs1)
  then obtain y ys1 where ys: "ys = y # ys1" "tx_match x y" "list_all2 tx_match xs1 ys1"
    using assms(1) by (auto simp: list_all2_Cons1)
  show thesis
  proof (cases x)
    case (Tx_accept k)
    have "0 \<le> c_int (min k n)" using assms(2) by (intro c_int_nonneg) simp
    moreover have "xs = Tx_accept k # xs1" "ys = Tx_accept k # ys1" using Cons ys(1,2) Tx_accept by simp_all
    ultimately show thesis using ys(3)
      by (intro that [of "c_int (min k n)" e xs1 e' ys1]) (simp_all add: send_retry.simps sendto_win_def verdict_def)
  next
    case (Tx_error a)
    then obtain a' where a: "y = Tx_error a'" "err_match a a'" using ys(2) by (cases y) auto
    then have "a \<noteq> EINTR" by (simp add: err_match_def)
    then show thesis using Cons ys a Tx_error fatal_match [OF a(2)]
      by (intro that [of "-1" a xs1 a' ys1]) (simp_all add: send_retry.simps sendto_win_def verdict_def)
  qed
qed



section \<open>Connecting\<close>

text \<open>The lines of \<open>main\<close> that connect, on Windows.\<close>

definition dial_out_win :: "os \<Rightarrow> int \<Rightarrow> int \<Rightarrow> 32 word \<Rightarrow> 16 word \<Rightarrow> sockaddr_in \<Rightarrow> startup \<Rightarrow> outcome \<times> startup" where
  "dial_out_win os e c2p ip port sa s =
     (let sa = sa\<lparr>sin_addr := ip, sin_port := htons port\<rparr>;
          (p2s, s) = sk_create_win os AF_INET SOCK_STREAM 0 s in
      if p2s < 0 then (Exit_with e, s)
      else let (r, s) = sk_unblock_win os p2s s in
      if r < 0 then (Exit_with (e + 1), s)
      else let s = su_print (dial_banner (sa_to_str sa [] 128)) s;
          (r, s) = sk_connect_win os p2s sa sa_size s in
      if r < 0 \<and> sk_conn_fatal_win (su_errno s) then (Exit_with (e + 2), s) else (Connected c2p p2s, s))"

text \<open>
  C29. On Windows the programs cannot connect.  A \<open>connect\<close> on a socket that does not block and
  cannot complete at once is documented to fail with \<open>WSAEWOULDBLOCK\<close>; \<open>sk_conn_fatal\<close> takes that
  for fatal, so \<open>main\<close> exits before the connection is made.  A failing \<open>WSAStartup\<close>, whose
  error codes are positive, is not noticed by the test for a negative result.
\<close>

theorem windows_connect_exits:
  assumes "\<And>log sk sa n. rp_ret (os (log @ [Call (Sys_connect sk sa n)])) = -1 \<and>
      rp_errno (os (log @ [Call (Sys_connect sk sa n)])) = WSAEWOULDBLOCK"
    and "\<And>v. 0 \<le> fst (wsa_startup v)"
  shows "(\<exists>code. fst (dial_out_win os e c2p ip port sa s) = Exit_with code \<and> e \<le> code \<and> code \<le> e + 2) \<and>
    \<not> fst (sk_init_win wsa_startup version) < 0"
proof -
  have "answer os (after os (Sys_connect sk sa n) t) = -1" "su_errno (after os (Sys_connect sk sa n) t) = WSAEWOULDBLOCK" for sk sa n t
    using assms(1) by (simp_all add: answer_def after_def call_ret_def sys_call_def Let_def)
  then have "\<exists>code. fst (dial_out_win os e c2p ip port sa s) = Exit_with code \<and> e \<le> code \<and> code \<le> e + 2"
    by (simp add: dial_out_win_def sk_create_win_def sk_unblock_win_def sk_connect_win_def call_after Let_def
      sk_conn_fatal_win_def WSAEWOULDBLOCK_def WSAEINPROGRESS_def)
  then show ?thesis using assms(2) [of 2] by (simp add: sk_init_win_def)
qed

text \<open>An operating system in which every call but \<open>connect\<close> succeeds.\<close>

definition busy_os :: os where
  "busy_os log =
     \<lparr>rp_ret = (case last log of Call (Sys_connect _ _ _) \<Rightarrow> -1 | _ \<Rightarrow> 0), rp_errno = WSAEWOULDBLOCK, rp_addr = sockaddr_in_init\<rparr>"

theorem windows_connect_exits_witness:
  "\<exists>code. fst (dial_out_win busy_os 5 3 0x0100007F 22 sockaddr_in_init \<lparr>su_log = [], su_errno = 0\<rparr>) = Exit_with code \<and>
    5 \<le> code \<and> code \<le> 7"
  using windows_connect_exits [where os = busy_os and wsa_startup = "\<lambda>v. (10091, 0)" and e = 5 and c2p = 3 and
      ip = "0x0100007F" and port = 22 and sa = sockaddr_in_init and s = "\<lparr>su_log = [], su_errno = 0\<rparr>"]
  by (simp add: busy_os_def)

end
