(* ===== verification/MonitorProps.thy ===== *)
theory MonitorProps
  imports Monitor
begin

unbundle bit_operations_syntax

text \<open>
  The properties of the select() loop and of the map it keeps its sockets in, as theorems about
  the functions of \<open>event_loop_select.c\<close> and \<open>map.c\<close>, with states for their witnesses.
\<close>

section \<open>Lemmas\<close>

lemma new_loop:
  "evl_inv (new_event_loop_select c d g)" "evl_registered (new_event_loop_select c d g) = Map.empty"
  "in_callback (new_event_loop_select c d g) = c" "dead (new_event_loop_select c d g) = d"
  using evl_new_inv [of c d g] evl_rep_registered [OF evl_new_inv, of c d g]
  by (auto simp: evl_inv_def) (simp_all add: new_event_loop_select_def)

text \<open>A loop with the sockets 3 and 5, of which 3 is at the root of the map.\<close>

lemma example_loop:
  "\<exists>e. evl_inv e \<and> evl_registered e = [3 \<mapsto> (SK_EV_readable, 1), 5 \<mapsto> (SK_EV_writable, 2)] \<and>
     \<not> in_callback e \<and> \<not> dead e"
proof -
  let ?e = "new_event_loop_select False False undefined"
  obtain e1 t1 where e1: "evl_rep e1 t1 [3 \<mapsto> (SK_EV_readable, 1)]" "\<not> in_callback e1" "\<not> dead e1"
    using evl_add_law [OF evl_new_inv, of 3 SK_EV_readable 1 False False undefined] new_loop(3,4)
    by (auto simp: FD_SETSIZE_def)
  obtain e2 t2 where "evl_rep e2 t2 [3 \<mapsto> (SK_EV_readable, 1), 5 \<mapsto> (SK_EV_writable, 2)]"
    "\<not> in_callback e2" "\<not> dead e2"
    using evl_add_law [OF e1(1), of 5 SK_EV_writable 2] e1(2,3) by (auto simp: FD_SETSIZE_def)
  then show ?thesis using evl_rep_registered by (auto simp: evl_inv_def)
qed

text \<open>The new item has in \<open>have\<close> what the memory held.\<close>

lemma map_add_Ok:
  assumes rep: "evl_rep e t reg" and new: "reg sk = None"
  obtains head' mem' where
    "map_add_item evl_fuel (evl_sockets e) ((evl_mem e)(heap_next e \<mapsto>
       (heap_garbage e (heap_next e))\<lparr>ssk_sk := sk, ssk_events := m, ssk_cb := c\<rparr>)) (heap_next e) = Ok (None, head', mem')"
proof -
  let ?a = "heap_next e"
  let ?i = "(heap_garbage e ?a)\<lparr>ssk_sk := sk, ssk_events := m, ssk_cb := c\<rparr>"
  let ?mem = "(evl_mem e)(?a \<mapsto> ?i)"
  have fresh: "?a \<notin> set_tree t" by (rule evl_rep_fresh [OF rep])
  have map: "map_rep ssk_sk (evl_sockets e) ?mem t" "comp (evl_sockets e) = select_sk_comp"
    using rep by (simp_all add: evl_rep_def map_rep_outside [OF fresh])
  have item: "?mem ?a = Some ?i" by simp
  have diff: "ssk_sk (the (?mem b)) \<noteq> ssk_sk ?i" if b: "b \<in> set_tree t" for b
  proof -
    obtain s where "evl_mem e b = Some s" "reg (ssk_sk s) = Some (ssk_events s, ssk_cb s)"
      by (rule evl_rep_items [OF rep b])
    then show ?thesis using b fresh new by auto
  qed
  show thesis
    by (rule sel.map_add_law [OF map evl_rep_height(1) [OF rep] item fresh]) (erule diff, rule that)
qed

text \<open>Deleting an item with two children, of which the left one has no right child.\<close>

lemma map_del_two:
  assumes item: "mem item = Some i" "mi_l i = Some l" "mi_r i = Some r"
    and l: "mem l = Some j" "mi_r j = None" "l \<noteq> item"
    and r: "mem r = Some k" "mi_p k = Some item" "r \<noteq> item" "r \<noteq> l"
    and slot: "root head = Some item" "comp head i i = 0"
  shows "\<exists>head' mem'. map_del (Suc n) head mem item = Ok (Some item, head', mem') \<and>
    root head' = Some l \<and> mem' l = Some (j\<lparr>mi_r := Some r, mi_p := Some l\<rparr>) \<and> mem' r = Some k"
  using assms by (simp add: map_del_def map_find_slot_def hoist_child_def Let_def)

text \<open>A socket that has just been added has no children in the map.\<close>

lemma added_del_ok:
  assumes rep: "evl_rep e t reg" and new: "reg sk = None"
    and add: "evl_select_add_socket sk m c e = Ok e'" and rep': "evl_rep e' t' reg'"
  shows "evl_del_ok e' sk"
proof -
  let ?a = "heap_next e"
  let ?i = "(heap_garbage e ?a)\<lparr>ssk_sk := sk, ssk_events := m, ssk_cb := c\<rparr>"
  obtain head' mem' where map: "map_add_item evl_fuel (evl_sockets e) ((evl_mem e)(?a \<mapsto> ?i)) ?a = Ok (None, head', mem')"
    by (rule map_add_Ok [OF rep, where sk = sk and m = m and c = c]) (use new in simp_all)
  have mem: "evl_mem e' = mem'"
    using add map rep by (auto simp: evl_select_add_socket_def alloc_select_sk_def Let_def bind_res_eq_Ok
      evl_rep_def split: if_splits)
  have "\<exists>s. mem' ?a = Some s \<and> ssk_sk s = sk \<and> mi_l s = None"
    using map by (auto simp: map_add_item_def bind_res_eq_Ok split: option.splits)
      (auto simp: store_slot_def load_item_def split: slot.splits option.splits if_splits)
  then obtain s where s: "evl_mem e' ?a = Some s" "ssk_sk s = sk" "mi_l s = None" using mem by blast
  have tree: "?a \<in> set_tree t'" "sorted_wrt (<) (map (\<lambda>a. ssk_sk (the (evl_mem e' a))) (inorder t'))"
    using rep' s(1) by (auto simp: evl_rep_def map_rep_def)
  have "\<forall>sk m c. reg' sk = Some (m, c) \<longleftrightarrow>
      (\<exists>a s. evl_mem e' a = Some s \<and> ssk_sk s = sk \<and> ssk_events s = m \<and> ssk_cb s = c)"
    using rep' by (simp add: evl_rep_def)
  then have "reg' sk = Some (ssk_events s, ssk_cb s)" using s by blast
  then obtain b s' where b: "find_select_sk e' sk = Ok (Some b)" "b \<in> set_tree t'" "evl_mem e' b = Some s'" "ssk_sk s' = sk"
    using evl_rep_find [OF rep', of sk] by auto
  have "b = ?a"
    using sorted_inj [OF tree(2), of b ?a] b s tree(1) by simp
  with b s show ?thesis by (simp add: evl_del_ok_def)
qed

section \<open>Properties\<close>

text \<open>
  C18. \<open>monitor\<close> calls exactly the callbacks that are due.  For callbacks that only change event
  masks: for the registered sockets in the order of their descriptors, each socket that
  \<open>select\<close> found ready for an event of its mask, or in error, is called once, with those events;
  the loop is then ready for the next call.
\<close>

theorem monitor_dispatches:
  assumes "evl_inv (w_evl w)" "\<not> in_callback (w_evl w)" "\<not> dead (w_evl w)"
    and "\<And>c h x w. \<exists>w'. cb c h x w = Ok (f c h x, w') \<and> evl_quiet (w_evl w) (w_evl w')"
  shows "\<exists>r w'. evl_select_monitor cb os ms x w =
      Ok (r, fold (\<lambda>(c, h). f c h) (evl_due (evl_registered (w_evl w)) (os (select_timeout ms))) x, w') \<and>
    (r = 0 \<or> r = -1) \<and> \<not> in_callback (w_evl w') \<and> \<not> dead (w_evl w')"
proof -
  let ?due = "evl_due (evl_registered (w_evl w)) (os (select_timeout ms))"
  let ?J = "\<lambda>evs y (v :: evl_select world). fold (\<lambda>(c, h). f c h) evs y = fold (\<lambda>(c, h). f c h) ?due x"
  have "\<exists>x' w'. cb c h y v = Ok (x', w') \<and> evl_quiet (w_evl v) (w_evl w') \<and> ?J evs x' w'"
    if "?J ((c, h) # evs) y v" for c h evs y v
    using assms(4) [of c h y v] that by auto
  from evl_monitor_run [where J = ?J and w = w and x = x and cb = cb and os = os and ms = ms, OF assms(1-3) _ this]
  show ?thesis by auto
qed

theorem monitor_dispatches_witness:
  "\<exists>w r w'. evl_select_monitor (\<lambda>c h x w. Ok (x @ [(c, h)], w)) (\<lambda>_. Sel_ready {3} {3, 5} {}) 100 [] w =
    Ok (r, [(1, SK_EV_readable), (2, SK_EV_writable)], w')"
proof -
  obtain e where e: "evl_inv e" "evl_registered e = [3 \<mapsto> (SK_EV_readable, 1), 5 \<mapsto> (SK_EV_writable, 2)]"
    "\<not> in_callback e" "\<not> dead e" using example_loop by blast
  let ?w = "\<lparr>w_evl = e, w_sock = undefined, w_errno = 0\<rparr>" and ?cb = "\<lambda>c h x w. Ok (x @ [(c, h)], w)"
  let ?reg = "[3 :: int \<mapsto> (SK_EV_readable, 1 :: nat), 5 \<mapsto> (SK_EV_writable, 2)]"
  have "sorted_list_of_set (dom ?reg) = [3, 5]" by (simp add: insert_commute)
  moreover have "wanting ?reg SK_EV_readable = {3}" "wanting ?reg SK_EV_writable = {5}"
    by (simp_all add: word_flags)
  ultimately have "evl_due ?reg (Sel_ready {3} {3, 5} {}) = [(1, SK_EV_readable), (2, SK_EV_writable)]"
    by (simp add: evl_due_def evl_ready_def evl_have_def Let_def event_defs)
  moreover have "\<exists>r w'. evl_select_monitor ?cb (\<lambda>_. Sel_ready {3} {3, 5} {}) 100 [] ?w =
      Ok (r, fold (\<lambda>(c, h) x. x @ [(c, h)]) (evl_due (evl_registered (w_evl ?w)) (Sel_ready {3} {3, 5} {})) [], w') \<and>
    (r = 0 \<or> r = -1) \<and> \<not> in_callback (w_evl w') \<and> \<not> dead (w_evl w')"
    by (rule monitor_dispatches) (use e in simp_all)
  ultimately show ?thesis using e(2) by (intro exI [of _ ?w]) auto
qed

text \<open>
  C19. Adding a socket.  A valid descriptor that is not registered is registered with its mask and
  callback and nothing else changes.  But the \<open>have\<close> field of the new item keeps what was in the
  memory, which \<open>monitor\<close> takes for pending events when the socket is added by a callback.
\<close>

theorem evl_add_socket_correct:
  assumes "evl_inv e" "evl_sk_valid sk" "evl_registered e sk = None"
  shows "\<exists>e'. evl_select_add_socket sk m c e = Ok e' \<and> evl_inv e' \<and>
    evl_registered e' = (evl_registered e)(sk \<mapsto> (m, c)) \<and> map_touched e' \<and>
    (\<exists>s. evl_mem e' (heap_next e) = Some s \<and> ssk_sk s = sk \<and> ssk_have s = ssk_have (heap_garbage e (heap_next e)))"
proof -
  obtain t reg where rep: "evl_rep e t reg" using assms(1) by (auto simp: evl_inv_def)
  have reg: "evl_registered e = reg" by (rule evl_rep_registered [OF rep])
  obtain e' t' where e': "evl_select_add_socket sk m c e = Ok e'" "evl_rep e' t' (reg(sk \<mapsto> (m, c)))" "map_touched e'"
    using evl_add_law [OF rep, of sk m c] assms(2,3) reg by (auto simp: evl_sk_valid_def)
  let ?a = "heap_next e"
  let ?i = "(heap_garbage e ?a)\<lparr>ssk_sk := sk, ssk_events := m, ssk_cb := c\<rparr>"
  obtain head' mem' where add: "map_add_item evl_fuel (evl_sockets e) ((evl_mem e)(?a \<mapsto> ?i)) ?a = Ok (None, head', mem')"
    by (rule map_add_Ok [OF rep, where sk = sk and m = m and c = c]) (use assms(3) reg in simp_all)
  have "evl_mem e' = mem'"
    using e'(1) add rep by (auto simp: evl_select_add_socket_def alloc_select_sk_def Let_def bind_res_eq_Ok
      evl_rep_def split: if_splits)
  moreover have "\<exists>s. mem' ?a = Some s \<and> ssk_sk s = sk \<and> ssk_have s = ssk_have (heap_garbage e ?a)"
    using add by (auto simp: map_add_item_def bind_res_eq_Ok split: option.splits)
      (auto simp: store_slot_def load_item_def split: slot.splits option.splits if_splits)
  ultimately show ?thesis using e' reg by (auto simp: evl_inv_def evl_rep_registered)
qed

theorem evl_add_socket_correct_witness:
  "\<exists>e'. evl_select_add_socket 7 SK_EV_writable 3 (new_event_loop_select False False undefined) = Ok e' \<and>
    evl_registered e' = [7 \<mapsto> (SK_EV_writable, 3)]"
proof -
  have "evl_sk_valid 7" by (simp add: evl_sk_valid_def FD_SETSIZE_def)
  then show ?thesis
    using evl_add_socket_correct [OF new_loop(1), of 7 False False undefined SK_EV_writable 3] new_loop(2) by auto
qed

text \<open>
  Changing the mask of a registered socket: no assertion fails, the new mask is registered
  with the same callback, and nothing a dispatching \<open>monitor\<close> relies on changes.
\<close>

theorem evl_mod_socket_correct:
  assumes "evl_inv e" "evl_registered e sk = Some (m, c)"
  shows "\<exists>e'. evl_select_mod_socket sk m' e = Ok e' \<and> evl_inv e' \<and>
    evl_registered e' = (evl_registered e)(sk \<mapsto> (m', c)) \<and> evl_quiet e e'"
  using evl.mod_law [OF assms, of m'] mod_socket_quiet by (auto simp: evl_select_api_def)

theorem evl_mod_socket_correct_witness:
  "\<exists>e e'. evl_select_mod_socket 3 SK_EV_writable e = Ok e' \<and>
    evl_registered e' = [3 \<mapsto> (SK_EV_writable, 1), 5 \<mapsto> (SK_EV_writable, 2)]"
proof -
  obtain e where e: "evl_inv e" "evl_registered e = [3 \<mapsto> (SK_EV_readable, 1), 5 \<mapsto> (SK_EV_writable, 2)]"
    using example_loop by blast
  then have "evl_registered e 3 = Some (SK_EV_readable, 1)" by simp
  from evl_mod_socket_correct [OF e(1) this, of SK_EV_writable] e(2) show ?thesis
    by (auto simp: fun_upd_twist)
qed

text \<open>
  C20. Deleting a socket whose item has at most one child in the map: it is no longer registered,
  nothing else changes, and the invariant, \<open>nfds\<close> included, holds again.
\<close>

theorem evl_del_socket_correct:
  assumes "evl_inv e" "evl_registered e sk = Some (m, c)" "evl_del_ok e sk"
  shows "\<exists>e'. evl_select_del_socket sk e = Ok e' \<and> evl_inv e' \<and>
    evl_registered e' = (evl_registered e)(sk := None)"
  using evl.del_law [OF assms] by (simp add: evl_select_api_def)

theorem evl_del_socket_correct_witness:
  "\<exists>e e'. evl_registered e = [7 \<mapsto> (SK_EV_writable, 3)] \<and> evl_select_del_socket 7 e = Ok e' \<and>
    evl_registered e' = Map.empty"
proof -
  let ?e0 = "new_event_loop_select False False undefined"
  obtain e t where e: "evl_select_add_socket 7 SK_EV_writable 3 ?e0 = Ok e" "evl_rep e t [7 \<mapsto> (SK_EV_writable, 3)]"
    using evl_add_law [OF evl_new_inv, of 7 SK_EV_writable 3 False False undefined] by (auto simp: FD_SETSIZE_def)
  have reg: "evl_registered e = [7 \<mapsto> (SK_EV_writable, 3)]" by (rule evl_rep_registered [OF e(2)])
  have inv: "evl_inv e" using e(2) by (auto simp: evl_inv_def)
  have ok: "evl_del_ok e 7" by (rule added_del_ok [OF evl_new_inv _ e(1,2)]) simp
  have "evl_registered e 7 = Some (SK_EV_writable, 3)" using reg by simp
  from evl_del_socket_correct [OF inv this ok] reg show ?thesis by auto
qed

text \<open>
  The loop has no check for the size of an \<open>fd_set\<close>: adding a descriptor outside of it is
  undefined behaviour.
\<close>

theorem evl_add_socket_limit:
  assumes "evl_inv e" "evl_registered e sk = None" "sk < 0 \<or> FD_SETSIZE \<le> sk"
  shows "evl_select_add_socket sk m c e = Stop Undefined_behaviour"
proof -
  obtain t reg where rep: "evl_rep e t reg" using assms(1) by (auto simp: evl_inv_def)
  let ?a = "heap_next e"
  let ?i = "(heap_garbage e ?a)\<lparr>ssk_sk := sk, ssk_events := m, ssk_cb := c\<rparr>"
  obtain head' mem' where map: "map_add_item evl_fuel (evl_sockets e) ((evl_mem e)(?a \<mapsto> ?i)) ?a = Ok (None, head', mem')"
    by (rule map_add_Ok [OF rep, where sk = sk and m = m and c = c])
      (use assms(2) evl_rep_registered [OF rep] in simp_all)
  have "FD_SET sk s = Stop Undefined_behaviour" for s using assms(3) by (auto simp: FD_SET_def)
  moreover have "\<not> heap_full e" using rep by (simp add: evl_rep_def)
  ultimately show ?thesis
    using map by (simp add: evl_select_add_socket_def alloc_select_sk_def Let_def)
qed

theorem evl_add_socket_limit_witness:
  "evl_select_add_socket 1024 SK_EV_writable 3 (new_event_loop_select False False undefined) = Stop Undefined_behaviour"
  by (rule evl_add_socket_limit [OF new_loop(1)]) (simp_all add: new_loop(2) FD_SETSIZE_def)

text \<open>
  C21. Discarding the loop outside of a callback ends, and frees every socket.  (The loop deletes
  the smallest descriptor each time, whose item has no left child.)
\<close>

theorem evl_discard_frees:
  assumes "evl_inv e" "\<not> dead e" "\<not> in_callback e"
  shows "\<exists>e'. evl_select_discard e = Ok e' \<and> evl_mem e' = Map.empty \<and> dead e'"
proof -
  obtain t reg where rep: "evl_rep e t reg" using assms(1) by (auto simp: evl_inv_def)
  have "evl_touch e (e\<lparr>dead := True\<rparr>)"
    using evl_touchI [where mem' = "evl_mem e" and e = e and t = "map_touched e" and c = "in_callback e" and d = True] by simp
  then have "evl_inv (e\<lparr>dead := True\<rparr>)" using evl_touch_rep [OF _ rep] by (auto simp: evl_inv_def)
  then obtain e' where "evl_select_dispose (e\<lparr>dead := True\<rparr>) = Ok e'" "evl_mem e' = Map.empty" "dead e'"
    using evl_dispose_law [of "e\<lparr>dead := True\<rparr>"] evl_dispose_dead [of evl_fuel "e\<lparr>dead := True\<rparr>"]
    by (auto simp: evl_select_dispose_def)
  with assms show ?thesis by (simp add: evl_select_discard_def)
qed

theorem evl_discard_frees_witness:
  "\<exists>e e'. evl_registered e = [3 \<mapsto> (SK_EV_readable, 1), 5 \<mapsto> (SK_EV_writable, 2)] \<and>
    evl_select_discard e = Ok e' \<and> evl_mem e' = Map.empty"
proof -
  obtain e where "evl_inv e" "evl_registered e = [3 \<mapsto> (SK_EV_readable, 1), 5 \<mapsto> (SK_EV_writable, 2)]"
    "\<not> in_callback e" "\<not> dead e" using example_loop by blast
  with evl_discard_frees show ?thesis by blast
qed

text \<open>
  \<open>map_walk\<close> from item to item visits a search tree in the order of the keys: from nothing to
  the first item, from each item to the next, and from the last to nothing.
\<close>

theorem map_walk_in_order:
  assumes "map_rep key head mem t" "height t < n" "inorder t = xs @ ys"
  shows "map_walk n head mem (if xs = [] then None else Some (last xs)) = Ok (if ys = [] then None else Some (hd ys)) \<and>
    sorted_wrt (<) (map (\<lambda>a. key (the (mem a))) (xs @ ys))"
  using map_walk_from [OF assms] assms(1,3) by (simp add: map_rep_def)

theorem map_walk_in_order_witness:
  "map_walk 2 \<lparr>comp = select_sk_comp, root = Some 7\<rparr>
     [7 \<mapsto> \<lparr>mi_l = None, mi_r = None, mi_p = None, ssk_sk = 3, ssk_events = 0, ssk_cb = 0, ssk_have = 0\<rparr>] None = Ok (Some 7)"
  using map_walk_in_order [where key = ssk_sk and t = "Node Leaf 7 Leaf" and n = 2 and xs = "[]" and ys = "[7]"
    and head = "\<lparr>comp = select_sk_comp, root = Some 7\<rparr>"
    and mem = "[7 \<mapsto> \<lparr>mi_l = None, mi_r = None, mi_p = None, ssk_sk = 3, ssk_events = 0, ssk_cb = 0, ssk_have = 0\<rparr>]"]
  by (simp add: map_rep_def)

text \<open>
  C22. \<open>map_del\<close> corrupts the map when the item has two children.  At the root, with a left child
  that has no right child: the left child becomes its own parent, and the right child keeps the
  deleted item as its parent, so that a walk that climbs from there reads freed memory.
\<close>

theorem map_del_two_children:
  assumes item: "mem item = Some i" "mi_l i = Some l" "mi_r i = Some r"
    and l: "mem l = Some j" "mi_r j = None" "l \<noteq> item"
    and r: "mem r = Some k" "mi_p k = Some item" "mi_r k = None" "r \<noteq> item" "r \<noteq> l"
    and slot: "root head = Some item" "comp head i i = 0"
  shows "\<exists>head' mem' j'. map_del (Suc n) head mem item = Ok (Some item, head', mem') \<and>
    mem' l = Some j' \<and> mi_p j' = Some l \<and>
    map_walk (Suc m) head' (mem'(item := None)) (Some r) = Stop Undefined_behaviour"
proof -
  obtain head' mem' where d: "map_del (Suc n) head mem item = Ok (Some item, head', mem')" "root head' = Some l"
    "mem' l = Some (j\<lparr>mi_r := Some r, mi_p := Some l\<rparr>)" "mem' r = Some k"
    using map_del_two [OF item l r(1,2,4,5) slot] by blast
  have "map_walk (Suc m) head' (mem'(item := None)) (Some r) = Stop Undefined_behaviour"
    using d(4) r by (simp add: map_walk_def load_item_def)
  with d show ?thesis by simp
qed

theorem map_del_two_children_witness:
  "\<exists>head' mem'. map_del 1 \<lparr>comp = select_sk_comp, root = Some 0\<rparr>
     [0 \<mapsto> \<lparr>mi_l = Some 1, mi_r = Some 2, mi_p = None, ssk_sk = 5, ssk_events = 0, ssk_cb = 0, ssk_have = 0\<rparr>,
      1 \<mapsto> \<lparr>mi_l = None, mi_r = None, mi_p = Some 0, ssk_sk = 3, ssk_events = 0, ssk_cb = 0, ssk_have = 0\<rparr>,
      2 \<mapsto> \<lparr>mi_l = None, mi_r = None, mi_p = Some 0, ssk_sk = 7, ssk_events = 0, ssk_cb = 0, ssk_have = 0\<rparr>] 0 =
     Ok (Some 0, head', mem') \<and>
     map_walk 1 head' (mem'(0 := None)) (Some 2) = Stop Undefined_behaviour"
proof -
  let ?item = "\<lambda>l r p sk. \<lparr>mi_l = l, mi_r = r, mi_p = p, ssk_sk = sk, ssk_events = 0, ssk_cb = 0, ssk_have = 0\<rparr>"
  let ?head = "\<lparr>comp = select_sk_comp, root = Some 0\<rparr>"
  let ?mem = "[0 \<mapsto> ?item (Some 1) (Some 2) None 5, 1 \<mapsto> ?item None None (Some 0) 3, 2 \<mapsto> ?item None None (Some 0) 7]"
  have "\<exists>head' mem' j'. map_del (Suc 0) ?head ?mem 0 = Ok (Some 0, head', mem') \<and>
    mem' 1 = Some j' \<and> mi_p j' = Some 1 \<and>
    map_walk (Suc 0) head' (mem'(0 := None)) (Some 2) = Stop Undefined_behaviour"
    by (rule map_del_two_children [where i = "?item (Some 1) (Some 2) None 5" and j = "?item None None (Some 0) 3"
        and k = "?item None None (Some 0) 7"]) (simp_all add: select_sk_comp_def)
  then show ?thesis unfolding One_nat_def by blast
qed

end
