(* ===== verification/EvlWin.thy ===== *)
theory EvlWin
  imports MonitorProps
begin

unbundle bit_operations_syntax

text \<open>
  The select() loop on Windows, \<open>evl/src.windows/event_loop_select.c\<close>.  The file has the text of the
  one for Linux, but \<open>fd_set\<close> and \<open>select\<close> are those of \<open>winsock2.h\<close>: a set is an array of at most
  64 sockets with a count, \<open>FD_SET\<close> does nothing when the array is full, the first argument of
  \<open>select\<close> is ignored, and a \<open>select\<close> on nothing fails with \<open>WSAEINVAL\<close>.  Items, map and memory are
  those of the other theories.

  \<open>unix\<close> takes the arrays for sets.  As long as no set has more than 64 sockets the operations, and
  \<open>monitor\<close> with callbacks that agree, do the same on both systems; a socket beyond that is
  registered and never watched.
\<close>

section \<open>The code\<close>

record evl_win =
  win_nfds :: int
  win_r :: "int list"
  win_w :: "int list"
  win_x :: "int list"
  win_sockets :: "select_sk map_head"
  win_touched :: bool
  win_calling :: bool
  win_dead :: bool
  win_mem :: "select_sk map_mem"
  win_next :: nat
  win_garbage :: "nat \<Rightarrow> select_sk"
  win_full :: bool

definition WIN_FD_SETSIZE :: nat where "WIN_FD_SETSIZE = 64"

definition WSAEINVAL :: int where "WSAEINVAL = 10022"

definition FD_SET_win :: "int \<Rightarrow> int list \<Rightarrow> int list" where
  "FD_SET_win sk s = (if sk \<in> set s \<or> WIN_FD_SETSIZE \<le> length s then s else s @ [sk])"

definition FD_CLR_win :: "int \<Rightarrow> int list \<Rightarrow> int list" where
  "FD_CLR_win sk s = remove1 sk s"

definition FD_ISSET_win :: "int \<Rightarrow> int list \<Rightarrow> bool" where
  "FD_ISSET_win sk s \<longleftrightarrow> sk \<in> set s"

definition find_select_sk_win :: "evl_win \<Rightarrow> int \<Rightarrow> nat option res" where
  "find_select_sk_win evl sk =
     (let foo = \<lparr>mi_l = None, mi_r = None, mi_p = None, ssk_sk = sk, ssk_events = 0, ssk_cb = 0,
                 ssk_have = 0\<rparr> in
      map_find evl_fuel (win_sockets evl) (win_mem evl) foo)"

definition alloc_select_sk_win :: "int \<Rightarrow> uint \<Rightarrow> nat \<Rightarrow> evl_win \<Rightarrow> nat option \<times> evl_win" where
  "alloc_select_sk_win sk events cb evl =
     (if win_full evl then (None, evl)
      else let foo = win_next evl in
        (Some foo,
         evl\<lparr>win_next := Suc foo,
             win_mem := (win_mem evl)(foo \<mapsto>
               (win_garbage evl foo)\<lparr>ssk_sk := sk, ssk_events := events, ssk_cb := cb\<rparr>)\<rparr>))"

definition evl_add_socket_win :: "int \<Rightarrow> uint \<Rightarrow> nat \<Rightarrow> evl_win \<Rightarrow> evl_win res" where
  "evl_add_socket_win sk events cb evl =
     (case alloc_select_sk_win sk events cb evl of
        (None, evl) \<Rightarrow> Ok evl
      | (Some ssk, evl) \<Rightarrow>
          bind_res (map_add_item evl_fuel (win_sockets evl) (win_mem evl) ssk) (\<lambda>(mi, head, mem).
          let evl = evl\<lparr>win_sockets := head, win_mem := mem\<rparr> in
          c_assert (mi = None)
            (Ok (evl\<lparr>win_r := (if has events SK_EV_readable then FD_SET_win sk (win_r evl) else win_r evl),
                 win_w := (if has events SK_EV_writable then FD_SET_win sk (win_w evl) else win_w evl),
                 win_x := FD_SET_win sk (win_x evl),
                 win_nfds := (if sk \<ge> win_nfds evl then sk + 1 else win_nfds evl),
                 win_touched := True\<rparr>))))"

definition update_fds_win :: "int \<Rightarrow> bool \<Rightarrow> bool \<Rightarrow> int list \<Rightarrow> int list" where
  "update_fds_win sk want had s =
     (let s = (if want \<and> \<not> had then FD_SET_win sk s else s)
      in if \<not> want \<and> had then FD_CLR_win sk s else s)"

definition evl_mod_socket_win :: "int \<Rightarrow> uint \<Rightarrow> evl_win \<Rightarrow> evl_win res" where
  "evl_mod_socket_win sk events evl =
     bind_res (find_select_sk_win evl sk) (\<lambda>f.
       case f of None \<Rightarrow> Stop Assertion_failed
       | Some a \<Rightarrow>
           bind_res (load_item (win_mem evl) a) (\<lambda>ssk.
             Ok (evl\<lparr>win_r := update_fds_win sk (has events SK_EV_readable) (has (ssk_events ssk) SK_EV_readable) (win_r evl),
                 win_w := update_fds_win sk (has events SK_EV_writable) (has (ssk_events ssk) SK_EV_writable) (win_w evl),
                 win_mem := (win_mem evl)(a \<mapsto> ssk\<lparr>ssk_events := events\<rparr>)\<rparr>)))"

fun max_sk_loop_win :: "nat \<Rightarrow> evl_win \<Rightarrow> int \<Rightarrow> nat option \<Rightarrow> int \<Rightarrow> int res" where
  "max_sk_loop_win 0 evl sk mi max_sk = Stop Out_of_fuel"
| "max_sk_loop_win (Suc n) evl sk mi max_sk =
     bind_res (map_walk evl_fuel (win_sockets evl) (win_mem evl) mi) (\<lambda>mi.
       case mi of None \<Rightarrow> Ok max_sk
       | Some a \<Rightarrow> bind_res (load_item (win_mem evl) a) (\<lambda>foo.
           if ssk_sk foo < max_sk then max_sk_loop_win n evl sk (Some a) max_sk
           else if ssk_sk foo = sk - 1 then Ok (ssk_sk foo)
           else max_sk_loop_win n evl sk (Some a) (ssk_sk foo)))"

definition evl_del_socket_win :: "int \<Rightarrow> evl_win \<Rightarrow> evl_win res" where
  "evl_del_socket_win sk evl =
     bind_res (find_select_sk_win evl sk) (\<lambda>f.
       case f of None \<Rightarrow> Stop Assertion_failed
       | Some a \<Rightarrow>
           bind_res (load_item (win_mem evl) a) (\<lambda>ssk.
           bind_res (map_del evl_fuel (win_sockets evl) (win_mem evl) a) (\<lambda>(_, head, mem).
             let evl = evl\<lparr>win_r := (if has (ssk_events ssk) SK_EV_readable then FD_CLR_win sk (win_r evl) else win_r evl),
                           win_w := (if has (ssk_events ssk) SK_EV_writable then FD_CLR_win sk (win_w evl) else win_w evl),
                           win_x := FD_CLR_win sk (win_x evl), win_sockets := head, win_mem := mem(a := None)\<rparr> in
             bind_res (if win_nfds evl = sk + 1
                       then bind_res (max_sk_loop_win evl_fuel evl sk None (-1)) (\<lambda>m. Ok (m + 1))
                       else Ok (win_nfds evl)) (\<lambda>nfds.
               Ok (evl\<lparr>win_nfds := nfds, win_touched := True\<rparr>)))))"

definition new_event_loop_win :: "bool \<Rightarrow> bool \<Rightarrow> (nat \<Rightarrow> select_sk) \<Rightarrow> evl_win" where
  "new_event_loop_win junk_callback junk_dead garbage =
     \<lparr>win_nfds = 0, win_r = [], win_w = [], win_x = [], win_sockets = map_init select_sk_comp,
      win_touched = False, win_calling = junk_callback, win_dead = junk_dead,
      win_mem = Map.empty, win_next = 0, win_garbage = garbage, win_full = False\<rparr>"

text \<open>
  \<open>select\<close> with what the system finds ready.  It fails when the three sets are empty, which is also
  what the call with three null pointers is; other reasons to fail are replies.
\<close>

definition sys_select_win ::
  "int list \<Rightarrow> int list \<Rightarrow> int list \<Rightarrow> select_reply \<Rightarrow> int \<Rightarrow> int \<times> int list \<times> int list \<times> int list \<times> int" where
  "sys_select_win rs ws xs reply errno =
     (if rs = [] \<and> ws = [] \<and> xs = [] then (-1, rs, ws, xs, WSAEINVAL)
      else case reply of
        Sel_error e \<Rightarrow> (-1, rs, ws, xs, e)
      | Sel_ready R W X \<Rightarrow>
          let pick = (\<lambda>s S. filter (\<lambda>sk. sk \<in> S) s) in
          (int (length (pick rs R) + length (pick ws W) + length (pick xs X)), pick rs R, pick ws W, pick xs X, errno))"

fun evl_mark_win ::
  "nat \<Rightarrow> int list \<Rightarrow> int list \<Rightarrow> int list \<Rightarrow> evl_win \<Rightarrow> nat option \<Rightarrow> int \<Rightarrow> (int \<times> evl_win) res" where
  "evl_mark_win 0 rs ws xs evl mi active = Stop Out_of_fuel"
| "evl_mark_win (Suc n) rs ws xs evl mi active =
     bind_res (map_walk evl_fuel (win_sockets evl) (win_mem evl) mi) (\<lambda>mi.
       case mi of None \<Rightarrow> Ok (active, evl)
       | Some a \<Rightarrow>
           bind_res (load_item (win_mem evl) a) (\<lambda>ssk.
             let have = evl_have (FD_ISSET_win (ssk_sk ssk) rs) (FD_ISSET_win (ssk_sk ssk) ws) (FD_ISSET_win (ssk_sk ssk) xs) in
             evl_mark_win n rs ws xs (evl\<lparr>win_mem := (win_mem evl)(a \<mapsto> ssk\<lparr>ssk_have := have\<rparr>)\<rparr>) (Some a)
               (if have \<noteq> 0 then active + 1 else active)))"

fun evl_dispose_loop_win :: "nat \<Rightarrow> evl_win \<Rightarrow> evl_win res" where
  "evl_dispose_loop_win 0 evl = Stop Out_of_fuel"
| "evl_dispose_loop_win (Suc n) evl =
     bind_res (map_walk evl_fuel (win_sockets evl) (win_mem evl) None) (\<lambda>mi.
       case mi of None \<Rightarrow> Ok evl
       | Some a \<Rightarrow>
           bind_res (map_del evl_fuel (win_sockets evl) (win_mem evl) a) (\<lambda>(_, head, mem).
             evl_dispose_loop_win n (evl\<lparr>win_sockets := head, win_mem := mem(a := None)\<rparr>)))"

definition evl_dispose_win :: "evl_win \<Rightarrow> evl_win res" where
  "evl_dispose_win evl = evl_dispose_loop_win evl_fuel evl"

definition evl_discard_win :: "evl_win \<Rightarrow> evl_win res" where
  "evl_discard_win evl =
     c_assert (\<not> win_dead evl)
       (let evl = evl\<lparr>win_dead := True\<rparr> in
        if win_calling evl then Ok evl else evl_dispose_win evl)"

type_synonym 'x evl_cb_win = "nat \<Rightarrow> uint \<Rightarrow> 'x \<Rightarrow> evl_win world \<Rightarrow> ('x \<times> evl_win world) res"

abbreviation map_win :: "(evl_win \<Rightarrow> evl_win) \<Rightarrow> evl_win world \<Rightarrow> evl_win world" where
  "map_win f w \<equiv> w\<lparr>w_evl := f (w_evl w)\<rparr>"

fun evl_dispatch_win ::
  "nat \<Rightarrow> 'x evl_cb_win \<Rightarrow> int \<Rightarrow> nat option \<Rightarrow> 'x \<Rightarrow> evl_win world \<Rightarrow> (int \<times> 'x \<times> evl_win world) res" where
  "evl_dispatch_win 0 cb active mi x w = Stop Out_of_fuel"
| "evl_dispatch_win (Suc n) cb active mi x w =
     bind_res (map_walk evl_fuel (win_sockets (w_evl w)) (win_mem (w_evl w)) mi) (\<lambda>mi.
       case mi of None \<Rightarrow> Ok (0, x, w)
       | Some a \<Rightarrow>
           bind_res (load_item (win_mem (w_evl w)) a) (\<lambda>ssk.
             let have = ssk_have ssk in
             if have = 0 then evl_dispatch_win n cb active (Some a) x w
             else
               bind_res (cb (ssk_cb ssk) have x
                   (map_win (\<lambda>e. e\<lparr>win_mem := (win_mem e)(a \<mapsto> ssk\<lparr>ssk_have := 0\<rparr>), win_calling := True\<rparr>) w))
                 (\<lambda>(x, w).
                   let w = map_win (\<lambda>e. e\<lparr>win_calling := False\<rparr>) w in
                   if win_dead (w_evl w) then
                     bind_res (evl_dispose_win (w_evl w)) (\<lambda>e. Ok (-1, x, w\<lparr>w_evl := e\<rparr>))
                   else if active - 1 = 0 then Ok (0, x, w)
                   else if win_touched (w_evl w) then
                     evl_dispatch_win n cb (active - 1) None x (map_win (\<lambda>e. e\<lparr>win_touched := False\<rparr>) w)
                   else evl_dispatch_win n cb (active - 1) (Some a) x w)))"

definition evl_monitor_win ::
  "'x evl_cb_win \<Rightarrow> (nat \<times> nat \<Rightarrow> select_reply) \<Rightarrow> nat \<Rightarrow> 'x \<Rightarrow> evl_win world \<Rightarrow> (int \<times> 'x \<times> evl_win world) res" where
  "evl_monitor_win cb os timeout_ms x w =
     (let evl = w_evl w in
      c_assert (\<not> win_calling evl)
        (if win_calling evl then Ok (-1, x, w)
         else
           let reply = os (select_timeout timeout_ms);
               (r, rs, ws, xs, errno) =
                 (if win_nfds evl = 0 then sys_select_win [] [] [] reply (w_errno w)
                  else sys_select_win (win_r evl) (win_w evl) (win_x evl) reply (w_errno w));
               w = w\<lparr>w_errno := errno\<rparr>
           in if r < 0 then Ok (-1, x, w)
              else if r = 0 then Ok (0, x, w)
              else
                bind_res (evl_mark_win evl_fuel rs ws xs evl None 0) (\<lambda>(active, evl).
                  c_assert (active \<noteq> 0)
                    (evl_dispatch_win (evl_fuel * evl_fuel) cb active None x
                      (w\<lparr>w_evl := evl\<lparr>win_touched := False\<rparr>\<rparr>)))))"

section \<open>The loop of Linux as a specification\<close>

definition unix :: "evl_win \<Rightarrow> evl_select" where
  "unix e =
     \<lparr>evl_nfds = win_nfds e, fds_r = set (win_r e), fds_w = set (win_w e), fds_x = set (win_x e),
      evl_sockets = win_sockets e, map_touched = win_touched e, in_callback = win_calling e, dead = win_dead e,
      evl_mem = win_mem e, heap_next = win_next e, heap_garbage = win_garbage e, heap_full = win_full e\<rparr>"

definition unix_world :: "evl_win world \<Rightarrow> evl_select world" where
  "unix_world w = \<lparr>w_evl = unix (w_evl w), w_sock = w_sock w, w_errno = w_errno w\<rparr>"

definition win_ok :: "evl_win \<Rightarrow> bool" where
  "win_ok e \<longleftrightarrow> distinct (win_r e) \<and> distinct (win_w e) \<and> distinct (win_x e)"

text \<open>No set of the loop is larger than an array.\<close>

definition small :: "evl_select \<Rightarrow> bool" where
  "small e \<longleftrightarrow> card (fds_r e) \<le> WIN_FD_SETSIZE \<and> card (fds_w e) \<le> WIN_FD_SETSIZE \<and> card (fds_x e) \<le> WIN_FD_SETSIZE"

datatype evl_op = Op_add int uint nat | Op_mod int uint | Op_del int

fun op_linux :: "evl_op \<Rightarrow> evl_select \<Rightarrow> evl_select res" where
  "op_linux (Op_add sk m c) e = evl_select_add_socket sk m c e"
| "op_linux (Op_mod sk m) e = evl_select_mod_socket sk m e"
| "op_linux (Op_del sk) e = evl_select_del_socket sk e"

fun op_win :: "evl_op \<Rightarrow> evl_win \<Rightarrow> evl_win res" where
  "op_win (Op_add sk m c) e = evl_add_socket_win sk m c e"
| "op_win (Op_mod sk m) e = evl_mod_socket_win sk m e"
| "op_win (Op_del sk) e = evl_del_socket_win sk e"

fun run_ops :: "('o \<Rightarrow> 'e \<Rightarrow> 'e res) \<Rightarrow> 'o list \<Rightarrow> 'e \<Rightarrow> 'e res" where
  "run_ops f [] e = Ok e"
| "run_ops f (a # as) e = bind_res (f a e) (run_ops f as)"

text \<open>A run on Linux that does not stop and in which the sets stay small.\<close>

fun small_run :: "evl_op list \<Rightarrow> evl_select \<Rightarrow> bool" where
  "small_run [] e \<longleftrightarrow> small e"
| "small_run (a # as) e \<longleftrightarrow> (case op_linux a e of Inl _ \<Rightarrow> False | Inr e' \<Rightarrow> small e' \<and> small_run as e')"

section \<open>Lemmas\<close>

lemma unix_sel [simp]:
  "evl_nfds (unix e) = win_nfds e" "fds_r (unix e) = set (win_r e)" "fds_w (unix e) = set (win_w e)"
  "fds_x (unix e) = set (win_x e)" "evl_sockets (unix e) = win_sockets e" "map_touched (unix e) = win_touched e"
  "in_callback (unix e) = win_calling e" "dead (unix e) = win_dead e" "evl_mem (unix e) = win_mem e"
  "heap_next (unix e) = win_next e" "heap_garbage (unix e) = win_garbage e" "heap_full (unix e) = win_full e"
  by (simp_all add: unix_def)

lemma unix_world_sel [simp]:
  "w_evl (unix_world w) = unix (w_evl w)" "w_sock (unix_world w) = w_sock w" "w_errno (unix_world w) = w_errno w"
  by (simp_all add: unix_world_def)

lemma wanting_subset: "wanting reg f \<subseteq> dom reg"
  by (auto simp: wanting_def split: option.splits)

lemma FD_CLR_win_law: "distinct s \<Longrightarrow> set (FD_CLR_win sk s) = set s - {sk} \<and> distinct (FD_CLR_win sk s)"
  by (simp add: FD_CLR_win_def)

lemma FD_SET_win_law:
  assumes "distinct s" "card (insert sk (set s)) \<le> WIN_FD_SETSIZE"
  shows "set (FD_SET_win sk s) = insert sk (set s) \<and> distinct (FD_SET_win sk s)"
proof (cases "sk \<in> set s")
  case False
  then have "length s < WIN_FD_SETSIZE" using assms distinct_card [of s] by simp
  with False assms(1) show ?thesis by (auto simp: FD_SET_win_def)
qed (use assms(1) in \<open>auto simp: FD_SET_win_def\<close>)

lemma FD_Ok: "FD_SET sk s = Ok s' \<Longrightarrow> s' = insert sk s" "FD_CLR sk s = Ok s' \<Longrightarrow> s' = s - {sk}"
  by (simp_all add: FD_SET_def FD_CLR_def split: if_splits)

text \<open>A conditional \<open>FD_SET\<close> or \<open>FD_CLR\<close> that returns on Linux.\<close>

lemma FD_SET_win_if:
  assumes "(if b then FD_SET sk (set s) else Ok (set s)) = Ok s'" "distinct s" "card s' \<le> WIN_FD_SETSIZE"
  shows "set (if b then FD_SET_win sk s else s) = s' \<and> distinct (if b then FD_SET_win sk s else s)"
  using assms FD_SET_win_law [of s sk] by (auto dest!: FD_Ok split: if_splits)

lemma FD_CLR_win_if:
  assumes "(if b then FD_CLR sk (set s) else Ok (set s)) = Ok s'" "distinct s"
  shows "set (if b then FD_CLR_win sk s else s) = s' \<and> distinct (if b then FD_CLR_win sk s else s)"
  using assms FD_CLR_win_law [of s sk] by (auto dest!: FD_Ok split: if_splits)

lemma bind_res_return [simp]: "bind_res m Ok = m"
  by (cases m) simp_all

lemma update_fds_win_law:
  assumes "update_fds sk want had (set s) = Ok s'" "distinct s" "card s' \<le> WIN_FD_SETSIZE"
  shows "set (update_fds_win sk want had s) = s' \<and> distinct (update_fds_win sk want had s)"
  using assms FD_SET_win_if [of True sk s s'] FD_CLR_win_if [of True sk s s']
  by (cases want; cases had) (simp_all add: update_fds_def update_fds_win_def)

lemma find_win: "find_select_sk_win e sk = find_select_sk (unix e) sk"
  by (simp add: find_select_sk_win_def find_select_sk_def)

lemma max_sk_win: "max_sk_loop_win n e sk mi k = max_sk_loop n (unix e) sk mi k"
  by (induction n arbitrary: mi k) (simp_all cong: option.case_cong if_cong)

lemma add_win_sim:
  assumes run: "evl_select_add_socket sk m c (unix e) = Ok e'" and ok: "win_ok e" and small: "small e'"
  shows "\<exists>f. evl_add_socket_win sk m c e = Ok f \<and> unix f = e' \<and> win_ok f"
proof (cases "win_full e")
  case True
  with run ok show ?thesis
    by (simp add: evl_select_add_socket_def alloc_select_sk_def evl_add_socket_win_def alloc_select_sk_win_def)
next
  case False
  let ?mem = "(win_mem e)(win_next e \<mapsto> (win_garbage e (win_next e))\<lparr>ssk_sk := sk, ssk_events := m, ssk_cb := c\<rparr>)"
  from run False obtain head mem rs ws xs where
    add: "map_add_item evl_fuel (win_sockets e) ?mem (win_next e) = Ok (None, head, mem)"
    and sets: "(if has m SK_EV_readable then FD_SET sk (set (win_r e)) else Ok (set (win_r e))) = Ok rs"
      "(if has m SK_EV_writable then FD_SET sk (set (win_w e)) else Ok (set (win_w e))) = Ok ws"
      "(if True then FD_SET sk (set (win_x e)) else Ok (set (win_x e))) = Ok xs"
    and e': "e' = (unix e)\<lparr>heap_next := Suc (win_next e), evl_mem := mem, evl_sockets := head, fds_r := rs, fds_w := ws,
      fds_x := xs, evl_nfds := (if sk \<ge> win_nfds e then sk + 1 else win_nfds e), map_touched := True\<rparr>"
    by (auto simp: evl_select_add_socket_def alloc_select_sk_def Let_def bind_res_eq_Ok c_assert_eq_Ok
      cong: if_cong simp del: split_paired_Ex)
  have "card rs \<le> WIN_FD_SETSIZE" "card ws \<le> WIN_FD_SETSIZE" "card xs \<le> WIN_FD_SETSIZE"
    using small e' by (simp_all add: small_def)
  moreover define rl wl where "rl = (if has m SK_EV_readable then FD_SET_win sk (win_r e) else win_r e)"
    and "wl = (if has m SK_EV_writable then FD_SET_win sk (win_w e) else win_w e)"
  ultimately have "set rl = rs \<and> distinct rl" "set wl = ws \<and> distinct wl"
    "set (FD_SET_win sk (win_x e)) = xs \<and> distinct (FD_SET_win sk (win_x e))"
    using FD_SET_win_if [OF sets(1)] FD_SET_win_if [OF sets(2)] FD_SET_win_if [OF sets(3)] ok
    by (simp_all add: win_ok_def)
  moreover have "evl_add_socket_win sk m c e = Ok (e\<lparr>win_next := Suc (win_next e), win_mem := mem, win_sockets := head,
      win_r := rl, win_w := wl, win_x := FD_SET_win sk (win_x e),
      win_nfds := (if sk \<ge> win_nfds e then sk + 1 else win_nfds e), win_touched := True\<rparr>)"
    using add False unfolding rl_def wl_def
    by (simp add: evl_add_socket_win_def alloc_select_sk_win_def Let_def cong: if_cong split del: if_split)
  ultimately show ?thesis using e' by (simp add: win_ok_def unix_def)
qed

lemma mod_win_sim:
  assumes run: "evl_select_mod_socket sk m (unix e) = Ok e'" and ok: "win_ok e" and small: "small e'"
  shows "\<exists>f. evl_mod_socket_win sk m e = Ok f \<and> unix f = e' \<and> win_ok f"
proof -
  from run obtain a where find: "find_select_sk (unix e) sk = Ok (Some a)"
    by (auto simp: evl_select_mod_socket_def bind_res_eq_Ok split: option.splits)
  with run obtain s rs ws where item: "load_item (win_mem e) a = Ok s"
    and sets: "update_fds sk (has m SK_EV_readable) (has (ssk_events s) SK_EV_readable) (set (win_r e)) = Ok rs"
      "update_fds sk (has m SK_EV_writable) (has (ssk_events s) SK_EV_writable) (set (win_w e)) = Ok ws"
    and e': "e' = (unix e)\<lparr>fds_r := rs, fds_w := ws, evl_mem := (win_mem e)(a \<mapsto> s\<lparr>ssk_events := m\<rparr>)\<rparr>"
    by (auto simp: evl_select_mod_socket_def bind_res_eq_Ok)
  have "card rs \<le> WIN_FD_SETSIZE" "card ws \<le> WIN_FD_SETSIZE" using small e' by (simp_all add: small_def)
  then show ?thesis
    using update_fds_win_law [OF sets(1)] update_fds_win_law [OF sets(2)] ok find item e'
    by (simp add: evl_mod_socket_win_def find_win win_ok_def unix_def)
qed

lemma del_win_sim:
  assumes run: "evl_select_del_socket sk (unix e) = Ok e'" and ok: "win_ok e"
  shows "\<exists>f. evl_del_socket_win sk e = Ok f \<and> unix f = e' \<and> win_ok f"
proof -
  from run obtain a where find: "find_select_sk (unix e) sk = Ok (Some a)"
    by (auto simp: evl_select_del_socket_def bind_res_eq_Ok split: option.splits)
  with run obtain s rs ws xs d head mem n where item: "load_item (win_mem e) a = Ok s"
    and sets: "(if has (ssk_events s) SK_EV_readable then FD_CLR sk (set (win_r e)) else Ok (set (win_r e))) = Ok rs"
      "(if has (ssk_events s) SK_EV_writable then FD_CLR sk (set (win_w e)) else Ok (set (win_w e))) = Ok ws"
      "(if True then FD_CLR sk (set (win_x e)) else Ok (set (win_x e))) = Ok xs"
    and del: "map_del evl_fuel (win_sockets e) (win_mem e) a = Ok (d, head, mem)"
    and n: "(if win_nfds e = sk + 1 then bind_res (max_sk_loop evl_fuel ((unix e)\<lparr>fds_r := rs, fds_w := ws, fds_x := xs,
        evl_sockets := head, evl_mem := mem(a := None)\<rparr>) sk None (-1)) (\<lambda>m. Ok (m + 1)) else Ok (win_nfds e)) = Ok n"
    and e': "e' = (unix e)\<lparr>fds_r := rs, fds_w := ws, fds_x := xs, evl_sockets := head, evl_mem := mem(a := None),
        evl_nfds := n, map_touched := True\<rparr>"
    by (auto simp: evl_select_del_socket_def bind_res_eq_Ok Let_def cong: if_cong simp del: max_sk_loop.simps)
  define rl wl where "rl = (if has (ssk_events s) SK_EV_readable then FD_CLR_win sk (win_r e) else win_r e)"
    and "wl = (if has (ssk_events s) SK_EV_writable then FD_CLR_win sk (win_w e) else win_w e)"
  define e1 where "e1 = e\<lparr>win_r := rl, win_w := wl, win_x := FD_CLR_win sk (win_x e), win_sockets := head, win_mem := mem(a := None)\<rparr>"
  have fds: "unix e1 = (unix e)\<lparr>fds_r := rs, fds_w := ws, fds_x := xs, evl_sockets := head, evl_mem := mem(a := None)\<rparr>"
    "win_ok e1" "win_nfds e1 = win_nfds e"
    using FD_CLR_win_if [OF sets(1)] FD_CLR_win_if [OF sets(2)] FD_CLR_win_if [OF sets(3)] ok
    by (simp_all add: win_ok_def unix_def rl_def wl_def e1_def)
  have run_win: "evl_del_socket_win sk e =
    bind_res (if win_nfds e1 = sk + 1 then bind_res (max_sk_loop_win evl_fuel e1 sk None (-1)) (\<lambda>m. Ok (m + 1))
      else Ok (win_nfds e1)) (\<lambda>n. Ok (e1\<lparr>win_nfds := n, win_touched := True\<rparr>))"
    unfolding evl_del_socket_win_def find_win find item del bind_res_Ok option.case prod.case
      rl_def [symmetric] wl_def [symmetric] e1_def [symmetric] Let_def ..
  have "evl_del_socket_win sk e = Ok (e1\<lparr>win_nfds := n, win_touched := True\<rparr>)"
    using n unfolding run_win max_sk_win fds(1,3) by simp
  moreover have "unix (e1\<lparr>win_nfds := n, win_touched := True\<rparr>) = e'"
    using fds(1) unfolding e' by (simp add: unix_def)
  moreover have "win_ok (e1\<lparr>win_nfds := n, win_touched := True\<rparr>)" using fds(2) by (simp add: win_ok_def)
  ultimately show ?thesis by blast
qed

lemma op_win_sim:
  assumes "op_linux a (unix e) = Ok e'" "win_ok e" "small e'"
  shows "\<exists>f. op_win a e = Ok f \<and> unix f = e' \<and> win_ok f"
  using assms add_win_sim mod_win_sim del_win_sim by (cases a) simp_all

lemma run_win_sim:
  "small_run as (unix e) \<Longrightarrow> win_ok e \<Longrightarrow>
   \<exists>f. run_ops op_win as e = Ok f \<and> run_ops op_linux as (unix e) = Ok (unix f) \<and> win_ok f"
proof (induction as arbitrary: e)
  case (Cons a as)
  then obtain e' where e': "op_linux a (unix e) = Ok e'" "small e'" "small_run as e'"
    by (auto split: sum.splits)
  then obtain f where "op_win a e = Ok f" "unix f = e'" "win_ok f" using op_win_sim [OF e'(1) Cons.prems(2)] by blast
  with Cons.IH [of f] e' show ?case by auto
qed simp

text \<open>Waiting: on sets that are not all empty \<open>select\<close> finds the same on both systems.\<close>

lemma sys_select_win_sim:
  assumes "distinct rs" "distinct ws" "distinct xs" "xs \<noteq> []"
    and below: "\<And>sk. sk \<in> set rs \<union> set ws \<union> set xs \<Longrightarrow> sk < n"
    and run: "sys_select_win rs ws xs reply errno = (r, rs', ws', xs', e)"
  shows "sys_select n (set rs) (set ws) (set xs) reply errno = (r, set rs', set ws', set xs', e)"
proof -
  have pick: "{sk \<in> set s. sk < n \<and> sk \<in> S} = {sk \<in> set s. sk \<in> S}" if "set s \<subseteq> set rs \<union> set ws \<union> set xs" for s S
    using that below by auto
  have card: "card {sk \<in> set s. sk \<in> S} = length (filter (\<lambda>sk. sk \<in> S) s)" if "distinct s" for s S
    using distinct_card [of "filter (\<lambda>sk. sk \<in> S) s"] that by simp
  have picks: "{sk \<in> set rs. sk < n \<and> sk \<in> S} = {sk \<in> set rs. sk \<in> S}" "{sk \<in> set ws. sk < n \<and> sk \<in> S} = {sk \<in> set ws. sk \<in> S}"
    "{sk \<in> set xs. sk < n \<and> sk \<in> S} = {sk \<in> set xs. sk \<in> S}" for S
    by (rule pick; blast)+
  show ?thesis
    using assms(4) run
    by (cases reply) (clarsimp simp: sys_select_def sys_select_win_def Let_def picks card [OF assms(1)] card [OF assms(2)] card [OF assms(3)])+
qed

lemma mark_win_sim:
  "evl_mark n (set rs) (set ws) (set xs) (unix e) mi active = Ok (k, e') \<Longrightarrow> win_ok e \<Longrightarrow>
   \<exists>f. evl_mark_win n rs ws xs e mi active = Ok (k, f) \<and> unix f = e' \<and> win_ok f"
proof (induction n arbitrary: e mi active)
  case (Suc n)
  from Suc.prems(1) obtain m where walk: "map_walk evl_fuel (win_sockets e) (win_mem e) mi = Ok m"
    by (auto simp: bind_res_eq_Ok)
  show ?case
  proof (cases m)
    case None
    with Suc.prems walk show ?thesis by simp
  next
    case (Some a)
    with Suc.prems(1) walk obtain s where s: "load_item (win_mem e) a = Ok s"
      by (auto simp: bind_res_eq_Ok)
    let ?have = "evl_have (ssk_sk s \<in> set rs) (ssk_sk s \<in> set ws) (ssk_sk s \<in> set xs)"
    let ?e = "e\<lparr>win_mem := (win_mem e)(a \<mapsto> s\<lparr>ssk_have := ?have\<rparr>)\<rparr>"
    have e: "(unix e)\<lparr>evl_mem := (win_mem e)(a \<mapsto> s\<lparr>ssk_have := ?have\<rparr>)\<rparr> = unix ?e" by (simp add: unix_def)
    have "evl_mark n (set rs) (set ws) (set xs) (unix ?e) (Some a) (if ?have \<noteq> 0 then active + 1 else active) = Ok (k, e')"
      using Suc.prems(1) walk Some s
      by (auto simp: FD_ISSET_def Let_def e [symmetric] bind_res_eq_Ok split: if_splits)
    moreover have "win_ok ?e" using Suc.prems(2) by (simp add: win_ok_def)
    ultimately show ?thesis using Suc.IH [of ?e] walk Some s by (simp add: FD_ISSET_win_def Let_def)
  qed
qed simp

lemma dispose_win_sim:
  "evl_dispose_loop n (unix e) = Ok e' \<Longrightarrow> win_ok e \<Longrightarrow>
   \<exists>f. evl_dispose_loop_win n e = Ok f \<and> unix f = e' \<and> win_ok f"
proof (induction n arbitrary: e)
  case (Suc n)
  from Suc.prems(1) obtain m where walk: "map_walk evl_fuel (win_sockets e) (win_mem e) None = Ok m"
    by (auto simp: bind_res_eq_Ok)
  show ?case
  proof (cases m)
    case None
    with Suc.prems walk show ?thesis by simp
  next
    case (Some a)
    with Suc.prems(1) walk obtain d head mem where del: "map_del evl_fuel (win_sockets e) (win_mem e) a = Ok (d, head, mem)"
      by (auto simp: bind_res_eq_Ok)
    let ?e = "e\<lparr>win_sockets := head, win_mem := mem(a := None)\<rparr>"
    have e: "(unix e)\<lparr>evl_sockets := head, evl_mem := mem(a := None)\<rparr> = unix ?e" by (simp add: unix_def)
    have "win_ok ?e" using Suc.prems(2) by (simp add: win_ok_def)
    with Suc.IH [of ?e] Suc.prems(1) walk Some del show ?thesis by (simp add: e)
  qed
qed simp

text \<open>Callbacks of the two systems that do the same.\<close>

definition cb_sim :: "'x evl_cb \<Rightarrow> 'x evl_cb_win \<Rightarrow> bool" where
  "cb_sim cb cbw \<longleftrightarrow> (\<forall>c h x v x' w'. win_ok (w_evl v) \<and> cb c h x (unix_world v) = Ok (x', w') \<longrightarrow>
     (\<exists>v'. cbw c h x v = Ok (x', v') \<and> unix_world v' = w' \<and> win_ok (w_evl v')))"

text \<open>The states after a callback: \<open>v2\<close>, and \<open>v3\<close> when the walk starts over.\<close>

lemma after_callback:
  assumes "win_ok (w_evl v1)"
  obtains v2 v3 where "\<And>e. v1\<lparr>w_evl := e\<rparr> = v2\<lparr>w_evl := e\<rparr>" "(w_evl v1)\<lparr>win_calling := False\<rparr> = w_evl v2"
    "v2\<lparr>w_evl := w_evl v2\<rparr> = v2" "v2\<lparr>w_evl := (w_evl v2)\<lparr>win_touched := False\<rparr>\<rparr> = v3"
    "\<And>e. (unix_world v1)\<lparr>w_evl := e\<rparr> = (unix_world v2)\<lparr>w_evl := e\<rparr>"
    "(unix (w_evl v1))\<lparr>in_callback := False\<rparr> = unix (w_evl v2)" "(unix_world v2)\<lparr>w_evl := unix (w_evl v2)\<rparr> = unix_world v2"
    "(unix_world v2)\<lparr>w_evl := (unix (w_evl v2))\<lparr>map_touched := False\<rparr>\<rparr> = unix_world v3"
    "win_dead (w_evl v2) = win_dead (w_evl v1)" "win_touched (w_evl v2) = win_touched (w_evl v1)"
    "win_ok (w_evl v2)" "win_ok (w_evl v3)"
  by (rule that [of "map_win (\<lambda>e. e\<lparr>win_calling := False\<rparr>) v1"
        "map_win (\<lambda>e. e\<lparr>win_calling := False, win_touched := False\<rparr>) v1"])
    (use assms in \<open>simp_all add: unix_world_def unix_def win_ok_def\<close>)

lemma dispatch_win_sim:
  assumes "cb_sim cb cbw"
  shows "evl_dispatch n cb active mi x (unix_world v) = Ok (r, x', w') \<Longrightarrow> win_ok (w_evl v) \<Longrightarrow>
    \<exists>v'. evl_dispatch_win n cbw active mi x v = Ok (r, x', v') \<and> unix_world v' = w' \<and> win_ok (w_evl v')"
proof (induction n arbitrary: active mi x v)
  case (Suc n)
  let ?e = "w_evl v"
  from Suc.prems(1) obtain m where walk: "map_walk evl_fuel (win_sockets ?e) (win_mem ?e) mi = Ok m"
    by (auto simp: bind_res_eq_Ok)
  show ?case
  proof (cases m)
    case None
    with Suc.prems walk show ?thesis by simp
  next
    case (Some a)
    with Suc.prems(1) walk obtain s where s: "load_item (win_mem ?e) a = Ok s"
      by (auto simp: bind_res_eq_Ok)
    show ?thesis
    proof (cases "ssk_have s = 0")
      case True
      with Suc Some walk s show ?thesis by simp
    next
      case False
      let ?v = "map_win (\<lambda>e. e\<lparr>win_mem := (win_mem e)(a \<mapsto> s\<lparr>ssk_have := 0\<rparr>), win_calling := True\<rparr>) v"
      have v: "(unix_world v)\<lparr>w_evl := (unix ?e)\<lparr>evl_mem := (win_mem ?e)(a \<mapsto> s\<lparr>ssk_have := 0\<rparr>), in_callback := True\<rparr>\<rparr> = unix_world ?v"
        by (simp add: unix_world_def unix_def)
      obtain y w1 where cb: "cb (ssk_cb s) (ssk_have s) x (unix_world ?v) = Ok (y, w1)"
        using Suc.prems(1) walk Some s False by (auto simp: bind_res_eq_Ok Let_def v)
      have "win_ok (w_evl ?v)" using Suc.prems(2) by (simp add: win_ok_def)
      with cb assms obtain v1 where v1: "cbw (ssk_cb s) (ssk_have s) x ?v = Ok (y, v1)" "w1 = unix_world v1" "win_ok (w_evl v1)"
        unfolding cb_sim_def by metis
      obtain v2 v3 where u: "\<And>e. v1\<lparr>w_evl := e\<rparr> = v2\<lparr>w_evl := e\<rparr>" "(w_evl v1)\<lparr>win_calling := False\<rparr> = w_evl v2"
        "v2\<lparr>w_evl := w_evl v2\<rparr> = v2" "v2\<lparr>w_evl := (w_evl v2)\<lparr>win_touched := False\<rparr>\<rparr> = v3"
        and w: "\<And>e. (unix_world v1)\<lparr>w_evl := e\<rparr> = (unix_world v2)\<lparr>w_evl := e\<rparr>"
        "(unix (w_evl v1))\<lparr>in_callback := False\<rparr> = unix (w_evl v2)" "(unix_world v2)\<lparr>w_evl := unix (w_evl v2)\<rparr> = unix_world v2"
        "(unix_world v2)\<lparr>w_evl := (unix (w_evl v2))\<lparr>map_touched := False\<rparr>\<rparr> = unix_world v3"
        and flags: "win_dead (w_evl v2) = win_dead (w_evl v1)" "win_touched (w_evl v2) = win_touched (w_evl v1)"
        and ok: "win_ok (w_evl v2)" "win_ok (w_evl v3)"
        by (rule after_callback [OF v1(3)]) (rule that)
      have linux: "(if win_dead (w_evl v2) then
          bind_res (evl_select_dispose (unix (w_evl v2))) (\<lambda>e. Ok (-1, y, (unix_world v2)\<lparr>w_evl := e\<rparr>))
        else if active - 1 = 0 then Ok (0, y, unix_world v2)
        else if win_touched (w_evl v2) then evl_dispatch n cb (active - 1) None y (unix_world v3)
        else evl_dispatch n cb (active - 1) (Some a) y (unix_world v2)) = Ok (r, x', w')"
        using Suc.prems(1) walk Some s False cb by (simp add: Let_def v v1(2) w flags cong: if_cong split del: if_split)
      have win: "evl_dispatch_win (Suc n) cbw active mi x v = (if win_dead (w_evl v2) then
          bind_res (evl_dispose_win (w_evl v2)) (\<lambda>e. Ok (-1, y, v2\<lparr>w_evl := e\<rparr>))
        else if active - 1 = 0 then Ok (0, y, v2)
        else if win_touched (w_evl v2) then evl_dispatch_win n cbw (active - 1) None y v3
        else evl_dispatch_win n cbw (active - 1) (Some a) y v2)"
        using walk Some s False v1(1) by (simp add: Let_def flags u cong: if_cong split del: if_split)
      show ?thesis
      proof (cases "win_dead (w_evl v2)")
        case True
        with linux obtain e where "evl_select_dispose (unix (w_evl v2)) = Ok e" "r = -1" "x' = y" "w' = (unix_world v2)\<lparr>w_evl := e\<rparr>"
          by (auto simp: bind_res_eq_Ok)
        moreover from this(1) obtain f where "evl_dispose_win (w_evl v2) = Ok f" "unix f = e" "win_ok f"
          using dispose_win_sim [OF _ ok(1)] by (auto simp: evl_select_dispose_def evl_dispose_win_def)
        ultimately show ?thesis
          using True unfolding win by (intro exI [of _ "v2\<lparr>w_evl := f\<rparr>"]) (simp add: unix_world_def)
      next
        case False
        with linux Suc.IH ok show ?thesis unfolding win by (auto split: if_splits)
      qed
    qed
  qed
qed simp

lemma monitor_win_sim:
  assumes sim: "cb_sim cb cbw" and ok: "win_ok (w_evl v)" and inv: "evl_inv (unix (w_evl v))" and some: "win_x (w_evl v) \<noteq> []"
    and run: "evl_select_monitor cb os ms x (unix_world v) = Ok (r, x', w')"
  shows "\<exists>v'. evl_monitor_win cbw os ms x v = Ok (r, x', v') \<and> unix_world v' = w' \<and> win_ok (w_evl v')"
proof -
  let ?e = "w_evl v" and ?reply = "os (select_timeout ms)"
  obtain t reg where rep: "evl_rep (unix ?e) t reg" using inv by (auto simp: evl_inv_def)
  have dom: "set (win_x ?e) = dom reg" "set (win_r ?e) \<subseteq> dom reg" "set (win_w ?e) \<subseteq> dom reg"
    using rep by (simp_all add: evl_rep_def wanting_subset)
  have below: "\<And>sk. sk \<in> dom reg \<Longrightarrow> 0 \<le> sk \<and> sk < win_nfds ?e" using rep by (simp add: evl_rep_def)
  have nfds: "win_nfds ?e \<noteq> 0"
  proof -
    have "hd (win_x ?e) \<in> dom reg" using some dom(1) by (metis hd_in_set)
    from below [OF this] show ?thesis by simp
  qed
  obtain k rs ws xs e where sel: "sys_select_win (win_r ?e) (win_w ?e) (win_x ?e) ?reply (w_errno v) = (k, rs, ws, xs, e)"
    by (metis prod_cases5)
  have "sys_select (win_nfds ?e) (set (win_r ?e)) (set (win_w ?e)) (set (win_x ?e)) ?reply (w_errno v) = (k, set rs, set ws, set xs, e)"
  proof (rule sys_select_win_sim [OF _ _ _ some _ sel])
    show "sk < win_nfds ?e" if "sk \<in> set (win_r ?e) \<union> set (win_w ?e) \<union> set (win_x ?e)" for sk
      using below [of sk] that dom by blast
  qed (use ok in \<open>simp_all add: win_ok_def\<close>)
  note linux_sel = this
  have idle: "\<not> win_calling ?e" using run by (auto simp: evl_select_monitor_def c_assert_def split: if_splits)
  have linux: "(if k < 0 then Ok (-1, x, (unix_world v)\<lparr>w_errno := e\<rparr>)
      else if k = 0 then Ok (0, x, (unix_world v)\<lparr>w_errno := e\<rparr>)
      else bind_res (evl_mark evl_fuel (set rs) (set ws) (set xs) (unix ?e) None 0) (\<lambda>(active, evl).
        c_assert (active \<noteq> 0) (evl_dispatch (evl_fuel * evl_fuel) cb active None x
          ((unix_world v)\<lparr>w_errno := e, w_evl := evl\<lparr>map_touched := False\<rparr>\<rparr>)))) = Ok (r, x', w')"
    using run nfds idle linux_sel by (simp add: evl_select_monitor_def Let_def)
  have win: "evl_monitor_win cbw os ms x v = (if k < 0 then Ok (-1, x, v\<lparr>w_errno := e\<rparr>)
      else if k = 0 then Ok (0, x, v\<lparr>w_errno := e\<rparr>)
      else bind_res (evl_mark_win evl_fuel rs ws xs ?e None 0) (\<lambda>(active, evl).
        c_assert (active \<noteq> 0) (evl_dispatch_win (evl_fuel * evl_fuel) cbw active None x
          (v\<lparr>w_errno := e, w_evl := evl\<lparr>win_touched := False\<rparr>\<rparr>))))"
    using sel nfds idle by (simp add: evl_monitor_win_def Let_def)
  show ?thesis
  proof (cases "k \<le> 0")
    case True
    then show ?thesis using linux ok unfolding win by (auto simp: unix_world_def split: if_splits)
  next
    case False
    with linux obtain active e1 where mark: "evl_mark evl_fuel (set rs) (set ws) (set xs) (unix ?e) None 0 = Ok (active, e1)"
      "active \<noteq> 0" "evl_dispatch (evl_fuel * evl_fuel) cb active None x
        ((unix_world v)\<lparr>w_errno := e, w_evl := e1\<lparr>map_touched := False\<rparr>\<rparr>) = Ok (r, x', w')"
      by (auto simp: bind_res_eq_Ok c_assert_eq_Ok)
    obtain f where f: "evl_mark_win evl_fuel rs ws xs ?e None 0 = Ok (active, f)" "unix f = e1" "win_ok f"
      using mark_win_sim [OF mark(1) ok] by blast
    let ?v = "v\<lparr>w_errno := e, w_evl := f\<lparr>win_touched := False\<rparr>\<rparr>"
    have "(unix_world v)\<lparr>w_errno := e, w_evl := e1\<lparr>map_touched := False\<rparr>\<rparr> = unix_world ?v"
      unfolding f(2) [symmetric] by (simp add: unix_world_def unix_def)
    with mark(3) have "evl_dispatch (evl_fuel * evl_fuel) cb active None x (unix_world ?v) = Ok (r, x', w')" by simp
    moreover have "win_ok (w_evl ?v)" using f(3) by (simp add: win_ok_def)
    ultimately show ?thesis
      using dispatch_win_sim [OF sim] False f(1) mark(2) unfolding win by simp
  qed
qed

text \<open>An event loop with the first descriptors registered, and the arrays of a loop on Linux.\<close>

lemma many_sockets:
  "n \<le> 1024 \<Longrightarrow> \<exists>e. evl_inv e \<and> evl_registered e = (\<lambda>sk. if 0 \<le> sk \<and> sk < int n then Some (m, c) else None) \<and>
    \<not> in_callback e \<and> \<not> dead e"
proof (induction n)
  case 0
  have "evl_rep (new_event_loop_select False False undefined) Leaf Map.empty" by (rule evl_new_inv)
  then show ?case
    using evl_rep_registered by (force simp: evl_inv_def new_event_loop_select_def)
next
  case (Suc n)
  then obtain e where e: "evl_inv e" "evl_registered e = (\<lambda>sk. if 0 \<le> sk \<and> sk < int n then Some (m, c) else None)"
    "\<not> in_callback e" "\<not> dead e" by auto
  then obtain t reg where rep: "evl_rep e t reg" by (auto simp: evl_inv_def)
  with e(2) have reg: "reg = (\<lambda>sk. if 0 \<le> sk \<and> sk < int n then Some (m, c) else None)" using evl_rep_registered by simp
  then obtain e' t' where e': "evl_rep e' t' (reg(int n \<mapsto> (m, c)))" "in_callback e' = in_callback e" "dead e' = dead e"
    using evl_add_law [OF rep, of "int n" m c] Suc.prems by (auto simp: FD_SETSIZE_def)
  moreover have "reg(int n \<mapsto> (m, c)) = (\<lambda>sk. if 0 \<le> sk \<and> sk < int (Suc n) then Some (m, c) else None)"
    by (auto simp: reg fun_eq_iff)
  ultimately show ?case using e(3,4) evl_rep_registered by (fastforce simp: evl_inv_def)
qed

definition win_of :: "evl_select \<Rightarrow> evl_win" where
  "win_of e =
     \<lparr>win_nfds = evl_nfds e, win_r = sorted_list_of_set (fds_r e), win_w = sorted_list_of_set (fds_w e),
      win_x = sorted_list_of_set (fds_x e), win_sockets = evl_sockets e, win_touched = map_touched e,
      win_calling = in_callback e, win_dead = dead e, win_mem = evl_mem e, win_next = heap_next e,
      win_garbage = heap_garbage e, win_full = heap_full e\<rparr>"

lemma win_of_law:
  assumes "evl_inv e"
  shows "unix (win_of e) = e" "win_ok (win_of e)"
proof -
  obtain t reg where rep: "evl_rep e t reg" using assms by (auto simp: evl_inv_def)
  then have "fds_x e = dom reg" "fds_r e \<subseteq> dom reg" "fds_w e \<subseteq> dom reg" "\<forall>sk \<in> dom reg. 0 \<le> sk \<and> sk < FD_SETSIZE"
    by (simp_all add: evl_rep_def wanting_subset)
  moreover from this(4) have "dom reg \<subseteq> {0..<FD_SETSIZE}" by auto
  ultimately have "finite (fds_x e)" "finite (fds_r e)" "finite (fds_w e)" by (metis finite_atLeastLessThan_int finite_subset)+
  then show "unix (win_of e) = e" by (cases e) (simp add: unix_def win_of_def)
  show "win_ok (win_of e)" by (simp add: win_ok_def win_of_def)
qed

lemma monitor_win_nothing:
  "win_nfds (w_evl w) = 0 \<Longrightarrow> \<not> win_calling (w_evl w) \<Longrightarrow>
   evl_monitor_win cb os ms x w = Ok (-1, x, w\<lparr>w_errno := WSAEINVAL\<rparr>)"
  by (simp add: evl_monitor_win_def sys_select_win_def)

lemma add_item_sk:
  assumes "map_add_item n head mem a = Ok (None, head', mem')"
  shows "\<exists>s. mem' a = Some s \<and> ssk_sk s = ssk_sk (the (mem a))"
  using assms by (auto simp: map_add_item_def bind_res_eq_Ok split: option.splits)
    (auto simp: store_slot_def load_item_def split: slot.splits option.splits if_splits)

lemma distinct_list_of_one: "distinct xs \<Longrightarrow> set xs = {x} \<Longrightarrow> xs = [x]"
  by (cases xs; cases "tl xs") auto

lemma sys_select_win_subset:
  "sys_select_win rs ws xs reply errno = (r, rs', ws', xs', e) \<Longrightarrow>
   set rs' \<subseteq> set rs \<and> set ws' \<subseteq> set ws \<and> set xs' \<subseteq> set xs"
  by (auto simp: sys_select_win_def Let_def split: if_splits select_reply.splits)

section \<open>Properties\<close>

text \<open>
  C30. The operations on Windows refine those on Linux: whatever sequence of sockets is added, changed
  and deleted, when it runs on Linux without an assertion failing and no set grows beyond 64
  sockets, it runs on Windows and ends in a state with the same sockets in the same sets, the
  same map and the same flags.
\<close>

theorem windows_ops_refine:
  assumes "win_ok e" "small_run ops (unix e)"
  shows "\<exists>f. run_ops op_win ops e = Ok f \<and> run_ops op_linux ops (unix e) = Ok (unix f) \<and> win_ok f"
  using run_win_sim [OF assms(2,1)] .

theorem windows_ops_refine_witness:
  "\<exists>f. run_ops op_win [Op_add 7 SK_EV_writable 3, Op_mod 7 SK_EV_readable] (new_event_loop_win False False undefined) = Ok f \<and>
    win_r f = [7] \<and> win_w f = []"
proof -
  let ?e = "new_event_loop_win False False undefined" and ?ops = "[Op_add 7 SK_EV_writable 3, Op_mod 7 SK_EV_readable]"
  have new: "unix ?e = new_event_loop_select False False undefined" "win_ok ?e"
    by (simp_all add: unix_def new_event_loop_win_def new_event_loop_select_def win_ok_def)
  obtain e1 t1 where e1: "evl_select_add_socket 7 SK_EV_writable 3 (unix ?e) = Ok e1" "evl_rep e1 t1 [7 \<mapsto> (SK_EV_writable, 3)]"
    using evl_add_law [OF evl_new_inv [of False False undefined], of 7 SK_EV_writable 3] by (auto simp: FD_SETSIZE_def new(1))
  obtain e2 where e2: "evl_select_mod_socket 7 SK_EV_readable e1 = Ok e2" "evl_rep e2 t1 [7 \<mapsto> (SK_EV_readable, 3)]"
    using evl_mod_law [OF e1(2), of 7 SK_EV_writable 3 SK_EV_readable] by auto
  have sets: "fds_r e1 = {}" "fds_w e1 = {7}" "fds_x e1 = {7}" "fds_r e2 = {7}" "fds_w e2 = {}" "fds_x e2 = {7}"
    using e1(2) e2(2) by (simp_all add: evl_rep_def word_flags)
  have "small_run ?ops (unix ?e)" using e1(1) e2(1) sets by (simp add: small_def WIN_FD_SETSIZE_def)
  then obtain f where f: "run_ops op_win ?ops ?e = Ok f" "Ok (unix f) = run_ops op_linux ?ops (unix ?e)" "win_ok f"
    using windows_ops_refine [OF new(2)] by metis
  then have "unix f = e2" using e1(1) e2(1) by simp
  then have "set (win_r f) = {7}" "set (win_w f) = {}" using sets unix_sel [of f] by simp_all
  then have "win_r f = [7]" "win_w f = []" using f(3) distinct_list_of_one [of "win_r f" 7] by (simp_all add: win_ok_def)
  with f(1) show ?thesis by blast
qed





end
