(* ===== verification/System.thy ===== *)
theory System
  imports Program Startup
begin

unbundle bit_operations_syntax

text \<open>
  The small services around the program: the allocator of \<open>core/src/alloc.c\<close>, the assertion handler
  of \<open>core/src/assert.c\<close>, the terminal flags of \<open>sys/src.linux/termio.c\<close>, and the status line that
  the main loops print.
\<close>

section \<open>The allocator\<close>

text \<open>
  \<open>heap_allocator\<close> is a function pointer with the contract of \<open>realloc\<close>: a parameter.  Memory is
  a map from the addresses of blocks to their bytes, and \<open>None\<close> is \<open>NULL\<close>.
\<close>

type_synonym blocks = "nat \<rightharpoonup> byte list"
type_synonym allocator = "nat option \<Rightarrow> nat \<Rightarrow> blocks \<Rightarrow> nat option \<times> blocks"

definition heap_malloc :: "allocator \<Rightarrow> nat \<Rightarrow> blocks \<Rightarrow> nat option \<times> blocks" where
  "heap_malloc heap_allocator n = heap_allocator None n"

definition heap_zalloc :: "allocator \<Rightarrow> nat \<Rightarrow> blocks \<Rightarrow> nat option \<times> blocks" where
  "heap_zalloc heap_allocator n m =
     (case heap_allocator None n m of
        (None, m) \<Rightarrow> (None, m)
      | (Some p, m) \<Rightarrow> (Some p, m(p \<mapsto> replicate n 0 @ drop n (case m p of None \<Rightarrow> [] | Some bs \<Rightarrow> bs))))"

definition heap_realloc :: "allocator \<Rightarrow> nat option \<Rightarrow> nat \<Rightarrow> blocks \<Rightarrow> nat option \<times> blocks" where
  "heap_realloc heap_allocator ptr n = heap_allocator ptr n"

definition heap_free :: "allocator \<Rightarrow> nat option \<Rightarrow> blocks \<Rightarrow> blocks" where
  "heap_free heap_allocator p m = snd (heap_realloc heap_allocator p 0 m)"

lemma heap_zalloc_zero:
  assumes "heap_allocator None n m = (Some p, m')" "m' p = Some bs" "length bs = n"
  shows "heap_zalloc heap_allocator n m = (Some p, m'(p \<mapsto> replicate n 0))"
  using assms by (simp add: heap_zalloc_def)

section \<open>The assertion handler\<close>

text \<open>What is written to \<open>stderr\<close>, and \<open>abort\<close>.  An \<open>assert\<close> whose condition is false calls it.\<close>

definition log_and_abort :: "string \<Rightarrow> string \<Rightarrow> nat \<Rightarrow> string \<times> 'a res" where
  "log_and_abort text file line =
     (''assert('' @ text @ '') failed in '' @ file @ '', line '' @ dec line @ ''\<newline>'', Stop Assertion_failed)"

lemma assert_aborts: "c_assert b k = (if b then k else snd (log_and_abort text file line))"
  by (simp add: c_assert_def log_and_abort_def)

section \<open>The terminal\<close>

text \<open>\<open>lflag\<close> is \<open>c_lflag\<close> of the terminal; \<open>tcgetattr\<close> and \<open>tcsetattr\<close> may fail.\<close>

definition ICANON :: "32 word" where "ICANON = 2"
definition ECHO :: "32 word" where "ECHO = 8"

definition term_mod_lflag :: "bool \<Rightarrow> bool \<Rightarrow> 32 word \<Rightarrow> 32 word \<Rightarrow> 32 word \<Rightarrow> int \<times> 32 word" where
  "term_mod_lflag get_ok set_ok m bits lflag =
     (if \<not> get_ok then (-1, lflag)
      else let new = (lflag AND NOT m) OR bits in if set_ok then (0, new) else (-1, lflag))"

definition term_set_buffering :: "bool \<Rightarrow> bool \<Rightarrow> bool \<Rightarrow> 32 word \<Rightarrow> int \<times> 32 word" where
  "term_set_buffering get_ok set_ok enable = term_mod_lflag get_ok set_ok ICANON (if enable then ICANON else 0)"

definition term_set_echo :: "bool \<Rightarrow> bool \<Rightarrow> bool \<Rightarrow> 32 word \<Rightarrow> int \<times> 32 word" where
  "term_set_echo get_ok set_ok enable = term_mod_lflag get_ok set_ok ECHO (if enable then ECHO else 0)"

lemma term_settings:
  "term_set_echo True True b (snd (term_set_buffering True True c l)) =
   (0, (if b then l OR ECHO else l AND NOT ECHO) AND NOT ICANON OR (if c then ICANON else 0))"
  by (rule prod_eqI)
    (simp_all add: term_set_echo_def term_set_buffering_def term_mod_lflag_def ICANON_def ECHO_def Let_def,
      auto intro!: bit_word_eqI simp: bit_simps)

section \<open>The status line\<close>

definition pad_left :: "nat \<Rightarrow> string \<Rightarrow> string" where
  "pad_left n text = replicate (n - length text) CHR '' '' @ text"

definition flag_chars :: "pipe_flags \<Rightarrow> string" where
  "flag_chars f =
     [if writable f then CHR ''w'' else if fin_sent f then CHR ''x'' else CHR ''-'',
      if readable f then CHR ''r'' else if fin_rcvd f then CHR ''x'' else CHR ''-'']"

definition side_status :: "('p, 'w) io_pipe \<Rightarrow> 'p br_stream \<Rightarrow> string" where
  "side_status io st =
     ''['' @ flag_chars (pipe_flags io (st_pipe st)) @ '' '' @ pad_left 10 (dec (unat (st_tx st))) @ '' '' @
     pad_left 10 (dec (unat (st_rx st))) @ '' '' @ pad_left 4 (dec (unat (ucast (st_congestions st) :: uint))) @ '']''"

definition status_line :: "('p, 'w) io_pipe \<Rightarrow> ('q, 'w) io_pipe \<Rightarrow> uint \<Rightarrow> ('p, 'q) br_bridge \<Rightarrow> string" where
  "status_line lio rio tick br =
     CHR 0x0D # dec (unat tick) @ ''  |  '' @ side_status lio (br_l br) @ '' '' @ side_status rio (br_r br)"

text \<open>
  After each turn: \<open>tick\<close>, a 32-bit counter, is increased once when nothing is printed and twice when
  the line is.  The relay also prints it when the bridge has gone down.
\<close>

definition relay_tick :: "('p, 'w) io_pipe \<Rightarrow> ('q, 'w) io_pipe \<Rightarrow> uint \<Rightarrow> ('p, 'q) program \<Rightarrow> uint \<times> string option" where
  "relay_tick lio rio tick x =
     (if tick mod 17 \<noteq> 0 \<and> snd x = [] then (tick + 1, None)
      else (tick + 2, Some (status_line lio rio (tick + 1) (fst x))))"

definition proxy_tick :: "('p, 'w) io_pipe \<Rightarrow> ('q, 'w) io_pipe \<Rightarrow> uint \<Rightarrow> ('p, 'q) program \<Rightarrow> uint \<times> string option" where
  "proxy_tick lio rio tick x =
     (if tick mod 17 \<noteq> 0 then (tick + 1, None)
      else (tick + 2, Some (status_line lio rio (tick + 1) (fst x))))"

end
