(* ===== verification/HList.thy ===== *)
theory HList
  imports Prelude
begin

text \<open>
  The intrusive list of \<open>data/inc/libp/list.h\<close>.  An item points to the next one and to the cell
  that points to it, which is the \<open>first\<close> of a head or the \<open>next\<close> of another item, so that it
  can be deleted without knowing its list.  Heads and items are addresses in two memories.

  \<open>hlist_at\<close> relates a head to the list of its items; the operations are insertion at the front
  and removal of it, and leave every other list alone.
\<close>

section \<open>The code\<close>

datatype hlist_cell = First_of nat | Next_of nat

record hlist_item =
  pprev :: "hlist_cell option"
  hl_next :: "nat option"

record hlist_mem =
  hl_first :: "nat \<Rightarrow> nat option"
  hl_items :: "nat \<rightharpoonup> hlist_item"

definition load_hitem :: "hlist_mem \<Rightarrow> nat \<Rightarrow> hlist_item res" where
  "load_hitem m i = (case hl_items m i of None \<Rightarrow> Stop Undefined_behaviour | Some x \<Rightarrow> Ok x)"

definition store_hitem :: "hlist_mem \<Rightarrow> nat \<Rightarrow> (hlist_item \<Rightarrow> hlist_item) \<Rightarrow> hlist_mem res" where
  "store_hitem m i f = bind_res (load_hitem m i) (\<lambda>x. Ok (m\<lparr>hl_items := (hl_items m)(i \<mapsto> f x)\<rparr>))"

text \<open>\<open>*pp = v\<close>.\<close>

definition store_cell :: "hlist_mem \<Rightarrow> hlist_cell \<Rightarrow> nat option \<Rightarrow> hlist_mem res" where
  "store_cell m pp v =
     (case pp of
        First_of h \<Rightarrow> Ok (m\<lparr>hl_first := (hl_first m)(h := v)\<rparr>)
      | Next_of i \<Rightarrow> store_hitem m i (hl_next_update (\<lambda>_. v)))"

definition hlist_init :: "nat \<Rightarrow> hlist_mem \<Rightarrow> hlist_mem" where
  "hlist_init h m = m\<lparr>hl_first := (hl_first m)(h := None)\<rparr>"

definition hlist_init_item :: "nat \<Rightarrow> hlist_mem \<Rightarrow> hlist_mem res" where
  "hlist_init_item i m = store_hitem m i (\<lambda>x. x\<lparr>pprev := None, hl_next := None\<rparr>)"

definition hlist_add_front :: "nat \<Rightarrow> nat \<Rightarrow> hlist_mem \<Rightarrow> hlist_mem res" where
  "hlist_add_front h i m =
     bind_res (store_hitem m i (hl_next_update (\<lambda>_. hl_first m h))) (\<lambda>m.
     bind_res (load_hitem m i) (\<lambda>x.
     bind_res (case hl_next x of None \<Rightarrow> Ok m | Some n \<Rightarrow> store_hitem m n (pprev_update (\<lambda>_. Some (Next_of i)))) (\<lambda>m.
     bind_res (store_hitem m i (pprev_update (\<lambda>_. Some (First_of h)))) (\<lambda>m.
       Ok (m\<lparr>hl_first := (hl_first m)(h := Some i)\<rparr>)))))"

definition hlist_del :: "nat \<Rightarrow> hlist_mem \<Rightarrow> hlist_mem res" where
  "hlist_del i m =
     bind_res (load_hitem m i) (\<lambda>x.
       case pprev x of None \<Rightarrow> Ok m
       | Some pp \<Rightarrow>
           bind_res (store_cell m pp (hl_next x)) (\<lambda>m.
           bind_res (load_hitem m i) (\<lambda>x.
           bind_res (case hl_next x of None \<Rightarrow> Ok m | Some n \<Rightarrow> store_hitem m n (pprev_update (\<lambda>_. pprev x))) (\<lambda>m.
             hlist_init_item i m))))"

definition hlist_walk :: "nat \<Rightarrow> nat option \<Rightarrow> hlist_mem \<Rightarrow> nat option res" where
  "hlist_walk h now m =
     (case now of None \<Rightarrow> Ok (hl_first m h) | Some i \<Rightarrow> bind_res (load_hitem m i) (\<lambda>x. Ok (hl_next x)))"

section \<open>Lists in memory\<close>

text \<open>The items from the pointer \<open>v\<close>, which the cell \<open>pp\<close> holds, to the pointer \<open>w\<close>.\<close>

fun hseg :: "hlist_mem \<Rightarrow> hlist_cell \<Rightarrow> nat option \<Rightarrow> nat list \<Rightarrow> nat option \<Rightarrow> bool" where
  "hseg m pp v [] w \<longleftrightarrow> v = w"
| "hseg m pp v (i # is) w \<longleftrightarrow> v = Some i \<and>
     (case hl_items m i of None \<Rightarrow> False
      | Some x \<Rightarrow> pprev x = Some pp \<and> hseg m (Next_of i) (hl_next x) is w)"

text \<open>The cell behind a list of items.\<close>

definition end_cell :: "hlist_cell \<Rightarrow> nat list \<Rightarrow> hlist_cell" where
  "end_cell pp is = (if is = [] then pp else Next_of (last is))"

definition hlist_at :: "hlist_mem \<Rightarrow> nat \<Rightarrow> nat list \<Rightarrow> bool" where
  "hlist_at m h is \<longleftrightarrow> distinct is \<and> hseg m (First_of h) (hl_first m h) is None"

text \<open>An item that is in no list.\<close>

definition hlist_free :: "hlist_mem \<Rightarrow> nat \<Rightarrow> bool" where
  "hlist_free m i \<longleftrightarrow> hl_items m i = Some \<lparr>pprev = None, hl_next = None\<rparr>"

text \<open>Nothing but the list \<open>h\<close> and the items \<open>is\<close> has changed.\<close>

definition hlist_only :: "nat \<Rightarrow> nat set \<Rightarrow> hlist_mem \<Rightarrow> hlist_mem \<Rightarrow> bool" where
  "hlist_only h is m m' \<longleftrightarrow> (\<forall>h'. h' \<noteq> h \<longrightarrow> hl_first m' h' = hl_first m h') \<and>
     (\<forall>i. i \<notin> is \<longrightarrow> hl_items m' i = hl_items m i)"

section \<open>Lemmas\<close>

lemma load_hitem_simps [simp]:
  "hl_items m i = Some x \<Longrightarrow> load_hitem m i = Ok x"
  "hl_items m i = Some x \<Longrightarrow> store_hitem m i f = Ok (m\<lparr>hl_items := (hl_items m)(i \<mapsto> f x)\<rparr>)"
  by (simp_all add: load_hitem_def store_hitem_def)

lemma end_cell_simps [simp]: "end_cell pp [] = pp" "end_cell pp (i # is) = end_cell (Next_of i) is"
  by (simp_all add: end_cell_def)

lemma hseg_cong:
  "\<forall>i \<in> set is. hl_items m' i = hl_items m i \<Longrightarrow> hseg m' pp v is w = hseg m pp v is w"
  by (induction "is" arbitrary: pp v) (auto split: option.split)

lemma hseg_append: "hseg m pp v (xs @ ys) w \<longleftrightarrow> (\<exists>u. hseg m pp v xs u \<and> hseg m (end_cell pp xs) u ys w)"
  by (induction xs arbitrary: pp v) (auto split: option.splits)

lemma hseg_item: "hseg m pp v is w \<Longrightarrow> i \<in> set is \<Longrightarrow> \<exists>x. hl_items m i = Some x"
  by (induction "is" arbitrary: pp v) (auto split: option.splits)

text \<open>Lists whose items and head are untouched stay as they are.\<close>

lemma hlist_only_at:
  assumes "hlist_only h S m m'" "h' \<noteq> h" "set is \<inter> S = {}"
  shows "hlist_at m' h' is = hlist_at m h' is"
proof -
  have "hseg m' (First_of h') v is None = hseg m (First_of h') v is None" for v
    by (rule hseg_cong) (use assms in \<open>auto simp: hlist_only_def\<close>)
  then show ?thesis using assms(1,2) by (simp add: hlist_at_def hlist_only_def)
qed

text \<open>The two stores of insertion and removal: behind a segment, and in front of one.\<close>

lemma hseg_store_end:
  assumes "hseg m pp v xs u" "distinct xs" "xs \<noteq> []"
  shows "\<exists>x. hl_items m (last xs) = Some x \<and>
    hseg (m\<lparr>hl_items := (hl_items m)(last xs \<mapsto> x\<lparr>hl_next := u'\<rparr>)\<rparr>) pp v xs u'"
proof -
  obtain ys z where xs: "xs = ys @ [z]" using assms(3) by (cases xs rule: rev_cases) auto
  then obtain x where z: "hl_items m z = Some x" "pprev x = Some (end_cell pp ys)" "hseg m pp v ys (Some z)"
    using assms(1) by (auto simp: hseg_append split: option.splits)
  let ?m = "m\<lparr>hl_items := (hl_items m)(z \<mapsto> x\<lparr>hl_next := u'\<rparr>)\<rparr>"
  have "hseg ?m pp v ys (Some z)"
    using z(3) assms(2) xs hseg_cong [of ys ?m m pp v "Some z"] by auto
  with z xs show ?thesis by (auto simp: hseg_append)
qed

lemma hseg_store_front:
  assumes "hseg m pp (Some j) (j # ys) w" "j \<notin> set ys"
  shows "\<exists>x. hl_items m j = Some x \<and>
    hseg (m\<lparr>hl_items := (hl_items m)(j \<mapsto> x\<lparr>pprev := Some qq\<rparr>)\<rparr>) qq (Some j) (j # ys) w"
proof -
  obtain x where x: "hl_items m j = Some x" "hseg m (Next_of j) (hl_next x) ys w"
    using assms(1) by (auto split: option.splits)
  let ?m = "m\<lparr>hl_items := (hl_items m)(j \<mapsto> x\<lparr>pprev := Some qq\<rparr>)\<rparr>"
  have "hseg ?m (Next_of j) (hl_next x) ys w"
    using x(2) assms(2) hseg_cong [of ys ?m m "Next_of j" "hl_next x" w] by auto
  with x show ?thesis by simp
qed

lemma hseg_first: "hseg m pp v is None \<Longrightarrow> v = (case is of [] \<Rightarrow> None | j # _ \<Rightarrow> Some j)"
  by (cases "is") auto

lemma add_front_law:
  assumes at: "hlist_at m h is" and item: "hl_items m i = Some x" "i \<notin> set is"
  obtains m' where "hlist_add_front h i m = Ok m'" "hlist_at m' h (i # is)" "hlist_only h (insert i (set is)) m m'"
proof -
  let ?m1 = "m\<lparr>hl_items := (hl_items m)(i \<mapsto> x\<lparr>hl_next := hl_first m h\<rparr>)\<rparr>"
  have seg: "hseg m (First_of h) (hl_first m h) is None" and dist: "distinct is"
    using at by (simp_all add: hlist_at_def)
  have seg1: "hseg ?m1 (First_of h) (hl_first m h) is None"
    using seg item(2) hseg_cong [of "is" ?m1 m "First_of h" "hl_first m h" None] by auto
  have "\<exists>m2. (case hl_first m h of None \<Rightarrow> Ok ?m1 | Some n \<Rightarrow> store_hitem ?m1 n (pprev_update (\<lambda>_. Some (Next_of i)))) = Ok m2 \<and>
    hseg m2 (Next_of i) (hl_first m h) is None \<and> hl_items m2 i = Some (x\<lparr>hl_next := hl_first m h\<rparr>) \<and>
    hl_first m2 = hl_first m \<and> (\<forall>k. k \<notin> insert i (set is) \<longrightarrow> hl_items m2 k = hl_items m k)"
  proof (cases "is")
    case Nil
    then show ?thesis using seg by auto
  next
    case (Cons j ys)
    then have first: "hl_first m h = Some j" "j \<noteq> i" "j \<notin> set ys" using seg item(2) dist by auto
    obtain y where y: "hl_items ?m1 j = Some y"
      "hseg (?m1\<lparr>hl_items := (hl_items ?m1)(j \<mapsto> y\<lparr>pprev := Some (Next_of i)\<rparr>)\<rparr>) (Next_of i) (Some j) (j # ys) None"
      using hseg_store_front [of ?m1 "First_of h" j ys None "Next_of i"] seg1 first(1,3) Cons by auto
    then show ?thesis
      using first Cons load_hitem_simps(2) [OF y(1)]
      by (intro exI [of _ "?m1\<lparr>hl_items := (hl_items ?m1)(j \<mapsto> y\<lparr>pprev := Some (Next_of i)\<rparr>)\<rparr>"]) auto
  qed
  then obtain m2 where m2: "(case hl_first m h of None \<Rightarrow> Ok ?m1
      | Some n \<Rightarrow> store_hitem ?m1 n (pprev_update (\<lambda>_. Some (Next_of i)))) = Ok m2"
    "hseg m2 (Next_of i) (hl_first m h) is None" "hl_items m2 i = Some (x\<lparr>hl_next := hl_first m h\<rparr>)"
    "hl_first m2 = hl_first m" "\<forall>k. k \<notin> insert i (set is) \<longrightarrow> hl_items m2 k = hl_items m k" by blast
  let ?y = "x\<lparr>hl_next := hl_first m h, pprev := Some (First_of h)\<rparr>"
  let ?m3 = "m2\<lparr>hl_items := (hl_items m2)(i \<mapsto> ?y), hl_first := (hl_first m2)(h := Some i)\<rparr>"
  have "hlist_add_front h i m = Ok ?m3"
    using item(1) m2(1,3) by (simp add: hlist_add_front_def)
  moreover have "hseg ?m3 (Next_of i) (hl_first m h) is None"
    using m2(2) item(2) hseg_cong [of "is" ?m3 m2 "Next_of i" "hl_first m h" None] by auto
  then have "hlist_at ?m3 h (i # is)" using item(2) dist by (simp add: hlist_at_def)
  moreover have "hlist_only h (insert i (set is)) m ?m3" using m2(4,5) by (simp add: hlist_only_def)
  ultimately show thesis by (rule that)
qed

lemma del_law:
  assumes at: "hlist_at m h (xs @ i # ys)"
  obtains m' where "hlist_del i m = Ok m'" "hlist_at m' h (xs @ ys)" "hlist_free m' i"
    "hlist_only h (set (xs @ i # ys)) m m'"
proof -
  have dist: "distinct (xs @ i # ys)" using at by (simp add: hlist_at_def)
  obtain x where x: "hl_items m i = Some x" "pprev x = Some (end_cell (First_of h) xs)"
    "hseg m (First_of h) (hl_first m h) xs (Some i)" "hseg m (Next_of i) (hl_next x) ys None"
    using at by (auto simp: hlist_at_def hseg_append split: option.splits)
  have "\<exists>m1. store_cell m (end_cell (First_of h) xs) (hl_next x) = Ok m1 \<and>
    hseg m1 (First_of h) (hl_first m1 h) xs (hl_next x) \<and>
    (\<forall>h'. h' \<noteq> h \<longrightarrow> hl_first m1 h' = hl_first m h') \<and> (\<forall>k. k \<notin> set xs \<longrightarrow> hl_items m1 k = hl_items m k)"
  proof (cases "xs = []")
    case False
    obtain z where z: "hl_items m (last xs) = Some z"
      "hseg (m\<lparr>hl_items := (hl_items m)(last xs \<mapsto> z\<lparr>hl_next := hl_next x\<rparr>)\<rparr>) (First_of h) (hl_first m h) xs (hl_next x)"
      using hseg_store_end [OF x(3) _ False, of "hl_next x"] dist by auto
    then show ?thesis
      using False load_hitem_simps(2) [OF z(1)]
      by (intro exI [of _ "m\<lparr>hl_items := (hl_items m)(last xs \<mapsto> z\<lparr>hl_next := hl_next x\<rparr>)\<rparr>"])
        (auto simp: store_cell_def end_cell_def)
  qed (simp add: store_cell_def)
  then obtain m1 where m1: "store_cell m (end_cell (First_of h) xs) (hl_next x) = Ok m1"
    "hseg m1 (First_of h) (hl_first m1 h) xs (hl_next x)"
    "\<forall>h'. h' \<noteq> h \<longrightarrow> hl_first m1 h' = hl_first m h'" "\<forall>k. k \<notin> set xs \<longrightarrow> hl_items m1 k = hl_items m k" by blast
  have i1: "hl_items m1 i = Some x" using m1(4) x(1) dist by simp
  have seg1: "hseg m1 (Next_of i) (hl_next x) ys None"
    using x(4) dist m1(4) hseg_cong [of ys m1 m "Next_of i" "hl_next x" None] by auto
  have "\<exists>m2. (case hl_next x of None \<Rightarrow> Ok m1 | Some n \<Rightarrow> store_hitem m1 n (pprev_update (\<lambda>_. pprev x))) = Ok m2 \<and>
    hseg m2 (end_cell (First_of h) xs) (hl_next x) ys None \<and> hl_first m2 = hl_first m1 \<and>
    (\<forall>k. k \<notin> set ys \<longrightarrow> hl_items m2 k = hl_items m1 k)"
  proof (cases ys)
    case Nil
    then show ?thesis using seg1 by auto
  next
    case (Cons j zs)
    then have next_j: "hl_next x = Some j" "j \<notin> set zs" using seg1 dist by auto
    obtain y where y: "hl_items m1 j = Some y"
      "hseg (m1\<lparr>hl_items := (hl_items m1)(j \<mapsto> y\<lparr>pprev := Some (end_cell (First_of h) xs)\<rparr>)\<rparr>)
        (end_cell (First_of h) xs) (Some j) (j # zs) None"
      using hseg_store_front [of m1 "Next_of i" j zs None "end_cell (First_of h) xs"] seg1 next_j Cons by auto
    then show ?thesis
      using next_j(1) Cons x(2) load_hitem_simps(2) [OF y(1)]
      by (intro exI [of _ "m1\<lparr>hl_items := (hl_items m1)(j \<mapsto> y\<lparr>pprev := Some (end_cell (First_of h) xs)\<rparr>)\<rparr>"]) auto
  qed
  then obtain m2 where m2: "(case hl_next x of None \<Rightarrow> Ok m1
      | Some n \<Rightarrow> store_hitem m1 n (pprev_update (\<lambda>_. pprev x))) = Ok m2"
    "hseg m2 (end_cell (First_of h) xs) (hl_next x) ys None" "hl_first m2 = hl_first m1"
    "\<forall>k. k \<notin> set ys \<longrightarrow> hl_items m2 k = hl_items m1 k" by blast
  have i2: "hl_items m2 i = Some x" using m2(4) i1 dist by simp
  let ?m3 = "m2\<lparr>hl_items := (hl_items m2)(i \<mapsto> x\<lparr>pprev := None, hl_next := None\<rparr>)\<rparr>"
  have "hlist_del i m = Ok ?m3"
    using x(1,2) m1(1) i1 m2(1) i2 by (simp add: hlist_del_def hlist_init_item_def)
  moreover have "hseg m2 (First_of h) (hl_first m2 h) xs (hl_next x)"
    using m1(2) m2(3,4) dist hseg_cong [of xs m2 m1 "First_of h" "hl_first m1 h" "hl_next x"] by auto
  then have "hseg m2 (First_of h) (hl_first m2 h) (xs @ ys) None" using m2(2) by (auto simp: hseg_append)
  then have "hlist_at ?m3 h (xs @ ys)"
    using dist hseg_cong [of "xs @ ys" ?m3 m2 "First_of h" "hl_first m2 h" None] by (auto simp: hlist_at_def)
  moreover have "hlist_free ?m3 i" by (simp add: hlist_free_def)
  moreover have "hlist_only h (set (xs @ i # ys)) m ?m3" using m1(3,4) m2(3,4) by (auto simp: hlist_only_def)
  ultimately show thesis by (rule that)
qed

section \<open>Properties\<close>

text \<open>
  Insertion and walking.  \<open>hlist_add_front\<close> makes an item that is not in the list its first
  one, whatever its two fields held, and a walk from the head visits it first and the old
  items in their order behind it; other lists do not change.
\<close>

theorem hlist_add_front_correct:
  assumes "hlist_at m h is" "hl_items m i = Some x" "i \<notin> set is"
  shows "\<exists>m'. hlist_add_front h i m = Ok m' \<and> hlist_at m' h (i # is) \<and>
    hlist_walk h None m' = Ok (Some i) \<and> hlist_walk h (Some i) m' = Ok (hl_first m h) \<and>
    (\<forall>h' js. h' \<noteq> h \<and> i \<notin> set js \<and> set is \<inter> set js = {} \<longrightarrow> hlist_at m' h' js = hlist_at m h' js)"
proof -
  obtain m' where m': "hlist_add_front h i m = Ok m'" "hlist_at m' h (i # is)" "hlist_only h (insert i (set is)) m m'"
    by (rule add_front_law [OF assms])
  obtain y where y: "hl_items m' i = Some y" "hseg m' (Next_of i) (hl_next y) is None" "hl_first m' h = Some i"
    using m'(2) by (auto simp: hlist_at_def split: option.splits)
  have "hl_next y = hl_first m h"
    using hseg_first [OF y(2)] hseg_first [of m "First_of h" "hl_first m h" "is"] assms(1)
    by (simp add: hlist_at_def)
  moreover have "hlist_at m' h' js = hlist_at m h' js" if "h' \<noteq> h" "i \<notin> set js" "set is \<inter> set js = {}" for h' js
    by (rule hlist_only_at [OF m'(3) that(1)]) (use that in auto)
  ultimately show ?thesis using m' y by (simp add: hlist_walk_def)
qed

theorem hlist_add_front_correct_witness:
  "\<exists>m'. hlist_add_front 0 5 \<lparr>hl_first = (\<lambda>_. None), hl_items = [5 \<mapsto> \<lparr>pprev = None, hl_next = None\<rparr>]\<rparr> = Ok m' \<and>
    hlist_at m' 0 [5]"
  using hlist_add_front_correct [of "\<lparr>hl_first = (\<lambda>_. None), hl_items = [5 \<mapsto> \<lparr>pprev = None, hl_next = None\<rparr>]\<rparr>" 0 "[]" 5]
  by (auto simp: hlist_at_def)

text \<open>
  C33. Removal.  \<open>hlist_del\<close> takes an item out of the list it is in, wherever it is, without being
  told the list; the others keep their order, the item can be deleted again with no effect, and
  other lists do not change.
\<close>

theorem hlist_del_correct:
  assumes "hlist_at m h (xs @ i # ys)"
  shows "\<exists>m'. hlist_del i m = Ok m' \<and> hlist_at m' h (xs @ ys) \<and> hlist_del i m' = Ok m' \<and>
    (\<forall>h' js. h' \<noteq> h \<and> set (xs @ i # ys) \<inter> set js = {} \<longrightarrow> hlist_at m' h' js = hlist_at m h' js)"
proof -
  obtain m' where m': "hlist_del i m = Ok m'" "hlist_at m' h (xs @ ys)" "hlist_free m' i"
    "hlist_only h (set (xs @ i # ys)) m m'"
    by (rule del_law [OF assms])
  have "hlist_del i m' = Ok m'" using m'(3) by (simp add: hlist_free_def hlist_del_def)
  moreover have "hlist_at m' h' js = hlist_at m h' js" if "h' \<noteq> h" "set (xs @ i # ys) \<inter> set js = {}" for h' js
    by (rule hlist_only_at [OF m'(4) that(1)]) (use that in auto)
  ultimately show ?thesis using m' by blast
qed

theorem hlist_del_correct_witness:
  "\<exists>m'. hlist_del 5 \<lparr>hl_first = (\<lambda>_. Some 5), hl_items = [5 \<mapsto> \<lparr>pprev = Some (First_of 0), hl_next = None\<rparr>]\<rparr> = Ok m' \<and>
    hlist_at m' 0 []"
  using hlist_del_correct [of "\<lparr>hl_first = (\<lambda>_. Some 5), hl_items = [5 \<mapsto> \<lparr>pprev = Some (First_of 0), hl_next = None\<rparr>]\<rparr>" 0 "[]" 5 "[]"]
  by (auto simp: hlist_at_def)

end
